(* ===== verification/Prelude.thy ===== *)
theory Prelude
  imports Main "HOL-Library.Word" "HOL-Library.Multiset"
begin

text \<open>
  Shared vocabulary of the development: the result monad in which a fallible C++ operation
  is written (\<open>Inl\<close> is the fault, \<open>Inr\<close> the value), the bit lemmas that the event
  masks need, and the generic list lemmas the components share.
\<close>

unbundle bit_operations_syntax

named_theorems outcome_simps "unfolding and case splits of the result monad"

section \<open>Results of operations that may fail\<close>

definition obind :: "'e + 'a \<Rightarrow> ('a \<Rightarrow> 'e + 'b) \<Rightarrow> 'e + 'b" where
  "obind m f = (case m of Inl e \<Rightarrow> Inl e | Inr x \<Rightarrow> f x)"

lemma obind_simps [simp]:
  "obind (Inl e) f = Inl e"
  "obind (Inr x) f = f x"
  by (simp_all add: obind_def)

lemma obind_eq_Inr_iff [outcome_simps]:
  "obind m f = Inr y \<longleftrightarrow> (\<exists>x. m = Inr x \<and> f x = Inr y)"
  by (cases m) auto

lemma obind_eq_Inl_iff [outcome_simps]:
  "obind m f = Inl e \<longleftrightarrow> m = Inl e \<or> (\<exists>x. m = Inr x \<and> f x = Inl e)"
  by (cases m) auto

lemma obind_assoc: "obind (obind m f) g = obind m (\<lambda>x. obind (f x) g)"
  by (cases m) auto

lemma obind_cong [fundef_cong]:
  "m = m' \<Longrightarrow> (\<And>x. m' = Inr x \<Longrightarrow> f x = f' x) \<Longrightarrow> obind m f = obind m' f'"
  by (cases m') auto

text \<open>\<open>guard_or e b\<close> is the C++ idiom \<open>if (!b) fail\<close>: an assertion or an early exit.\<close>

definition guard_or :: "'e \<Rightarrow> bool \<Rightarrow> 'e + unit" where
  "guard_or e b = (if b then Inr () else Inl e)"

lemma guard_or_simps [simp]:
  "guard_or e True = Inr ()"
  "guard_or e False = Inl e"
  by (simp_all add: guard_or_def)

lemma guard_or_eq_Inr [simp]: "guard_or e b = Inr u \<longleftrightarrow> b"
  by (simp add: guard_or_def)

lemma guard_or_eq_Inl [simp]: "guard_or e b = Inl e' \<longleftrightarrow> \<not> b \<and> e' = e"
  by (auto simp: guard_or_def)

definition outcome_ok :: "('a \<Rightarrow> bool) \<Rightarrow> 'e + 'a \<Rightarrow> bool" where
  "outcome_ok P m = (case m of Inl _ \<Rightarrow> False | Inr x \<Rightarrow> P x)"

lemma outcome_ok_simps [simp]:
  "outcome_ok P (Inl e) = False"
  "outcome_ok P (Inr x) = P x"
  by (simp_all add: outcome_ok_def)

lemma outcome_ok_iff: "outcome_ok P m \<longleftrightarrow> (\<exists>x. m = Inr x \<and> P x)"
  by (cases m) auto

section \<open>Steps that keep the state they fail in\<close>

text \<open>
  Code that runs callbacks is written as steps \<open>'s \<Rightarrow> 's \<times> 'e option\<close>: the state
  reached, and the fault the step ended in, if any.  Unlike \<open>'e + 's\<close> it tells in what state an
  exception leaves the objects.
\<close>

type_synonym ('s, 'e) act = "'s \<Rightarrow> 's \<times> 'e option"

definition skip :: "('s, 'e) act" where
  "skip s = (s, None)"

definition raise :: "'e \<Rightarrow> ('s, 'e) act" where
  "raise e s = (s, Some e)"

definition andThen :: "('s, 'e) act \<Rightarrow> ('s, 'e) act \<Rightarrow> ('s, 'e) act" where
  "andThen a b s = (case a s of (s', None) \<Rightarrow> b s' | (s', Some e) \<Rightarrow> (s', Some e))"

lemma skip_simps [simp]: "skip s = (s, None)"
  by (simp add: skip_def)

lemma raise_simps [simp]: "raise e s = (s, Some e)"
  by (simp add: raise_def)

lemma andThen_ok [simp]: "a s = (s', None) \<Longrightarrow> andThen a b s = b s'"
  by (simp add: andThen_def)

lemma andThen_fail [simp]: "a s = (s', Some e) \<Longrightarrow> andThen a b s = (s', Some e)"
  by (simp add: andThen_def)

lemma andThen_cong [fundef_cong]:
  "s = s' \<Longrightarrow> a s' = a' s' \<Longrightarrow> (\<And>t. a' s' = (t, None) \<Longrightarrow> b t = b' t) \<Longrightarrow> andThen a b s = andThen a' b' s'"
  by (auto simp: andThen_def split: prod.splits option.splits)

text \<open>
  \<open>kept ok P a\<close>: the step \<open>a\<close> keeps \<open>P\<close>, whenever it ends in an outcome that is \<open>ok\<close>.
\<close>

definition kept :: "('e option \<Rightarrow> bool) \<Rightarrow> ('s \<Rightarrow> bool) \<Rightarrow> ('s, 'e) act \<Rightarrow> bool" where
  "kept ok P a \<longleftrightarrow> (\<forall>s. P s \<longrightarrow> ok (snd (a s)) \<longrightarrow> P (fst (a s)))"

named_theorems kept_intros "rules that take apart the steps of a program"

definition any_outcome :: "'e option \<Rightarrow> bool" where
  "any_outcome e = True"

definition returned :: "'e option \<Rightarrow> bool" where
  "returned e \<longleftrightarrow> e = None"

lemma any_outcomeI: "any_outcome e"
  by (simp add: any_outcome_def)

lemma returned_simps [simp]: "returned None" "\<not> returned (Some e)"
  by (simp_all add: returned_def)

lemma keptD: "kept ok P a \<Longrightarrow> P s \<Longrightarrow> a s = (s', e) \<Longrightarrow> ok e \<Longrightarrow> P s'"
  by (force simp: kept_def)

lemma kept_anyD: "kept any_outcome P a \<Longrightarrow> P s \<Longrightarrow> P (fst (a s))"
  by (simp add: kept_def any_outcome_def)

lemma kept_anyI: "(\<And>s. P s \<Longrightarrow> P (fst (a s))) \<Longrightarrow> kept any_outcome P a"
  by (simp add: kept_def)

lemma keptI: "(\<And>s s' e. P s \<Longrightarrow> a s = (s', e) \<Longrightarrow> ok e \<Longrightarrow> P s') \<Longrightarrow> kept ok P a"
  unfolding kept_def by (metis prod.collapse)

lemma kept_any: "kept any_outcome P a \<Longrightarrow> kept ok P a"
  by (simp add: kept_def any_outcome_def)

lemma kept_skip [kept_intros]: "kept ok P skip"
  by (simp add: kept_def)

lemma kept_raise [kept_intros]: "kept ok P (raise e)"
  by (simp add: kept_def)

lemma kept_update: "(\<And>s. P s \<Longrightarrow> P (f s)) \<Longrightarrow> kept ok P (\<lambda>s. (f s, e s))"
  by (simp add: kept_def)

lemma kept_after: "(\<And>s. P s \<Longrightarrow> P (f s)) \<Longrightarrow> kept ok P a \<Longrightarrow> kept ok P (\<lambda>s. a (f s))"
  by (simp add: kept_def)

lemma kept_if [kept_intros]:
  "kept ok P a \<Longrightarrow> kept ok P b \<Longrightarrow> kept ok P (\<lambda>s. if c s then a s else b s)"
  by (simp add: kept_def)

lemma kept_andThen [kept_intros]:
  assumes "ok None" "kept ok P a" "kept ok P b"
  shows "kept ok P (andThen a b)"
proof (rule keptI)
  fix s s' e
  assume h: "P s" "andThen a b s = (s', e)" "ok e"
  obtain t x where a: "a s = (t, x)" by fastforce
  show "P s'"
  proof (cases x)
    case None
    then have "P t" using keptD [OF assms(2) h(1) a] assms(1) by simp
    then show ?thesis using keptD [OF assms(3)] h a None by auto
  next
    case (Some e')
    then show ?thesis using keptD [OF assms(2) h(1) a] h a by auto
  qed
qed

section \<open>Lists\<close>

lemma take_drop_split: "i \<le> j \<Longrightarrow> take (j - i) (drop i xs) @ drop j xs = drop i xs"
  by (metis append_take_drop_id drop_drop le_add_diff_inverse2)

lemma last_in_append_Cons [simp]: "last (xs @ y # ys) = last (y # ys)"
  by simp

lemma list_all_butlast: "list_all P xs \<Longrightarrow> list_all P (butlast xs)"
  by (induction xs) auto

section \<open>Bits\<close>

lemma word_and_or_left_nz:
  fixes a b :: "'a::len word"
  assumes "b \<noteq> 0"
  shows "(a OR b) AND b \<noteq> 0"
proof -
  have "(a OR b) AND b = b" by (simp add: bit.conj_disj_distrib2)
  with assms show ?thesis by simp
qed

lemma word_and_not_self: "(a AND NOT b) AND b = (0 :: 'a::len word)"
  by (simp add: and.assoc)

lemma word_or_and_disjoint:
  "b AND c = (0 :: 'a::len word) \<Longrightarrow> (a OR b) AND c = a AND c"
  by (simp add: bit.conj_disj_distrib2)

lemma word_and_not_and_disjoint:
  fixes a b c :: "'a::len word"
  assumes "b AND c = 0"
  shows "(a AND NOT b) AND c = a AND c"
proof (rule bit_word_eqI)
  fix n
  assume "n < LENGTH('a)"
  have "\<not> (bit b n \<and> bit c n)"
    using assms by (metis bit_0_eq bit_and_iff bot_apply bot_bool_def)
  then show "bit ((a AND NOT b) AND c) n = bit (a AND c) n"
    using \<open>n < LENGTH('a)\<close> by (auto simp: bit_simps)
qed

end
