(* ===== verification/DbException.thy ===== *)
theory DbException
  imports Prelude
begin

text \<open>
  The exception hierarchy of \<^verbatim>\<open>db/Exception.h\<close> and \<^verbatim>\<open>db/Exception.cpp\<close>: the classes and
  their base classes, the objects their constructors build, the virtual \<^verbatim>\<open>base()\<close>, and the
  \<open>fault\<close> type every fallible operation of the model returns.
\<close>

section \<open>Classes and base classes\<close>

datatype exn_class =
    StdException | StdRuntimeError | StdLogicError | StdInvalidArgument | StdDomainError
  | StdOutOfRange
  | DrogonDbException
  | Failure | BrokenConnection | SqlError | InDoubtError
  | TransactionRollback | SerializationFailure | StatementCompletionUnknown | DeadlockDetected
  | InternalError | TimeoutError | UsageError | ArgumentError | ConversionError | RangeError
  | UnexpectedRows
  | FeatureNotSupported | DataException
  | IntegrityConstraintViolation | RestrictViolation | NotNullViolation | ForeignKeyViolation
  | UniqueViolation | CheckViolation
  | InvalidCursorState | InvalidSqlStatementName | InvalidCursorName
  | SyntaxError | UndefinedColumn | UndefinedFunction | UndefinedTable
  | InsufficientPrivilege | InsufficientResources | DiskFull | OutOfMemory
  | TooManyConnections

text \<open>The base clause of each class, in the order it is written.\<close>

fun bases :: "exn_class \<Rightarrow> exn_class list" where
  "bases StdException = []"
| "bases StdRuntimeError = [StdException]"
| "bases StdLogicError = [StdException]"
| "bases StdInvalidArgument = [StdLogicError]"
| "bases StdDomainError = [StdLogicError]"
| "bases StdOutOfRange = [StdLogicError]"
| "bases DrogonDbException = []"
| "bases Failure = [DrogonDbException, StdRuntimeError]"
| "bases BrokenConnection = [Failure]"
| "bases SqlError = [Failure]"
| "bases InDoubtError = [Failure]"
| "bases TransactionRollback = [Failure]"
| "bases SerializationFailure = [TransactionRollback]"
| "bases StatementCompletionUnknown = [TransactionRollback]"
| "bases DeadlockDetected = [TransactionRollback]"
| "bases InternalError = [DrogonDbException, StdLogicError]"
| "bases TimeoutError = [DrogonDbException, StdLogicError]"
| "bases UsageError = [DrogonDbException, StdLogicError]"
| "bases ArgumentError = [DrogonDbException, StdInvalidArgument]"
| "bases ConversionError = [DrogonDbException, StdDomainError]"
| "bases RangeError = [DrogonDbException, StdOutOfRange]"
| "bases UnexpectedRows = [RangeError]"
| "bases FeatureNotSupported = [SqlError]"
| "bases DataException = [SqlError]"
| "bases IntegrityConstraintViolation = [SqlError]"
| "bases RestrictViolation = [IntegrityConstraintViolation]"
| "bases NotNullViolation = [IntegrityConstraintViolation]"
| "bases ForeignKeyViolation = [IntegrityConstraintViolation]"
| "bases UniqueViolation = [IntegrityConstraintViolation]"
| "bases CheckViolation = [IntegrityConstraintViolation]"
| "bases InvalidCursorState = [SqlError]"
| "bases InvalidSqlStatementName = [SqlError]"
| "bases InvalidCursorName = [SqlError]"
| "bases SyntaxError = [SqlError]"
| "bases UndefinedColumn = [SyntaxError]"
| "bases UndefinedFunction = [SyntaxError]"
| "bases UndefinedTable = [SyntaxError]"
| "bases InsufficientPrivilege = [SqlError]"
| "bases InsufficientResources = [SqlError]"
| "bases DiskFull = [InsufficientResources]"
| "bases OutOfMemory = [InsufficientResources]"
| "bases TooManyConnections = [BrokenConnection]"

text \<open>A rank that drops from a class to each of its bases: the hierarchy has no cycle.\<close>

fun class_rank :: "exn_class \<Rightarrow> nat" where
  "class_rank StdException = 0"
| "class_rank DrogonDbException = 0"
| "class_rank StdRuntimeError = 1"
| "class_rank StdLogicError = 1"
| "class_rank StdInvalidArgument = 2"
| "class_rank StdDomainError = 2"
| "class_rank StdOutOfRange = 2"
| "class_rank Failure = 3"
| "class_rank InternalError = 3"
| "class_rank TimeoutError = 3"
| "class_rank UsageError = 3"
| "class_rank ArgumentError = 3"
| "class_rank ConversionError = 3"
| "class_rank RangeError = 3"
| "class_rank UnexpectedRows = 4"
| "class_rank BrokenConnection = 4"
| "class_rank SqlError = 4"
| "class_rank InDoubtError = 4"
| "class_rank TransactionRollback = 4"
| "class_rank TooManyConnections = 5"
| "class_rank IntegrityConstraintViolation = 5"
| "class_rank SyntaxError = 5"
| "class_rank InsufficientResources = 5"
| "class_rank _ = 6"

lemma bases_rank: "b \<in> set (bases c) \<Longrightarrow> class_rank b < class_rank c"
  by (cases c) auto

text \<open>
  The base-class subobjects of an object, one entry per subobject (the code inherits without
  \<^verbatim>\<open>virtual\<close>, so a base reached along two paths is there twice).
\<close>

function subobjects :: "exn_class \<Rightarrow> exn_class list" where
  "subobjects c = c # concat (map subobjects (bases c))"
  by pat_completeness auto
termination
  by (relation "measure class_rank") (auto intro: bases_rank)

declare subobjects.simps [simp del]

definition derives :: "exn_class \<Rightarrow> exn_class \<Rightarrow> bool" where
  "derives c b \<longleftrightarrow> b \<in> set (subobjects c)"

text \<open>
  A handler \<^verbatim>\<open>catch (const B &)\<close> takes an object of class \<open>c\<close> when \<open>B\<close> is an
  accessible and unambiguous base of \<open>c\<close>; every base here is public.
\<close>

definition catches :: "exn_class \<Rightarrow> exn_class \<Rightarrow> bool" where
  "catches b c \<longleftrightarrow> count_list (subobjects c) b = 1"

section \<open>Exception objects\<close>

text \<open>
  One record holds the fields of every class; the fields of \<^verbatim>\<open>SqlError\<close> and \<^verbatim>\<open>SyntaxError\<close>
  keep their defaults in the other classes, which do not have them.
\<close>

record exn =
  cls :: exn_class
  what :: string
  query :: string
  sqlState :: string
  errcode :: int
  extendedErrcode :: int
  errorPosition :: int

text \<open>The object before its constructors run, and the exceptions of the standard library.\<close>

definition blank :: "exn_class \<Rightarrow> exn" where
  "blank c = \<lparr>cls = c, what = [], query = [], sqlState = [], errcode = 0,
              extendedErrcode = 0, errorPosition = -1\<rparr>"

definition init_std :: "string \<Rightarrow> exn \<Rightarrow> exn" where
  "init_std w x = x\<lparr>what := w\<rparr>"

definition mk_exn :: "exn_class \<Rightarrow> string \<Rightarrow> exn" where
  "mk_exn c w = init_std w (blank c)"

section \<open>Constructors\<close>

text \<open>
  A constructor initialises its part of the object and first runs the constructor of its base
  that its initialiser list names.  The classes that take a message:
\<close>

definition init_Failure :: "string \<Rightarrow> exn \<Rightarrow> exn" where
  "init_Failure w = init_std w"

definition init_BrokenConnection_default :: "exn \<Rightarrow> exn" where
  "init_BrokenConnection_default = init_Failure ''Connection to database failed''"

definition init_BrokenConnection :: "string \<Rightarrow> exn \<Rightarrow> exn" where
  "init_BrokenConnection w = init_Failure w"

definition init_InternalError :: "string \<Rightarrow> exn \<Rightarrow> exn" where
  "init_InternalError w = init_std (''drogon database internal error: '' @ w)"

definition init_TransactionRollback :: "string \<Rightarrow> exn \<Rightarrow> exn" where
  "init_TransactionRollback w = init_Failure w"

definition init_SerializationFailure :: "string \<Rightarrow> exn \<Rightarrow> exn" where
  "init_SerializationFailure w = init_TransactionRollback w"

definition init_StatementCompletionUnknown :: "string \<Rightarrow> exn \<Rightarrow> exn" where
  "init_StatementCompletionUnknown w = init_TransactionRollback w"

definition init_DeadlockDetected :: "string \<Rightarrow> exn \<Rightarrow> exn" where
  "init_DeadlockDetected w = init_TransactionRollback w"

definition init_InDoubtError :: "string \<Rightarrow> exn \<Rightarrow> exn" where
  "init_InDoubtError w = init_Failure w"

definition init_TimeoutError :: "string \<Rightarrow> exn \<Rightarrow> exn" where
  "init_TimeoutError w = init_std w"

definition init_UsageError :: "string \<Rightarrow> exn \<Rightarrow> exn" where
  "init_UsageError w = init_std w"

definition init_ArgumentError :: "string \<Rightarrow> exn \<Rightarrow> exn" where
  "init_ArgumentError w = init_std w"

definition init_ConversionError :: "string \<Rightarrow> exn \<Rightarrow> exn" where
  "init_ConversionError w = init_std w"

definition init_RangeError :: "string \<Rightarrow> exn \<Rightarrow> exn" where
  "init_RangeError w = init_std w"

definition init_UnexpectedRows :: "string \<Rightarrow> exn \<Rightarrow> exn" where
  "init_UnexpectedRows w = init_RangeError w"

definition init_TooManyConnections :: "string \<Rightarrow> exn \<Rightarrow> exn" where
  "init_TooManyConnections w = init_BrokenConnection w"

text \<open>
  The two overloads of the constructor of \<^verbatim>\<open>SqlError\<close> and of its subclasses: a message, the
  query and a C string with the SQLSTATE, which may be null; or the codes of the error.
\<close>

datatype sql_args =
    ErrState (arg_msg: string) (arg_query: string) (arg_state: "string option")
  | ErrCode (arg_msg: string) (arg_query: string) (arg_code: int) (arg_extended: int)

fun init_SqlError :: "sql_args \<Rightarrow> exn \<Rightarrow> exn" where
  "init_SqlError (ErrState w q st) x =
     (init_Failure w x)\<lparr>query := q, sqlState := (case st of None \<Rightarrow> [] | Some z \<Rightarrow> z),
                         errcode := 0, extendedErrcode := 0\<rparr>"
| "init_SqlError (ErrCode w q ec xec) x =
     (init_Failure w x)\<lparr>query := q, sqlState := [], errcode := ec, extendedErrcode := xec\<rparr>"

definition init_FeatureNotSupported :: "sql_args \<Rightarrow> exn \<Rightarrow> exn" where
  "init_FeatureNotSupported a = init_SqlError a"

definition init_DataException :: "sql_args \<Rightarrow> exn \<Rightarrow> exn" where
  "init_DataException a = init_SqlError a"

definition init_IntegrityConstraintViolation :: "sql_args \<Rightarrow> exn \<Rightarrow> exn" where
  "init_IntegrityConstraintViolation a = init_SqlError a"

definition init_RestrictViolation :: "sql_args \<Rightarrow> exn \<Rightarrow> exn" where
  "init_RestrictViolation a = init_IntegrityConstraintViolation a"

definition init_NotNullViolation :: "sql_args \<Rightarrow> exn \<Rightarrow> exn" where
  "init_NotNullViolation a = init_IntegrityConstraintViolation a"

definition init_ForeignKeyViolation :: "sql_args \<Rightarrow> exn \<Rightarrow> exn" where
  "init_ForeignKeyViolation a = init_IntegrityConstraintViolation a"

definition init_UniqueViolation :: "sql_args \<Rightarrow> exn \<Rightarrow> exn" where
  "init_UniqueViolation a = init_IntegrityConstraintViolation a"

definition init_CheckViolation :: "sql_args \<Rightarrow> exn \<Rightarrow> exn" where
  "init_CheckViolation a = init_IntegrityConstraintViolation a"

definition init_InvalidCursorState :: "sql_args \<Rightarrow> exn \<Rightarrow> exn" where
  "init_InvalidCursorState a = init_SqlError a"

definition init_InvalidSqlStatementName :: "sql_args \<Rightarrow> exn \<Rightarrow> exn" where
  "init_InvalidSqlStatementName a = init_SqlError a"

definition init_InvalidCursorName :: "sql_args \<Rightarrow> exn \<Rightarrow> exn" where
  "init_InvalidCursorName a = init_SqlError a"

definition init_SyntaxError :: "sql_args \<Rightarrow> int \<Rightarrow> exn \<Rightarrow> exn" where
  "init_SyntaxError a p x = (init_SqlError a x)\<lparr>errorPosition := p\<rparr>"

definition init_UndefinedColumn :: "sql_args \<Rightarrow> exn \<Rightarrow> exn" where
  "init_UndefinedColumn a = init_SyntaxError a (-1)"

definition init_UndefinedFunction :: "sql_args \<Rightarrow> exn \<Rightarrow> exn" where
  "init_UndefinedFunction a = init_SyntaxError a (-1)"

definition init_UndefinedTable :: "sql_args \<Rightarrow> exn \<Rightarrow> exn" where
  "init_UndefinedTable a = init_SyntaxError a (-1)"

definition init_InsufficientPrivilege :: "sql_args \<Rightarrow> exn \<Rightarrow> exn" where
  "init_InsufficientPrivilege a = init_SqlError a"

definition init_InsufficientResources :: "sql_args \<Rightarrow> exn \<Rightarrow> exn" where
  "init_InsufficientResources a = init_SqlError a"

definition init_DiskFull :: "sql_args \<Rightarrow> exn \<Rightarrow> exn" where
  "init_DiskFull a = init_InsufficientResources a"

definition init_OutOfMemory :: "sql_args \<Rightarrow> exn \<Rightarrow> exn" where
  "init_OutOfMemory a = init_InsufficientResources a"

lemmas init_defs = init_std_def init_Failure_def init_BrokenConnection_def init_InternalError_def
  init_TransactionRollback_def init_SerializationFailure_def init_StatementCompletionUnknown_def
  init_DeadlockDetected_def init_InDoubtError_def init_TimeoutError_def init_UsageError_def
  init_ArgumentError_def init_ConversionError_def init_RangeError_def init_UnexpectedRows_def
  init_TooManyConnections_def init_FeatureNotSupported_def init_DataException_def
  init_IntegrityConstraintViolation_def init_RestrictViolation_def init_NotNullViolation_def
  init_ForeignKeyViolation_def init_UniqueViolation_def init_CheckViolation_def
  init_InvalidCursorState_def init_InvalidSqlStatementName_def init_InvalidCursorName_def
  init_SyntaxError_def init_UndefinedColumn_def init_UndefinedFunction_def init_UndefinedTable_def
  init_InsufficientPrivilege_def init_InsufficientResources_def init_DiskFull_def
  init_OutOfMemory_def

text \<open>
  \<^verbatim>\<open>throw C(...)\<close> for the classes that take a message and for those that take the arguments of
  \<^verbatim>\<open>SqlError\<close> (\<^verbatim>\<open>SyntaxError\<close> with the default position).
\<close>

fun construct_msg :: "exn_class \<Rightarrow> string \<Rightarrow> exn option" where
  "construct_msg Failure w = Some (init_Failure w (blank Failure))"
| "construct_msg BrokenConnection w = Some (init_BrokenConnection w (blank BrokenConnection))"
| "construct_msg InternalError w = Some (init_InternalError w (blank InternalError))"
| "construct_msg TransactionRollback w = Some (init_TransactionRollback w (blank TransactionRollback))"
| "construct_msg SerializationFailure w = Some (init_SerializationFailure w (blank SerializationFailure))"
| "construct_msg StatementCompletionUnknown w = Some (init_StatementCompletionUnknown w (blank StatementCompletionUnknown))"
| "construct_msg DeadlockDetected w = Some (init_DeadlockDetected w (blank DeadlockDetected))"
| "construct_msg InDoubtError w = Some (init_InDoubtError w (blank InDoubtError))"
| "construct_msg TimeoutError w = Some (init_TimeoutError w (blank TimeoutError))"
| "construct_msg UsageError w = Some (init_UsageError w (blank UsageError))"
| "construct_msg ArgumentError w = Some (init_ArgumentError w (blank ArgumentError))"
| "construct_msg ConversionError w = Some (init_ConversionError w (blank ConversionError))"
| "construct_msg RangeError w = Some (init_RangeError w (blank RangeError))"
| "construct_msg UnexpectedRows w = Some (init_UnexpectedRows w (blank UnexpectedRows))"
| "construct_msg TooManyConnections w = Some (init_TooManyConnections w (blank TooManyConnections))"
| "construct_msg _ w = None"

fun construct_sql :: "exn_class \<Rightarrow> sql_args \<Rightarrow> exn option" where
  "construct_sql SqlError a = Some (init_SqlError a (blank SqlError))"
| "construct_sql FeatureNotSupported a = Some (init_FeatureNotSupported a (blank FeatureNotSupported))"
| "construct_sql DataException a = Some (init_DataException a (blank DataException))"
| "construct_sql IntegrityConstraintViolation a = Some (init_IntegrityConstraintViolation a (blank IntegrityConstraintViolation))"
| "construct_sql RestrictViolation a = Some (init_RestrictViolation a (blank RestrictViolation))"
| "construct_sql NotNullViolation a = Some (init_NotNullViolation a (blank NotNullViolation))"
| "construct_sql ForeignKeyViolation a = Some (init_ForeignKeyViolation a (blank ForeignKeyViolation))"
| "construct_sql UniqueViolation a = Some (init_UniqueViolation a (blank UniqueViolation))"
| "construct_sql CheckViolation a = Some (init_CheckViolation a (blank CheckViolation))"
| "construct_sql InvalidCursorState a = Some (init_InvalidCursorState a (blank InvalidCursorState))"
| "construct_sql InvalidSqlStatementName a = Some (init_InvalidSqlStatementName a (blank InvalidSqlStatementName))"
| "construct_sql InvalidCursorName a = Some (init_InvalidCursorName a (blank InvalidCursorName))"
| "construct_sql UndefinedColumn a = Some (init_UndefinedColumn a (blank UndefinedColumn))"
| "construct_sql UndefinedFunction a = Some (init_UndefinedFunction a (blank UndefinedFunction))"
| "construct_sql UndefinedTable a = Some (init_UndefinedTable a (blank UndefinedTable))"
| "construct_sql InsufficientPrivilege a = Some (init_InsufficientPrivilege a (blank InsufficientPrivilege))"
| "construct_sql InsufficientResources a = Some (init_InsufficientResources a (blank InsufficientResources))"
| "construct_sql DiskFull a = Some (init_DiskFull a (blank DiskFull))"
| "construct_sql OutOfMemory a = Some (init_OutOfMemory a (blank OutOfMemory))"
| "construct_sql SyntaxError a = Some (init_SyntaxError a (-1) (blank SyntaxError))"
| "construct_sql _ a = None"

definition mk_SqlError :: "string \<Rightarrow> string \<Rightarrow> string option \<Rightarrow> exn" where
  "mk_SqlError w q st = init_SqlError (ErrState w q st) (blank SqlError)"

text \<open>
  The virtual \<^verbatim>\<open>base()\<close>: \<^verbatim>\<open>DrogonDbException\<close> returns a static, unrelated object; a class that
  overrides it returns its own \<^verbatim>\<open>std::exception\<close> part; any other class runs the version of
  the base it inherits it from.
\<close>

datatype base_result = OwnObject | StaticExcept | NoBaseMember

fun overrides_base :: "exn_class \<Rightarrow> bool" where
  "overrides_base Failure = True"
| "overrides_base InternalError = True"
| "overrides_base TimeoutError = True"
| "overrides_base UsageError = True"
| "overrides_base ArgumentError = True"
| "overrides_base ConversionError = True"
| "overrides_base RangeError = True"
| "overrides_base UnexpectedRows = True"
| "overrides_base _ = False"

function base_of :: "exn_class \<Rightarrow> base_result" where
  "base_of c =
     (if c = DrogonDbException then StaticExcept
      else if overrides_base c then OwnObject
      else (case filter (\<lambda>r. r \<noteq> NoBaseMember) (map base_of (bases c)) of
              [] \<Rightarrow> NoBaseMember | r # _ \<Rightarrow> r))"
  by pat_completeness auto
termination
  by (relation "measure class_rank") (auto intro: bases_rank)

declare base_of.simps [simp del]

definition is_std_class :: "exn_class \<Rightarrow> bool" where
  "is_std_class c \<longleftrightarrow> c \<in> {StdException, StdRuntimeError, StdLogicError, StdInvalidArgument,
                          StdDomainError, StdOutOfRange}"

section \<open>Faults\<close>

text \<open>
  What an operation of the model may end in instead of a value.  \<open>Throw\<close> is a C++ exception
  derived from \<^verbatim>\<open>std::exception\<close>, \<open>ThrowForeign\<close> one that is not.  \<open>AssertFail\<close> is a
  failing \<^verbatim>\<open>assert\<close> (the build never defines \<^verbatim>\<open>NDEBUG\<close>), \<open>ProcessExit\<close> a call of \<^verbatim>\<open>exit\<close> or
  \<^verbatim>\<open>abort\<close>.  The next four are undefined behaviour of C++ that the model makes visible: a
  read outside an array, a null pointer dereference, an access to a freed or foreign object,
  and a read of a variable that was never written.  \<open>NotReturned\<close> is no fault of the code: the
  call has not returned within the fuel, or the events, that the model was given.
\<close>

datatype fault =
    Throw exn
  | ThrowForeign
  | AssertFail
  | ProcessExit
  | OutOfBounds
  | NullDeref
  | UseAfterFree
  | Uninitialised
  | NotReturned

definition is_undefined_behaviour :: "fault \<Rightarrow> bool" where
  "is_undefined_behaviour e \<longleftrightarrow> e \<in> {OutOfBounds, NullDeref, UseAfterFree, Uninitialised}"

text \<open>
  \<^verbatim>\<open>utils/ScopeExit.h\<close>: the destructor of the guard runs \<open>f\<close> when the scope is left, by a return
  or by an exception; the end of the process and a call that does not return leave no scope.
\<close>

fun unwinds :: "fault \<Rightarrow> bool" where
  "unwinds (Throw x) = True"
| "unwinds ThrowForeign = True"
| "unwinds _ = False"

definition scopeExit :: "('s \<Rightarrow> 's) \<Rightarrow> ('s, fault) act \<Rightarrow> ('s, fault) act" where
  "scopeExit f body s =
     (case body s of
        (s', None) \<Rightarrow> (f s', None)
      | (s', Some e) \<Rightarrow> (if unwinds e then f s' else s', Some e))"

lemma scopeExit_ok [simp]: "body s = (s', None) \<Longrightarrow> scopeExit f body s = (f s', None)"
  by (simp add: scopeExit_def)

lemma scopeExit_thrown [simp]:
  "body s = (s', Some e) \<Longrightarrow> scopeExit f body s = (if unwinds e then f s' else s', Some e)"
  by (simp add: scopeExit_def)

lemma snd_scopeExit [simp]: "snd (scopeExit f body s) = snd (body s)"
  by (cases "body s"; cases "snd (body s)") simp_all

lemma kept_scopeExit [kept_intros]:
  assumes "\<And>s. P s \<Longrightarrow> P (f s)" and "kept ok P body"
  shows "kept ok P (scopeExit f body)"
proof (rule keptI)
  fix s s' e
  assume h: "P s" "scopeExit f body s = (s', e)" "ok e"
  obtain t x where t: "body s = (t, x)" by fastforce
  have "x = e" using h(2) t by (cases x) (auto split: if_splits)
  then have "P t" using keptD [OF assms(2) h(1) t] h(3) by simp
  then show "P s'" using h(2) t assms(1) by (cases x) (auto split: if_splits)
qed

section \<open>Properties of the hierarchy\<close>

lemma subobjects_Std [simp]:
  "subobjects StdException = [StdException]"
  "subobjects StdRuntimeError = [StdRuntimeError, StdException]"
  "subobjects StdLogicError = [StdLogicError, StdException]"
  "subobjects StdInvalidArgument = [StdInvalidArgument, StdLogicError, StdException]"
  "subobjects StdDomainError = [StdDomainError, StdLogicError, StdException]"
  "subobjects StdOutOfRange = [StdOutOfRange, StdLogicError, StdException]"
  "subobjects DrogonDbException = [DrogonDbException]"
  by (simp_all add: subobjects.simps)

lemma subobjects_Failure [simp]:
  "subobjects Failure = [Failure, DrogonDbException, StdRuntimeError, StdException]"
  by (simp add: subobjects.simps [of Failure])

lemma subobjects_RangeError [simp]:
  "subobjects RangeError = [RangeError, DrogonDbException, StdOutOfRange, StdLogicError, StdException]"
  by (simp add: subobjects.simps [of RangeError])

lemma subobjects_SqlError [simp]: "subobjects SqlError = SqlError # subobjects Failure"
  by (simp add: subobjects.simps [of SqlError])

lemma subobjects_TransactionRollback [simp]:
  "subobjects TransactionRollback = TransactionRollback # subobjects Failure"
  by (simp add: subobjects.simps [of TransactionRollback])

lemma subobjects_BrokenConnection [simp]:
  "subobjects BrokenConnection = BrokenConnection # subobjects Failure"
  by (simp add: subobjects.simps [of BrokenConnection])

lemma subobjects_Integrity [simp]:
  "subobjects IntegrityConstraintViolation = IntegrityConstraintViolation # subobjects SqlError"
  by (simp add: subobjects.simps [of IntegrityConstraintViolation])

lemma subobjects_SyntaxError [simp]: "subobjects SyntaxError = SyntaxError # subobjects SqlError"
  by (simp add: subobjects.simps [of SyntaxError])

lemma subobjects_Resources [simp]:
  "subobjects InsufficientResources = InsufficientResources # subobjects SqlError"
  by (simp add: subobjects.simps [of InsufficientResources])

lemma base_of_Failure [simp]: "base_of Failure = OwnObject"
  by (simp add: base_of.simps)

lemma base_of_RangeError [simp]: "base_of RangeError = OwnObject"
  by (simp add: base_of.simps)

lemma base_of_level1 [simp]:
  "base_of SqlError = OwnObject"
  "base_of TransactionRollback = OwnObject"
  "base_of BrokenConnection = OwnObject"
  by (simp_all add: base_of.simps [of SqlError] base_of.simps [of TransactionRollback]
        base_of.simps [of BrokenConnection])

lemma base_of_level2 [simp]:
  "base_of IntegrityConstraintViolation = OwnObject"
  "base_of SyntaxError = OwnObject"
  "base_of InsufficientResources = OwnObject"
  by (simp_all add: base_of.simps [of IntegrityConstraintViolation] base_of.simps [of SyntaxError]
        base_of.simps [of InsufficientResources])

lemma subobjects_unique: "distinct (subobjects c)"
  by (cases c) (simp_all add: subobjects.simps)

lemma count_list_distinct: "distinct xs \<Longrightarrow> count_list xs x = (if x \<in> set xs then 1 else 0)"
  by (induction xs) auto

lemma catches_iff_derives: "catches b c \<longleftrightarrow> derives c b"
  by (simp add: catches_def derives_def subobjects_unique count_list_distinct)

lemma every_class_std: "StdException \<in> set (subobjects c) \<longleftrightarrow> c \<noteq> DrogonDbException"
  by (cases c) (simp_all add: subobjects.simps)

lemma every_class_db: "DrogonDbException \<in> set (subobjects c) \<longleftrightarrow> \<not> is_std_class c"
  by (cases c) (simp_all add: subobjects.simps is_std_class_def)

text \<open>
  C30: every database exception class of the library (any class but the abstract mixin itself
  and the classes of the standard library) is caught both by a handler for the mixin
  \<^verbatim>\<open>DrogonDbException\<close> and by a handler for \<^verbatim>\<open>std::exception\<close>, so neither base is missing or
  there twice, and its \<^verbatim>\<open>base()\<close> is the object itself, never the static placeholder.
\<close>

theorem db_exceptions_catchable:
  assumes "\<not> is_std_class c" and "c \<noteq> DrogonDbException"
  shows "catches DrogonDbException c \<and> catches StdException c \<and> base_of c = OwnObject"
proof -
  have "catches DrogonDbException c"
    using assms every_class_db [of c] by (simp add: catches_iff_derives derives_def)
  moreover have "catches StdException c"
    using assms every_class_std [of c] by (simp add: catches_iff_derives derives_def)
  moreover have "base_of c = OwnObject"
    using assms by (cases c) (simp_all add: base_of.simps is_std_class_def)
  ultimately show ?thesis by blast
qed

theorem db_exceptions_catchable_witness:
  "catches DrogonDbException UniqueViolation \<and> catches StdException UniqueViolation \<and>
   base_of UniqueViolation = OwnObject"
  by (rule db_exceptions_catchable) (simp_all add: is_std_class_def)

text \<open>
  An exception of the family of \<^verbatim>\<open>SqlError\<close>, whatever its class and the chain of
  constructors that builds it, keeps its own class and carries the message, the query and the
  SQLSTATE or the codes it was thrown with; a null SQLSTATE becomes the empty string, and what
  an overload does not take stays at its default.
\<close>

theorem sql_exception_carries_arguments:
  assumes "derives c SqlError"
  shows "\<exists>x. construct_sql c a = Some x \<and> cls x = c \<and> what x = arg_msg a \<and> query x = arg_query a \<and>
    errorPosition x = -1 \<and>
    (case a of
       ErrState _ _ st \<Rightarrow> sqlState x = (case st of None \<Rightarrow> [] | Some z \<Rightarrow> z) \<and>
         errcode x = 0 \<and> extendedErrcode x = 0
     | ErrCode _ _ ec xec \<Rightarrow> sqlState x = [] \<and> errcode x = ec \<and> extendedErrcode x = xec)"
proof -
  have "c \<notin> {StdException, StdRuntimeError, StdLogicError, StdInvalidArgument, StdDomainError,
      StdOutOfRange, DrogonDbException, Failure, RangeError, BrokenConnection, TransactionRollback}"
    using assms by (auto simp: derives_def)
  then show ?thesis using assms
    by (cases c; cases a) (simp_all add: derives_def subobjects.simps init_defs blank_def)
qed

theorem sql_exception_carries_arguments_witness:
  "\<exists>x. construct_sql UniqueViolation (ErrState ''dup'' ''INSERT'' (Some ''23505'')) = Some x \<and>
     cls x = UniqueViolation \<and> what x = ''dup'' \<and> query x = ''INSERT'' \<and> sqlState x = ''23505''"
  using sql_exception_carries_arguments [of UniqueViolation "ErrState ''dup'' ''INSERT'' (Some ''23505'')"]
  by (auto simp: derives_def subobjects.simps [of UniqueViolation])

end
