(* ===== verification/Utils.thy ===== *)
theory Utils
  imports DbException
begin

text \<open>
  The string helpers of \<^verbatim>\<open>utils/utils.cpp\<close>: decoding of hexadecimal text into bytes, and
  \<^verbatim>\<open>splitString\<close>.  A \<^verbatim>\<open>std::string\<close> and a \<^verbatim>\<open>std::vector<char>\<close> are both a list of
  characters (bytes).
\<close>

section \<open>Hexadecimal decoding\<close>

text \<open>
  The branch chain that turns one character into its value.  \<^verbatim>\<open>char\<close> is signed on the
  platform, but a negative one fails every range test, as a code above 127 does here.
\<close>

definition hexNibble :: "char \<Rightarrow> nat option" where
  "hexNibble c =
     (let n = (of_char c :: nat) in
      if 48 \<le> n \<and> n \<le> 57 then Some (n - 48)
      else if 97 \<le> n \<and> n \<le> 102 then Some (n - 97 + 10)
      else if 65 \<le> n \<and> n \<le> 70 then Some (n - 65 + 10)
      else None)"

text \<open>The loop over the pairs; \<open>None\<close> is the early \<^verbatim>\<open>return\<close> of an empty result.\<close>

fun hexPairs :: "string \<Rightarrow> string option" where
  "hexPairs (c1 # c2 # cs) =
     (case hexNibble c1 of
        None \<Rightarrow> None
      | Some a \<Rightarrow>
          (case hexNibble c2 of
             None \<Rightarrow> None
           | Some b \<Rightarrow> map_option ((#) (char_of (a * 16 + b))) (hexPairs cs)))"
| "hexPairs _ = Some []"

definition hexToBinaryString :: "string \<Rightarrow> fault + string" where
  "hexToBinaryString s =
     (if odd (length s) then Inl AssertFail
      else Inr (case hexPairs s of None \<Rightarrow> [] | Some r \<Rightarrow> r))"

definition hexToBinaryVector :: "string \<Rightarrow> fault + char list" where
  "hexToBinaryVector s =
     (if odd (length s) then Inl AssertFail
      else Inr (case hexPairs s of None \<Rightarrow> [] | Some r \<Rightarrow> r))"

text \<open>The specification side: the hexadecimal text of a list of bytes.\<close>

definition hexDigit :: "bool \<Rightarrow> nat \<Rightarrow> char" where
  "hexDigit upper n = (if n < 10 then char_of (48 + n)
                       else if upper then char_of (55 + n) else char_of (87 + n))"

definition hexByte :: "bool \<Rightarrow> char \<Rightarrow> string" where
  "hexByte upper c = [hexDigit upper (of_char c div 16), hexDigit upper (of_char c mod 16)]"

definition binaryToHex :: "bool \<Rightarrow> string \<Rightarrow> string" where
  "binaryToHex upper s = concat (map (hexByte upper) s)"

lemma hexNibble_hexDigit [simp]: "n < 16 \<Longrightarrow> hexNibble (hexDigit upper n) = Some n"
  by (auto simp: hexNibble_def hexDigit_def Let_def of_char_of)

lemma div_less_of_256: "n < (256 :: nat) \<Longrightarrow> n div 16 < 16"
  by linarith

lemma hexPairs_hexByte [simp]: "hexPairs (hexByte upper c @ cs) = map_option ((#) c) (hexPairs cs)"
proof -
  have "of_char c < (256 :: nat)" by (rule nat_of_char_less_256)
  then have "of_char c div 16 < (16 :: nat)" by (rule div_less_of_256)
  moreover have "of_char c mod 16 < (16 :: nat)" by simp
  moreover have "char_of (of_char c div 16 * 16 + of_char c mod 16 :: nat) = c"
    by (simp add: mult.commute)
  ultimately show ?thesis by (simp add: hexByte_def)
qed

lemma hexPairs_binaryToHex: "hexPairs (binaryToHex upper s) = Some s"
  by (induction s) (simp_all add: binaryToHex_def)

lemma even_length_binaryToHex: "even (length (binaryToHex upper s))"
  by (induction s) (simp_all add: binaryToHex_def hexByte_def)

text \<open>
  Hexadecimal text of any byte string, in lower or upper case, decodes to exactly those
  bytes, in \<^verbatim>\<open>hexToBinaryString\<close> and in \<^verbatim>\<open>hexToBinaryVector\<close> alike.
\<close>

theorem hex_roundtrip:
  "hexToBinaryString (binaryToHex upper s) = Inr s \<and>
   hexToBinaryVector (binaryToHex upper s) = Inr s"
  by (simp add: hexToBinaryString_def hexToBinaryVector_def hexPairs_binaryToHex
      even_length_binaryToHex)

lemma hexPairs_None_iff:
  "even (length s) \<Longrightarrow> hexPairs s = None \<longleftrightarrow> (\<exists>c \<in> set s. hexNibble c = None)"
  by (induction s rule: hexPairs.induct) (auto split: option.splits)

lemma hexPairs_length: "hexPairs s = Some r \<Longrightarrow> length r = length s div 2"
  by (induction s arbitrary: r rule: hexPairs.induct) (auto split: option.splits)

section \<open>splitString\<close>

text \<open>
  \<^verbatim>\<open>std::string::find(d, pos)\<close>: the first position from \<open>pos\<close> on where \<open>d\<close> occurs, \<open>None\<close>
  for \<^verbatim>\<open>npos\<close>.
\<close>

definition occurs_at :: "string \<Rightarrow> string \<Rightarrow> nat \<Rightarrow> bool" where
  "occurs_at d s i \<longleftrightarrow> i + length d \<le> length s \<and> take (length d) (drop i s) = d"

definition str_find :: "string \<Rightarrow> string \<Rightarrow> nat \<Rightarrow> nat option" where
  "str_find s d pos = find (occurs_at d s) [pos..<Suc (length s)]"

lemma str_find_SomeD:
  assumes "str_find s d pos = Some i"
  shows "pos \<le> i" and "occurs_at d s i" and "\<And>j. pos \<le> j \<Longrightarrow> j < i \<Longrightarrow> \<not> occurs_at d s j"
proof -
  obtain k where k: "k < length [pos..<Suc (length s)]" "occurs_at d s ([pos..<Suc (length s)] ! k)"
    "i = [pos..<Suc (length s)] ! k" "\<forall>j<k. \<not> occurs_at d s ([pos..<Suc (length s)] ! j)"
    using assms unfolding str_find_def find_Some_iff by blast
  have i: "i = pos + k" using k(1,3) by (simp del: upt_Suc)
  then show "pos \<le> i" by simp
  show "occurs_at d s i" using k(2,3) by simp
  fix j assume "pos \<le> j" "j < i"
  then have "j - pos < k" using i by simp
  then have "\<not> occurs_at d s ([pos..<Suc (length s)] ! (j - pos))" using k(4) by blast
  moreover have "[pos..<Suc (length s)] ! (j - pos) = j"
    using \<open>pos \<le> j\<close> \<open>j < i\<close> i k(1) by (simp del: upt_Suc)
  ultimately show "\<not> occurs_at d s j" by simp
qed

lemma str_find_NoneD: "str_find s d pos = None \<Longrightarrow> pos \<le> j \<Longrightarrow> \<not> occurs_at d s j"
  by (auto simp: str_find_def find_None_iff occurs_at_def)

lemma occurs_at_bound: "occurs_at d s i \<Longrightarrow> i + length d \<le> length s"
  by (simp add: occurs_at_def)

lemma occurs_at_split: "occurs_at d s i \<Longrightarrow> drop i s = d @ drop (i + length d) s"
  unfolding occurs_at_def by (metis append_take_drop_id drop_drop add.commute)

text \<open>
  The loop of \<^verbatim>\<open>splitString\<close>.  The code returns before the loop when the delimiter is empty;
  the test is repeated here because without it the loop would not advance.
\<close>

function splitLoop :: "string \<Rightarrow> string \<Rightarrow> bool \<Rightarrow> nat \<Rightarrow> string list \<Rightarrow> string list" where
  "splitLoop s d ae lst v =
     (if d = [] then v
      else
        case str_find s d lst of
          Some nxt \<Rightarrow>
            splitLoop s d ae (nxt + length d)
              (if nxt > lst \<or> ae then v @ [take (nxt - lst) (drop lst s)] else v)
        | None \<Rightarrow> if length s > lst \<or> ae then v @ [drop lst s] else v)"
  by pat_completeness auto

lemma splitLoop_decreases:
  assumes "d \<noteq> []" and "str_find s d lst = Some nxt"
  shows "length s - (nxt + length d) < length s - lst"
proof -
  have "lst \<le> nxt" "nxt + length d \<le> length s"
    using str_find_SomeD [OF assms(2)] occurs_at_bound by blast+
  moreover have "0 < length d" using assms(1) by simp
  ultimately show ?thesis by linarith
qed

termination splitLoop
  by (relation "measure (\<lambda>(s, d, ae, lst, v). length s - lst)") (auto intro: splitLoop_decreases)

declare splitLoop.simps [simp del]

definition splitString :: "string \<Rightarrow> string \<Rightarrow> bool \<Rightarrow> string list" where
  "splitString s d ae = (if d = [] then [] else splitLoop s d ae 0 [])"

text \<open>The inverse on the specification side: the pieces with the delimiter between them.\<close>

fun join :: "string \<Rightarrow> string list \<Rightarrow> string" where
  "join d [] = []"
| "join d [x] = x"
| "join d (x # xs) = x @ d @ join d xs"

lemma join_Cons: "xs \<noteq> [] \<Longrightarrow> join d (x # xs) = x @ d @ join d xs"
  by (cases xs) auto

text \<open>
  The pieces from a position on, without the accumulator and without the test for empty
  pieces: what the loop collects when it accepts empty strings.
\<close>

function pieces :: "string \<Rightarrow> string \<Rightarrow> nat \<Rightarrow> string list" where
  "pieces s d lst =
     (if d = [] then []
      else case str_find s d lst of
          Some nxt \<Rightarrow> take (nxt - lst) (drop lst s) # pieces s d (nxt + length d)
        | None \<Rightarrow> [drop lst s])"
  by pat_completeness auto

termination pieces
  by (relation "measure (\<lambda>(s, d, lst). length s - lst)") (auto intro: splitLoop_decreases)

declare pieces.simps [simp del]

definition kept_pieces :: "bool \<Rightarrow> string list \<Rightarrow> string list" where
  "kept_pieces ae ps = (if ae then ps else filter (\<lambda>p. p \<noteq> []) ps)"

lemma kept_pieces_simps [simp]:
  "kept_pieces ae [] = []"
  "kept_pieces ae (p # ps) = (if p \<noteq> [] \<or> ae then p # kept_pieces ae ps else kept_pieces ae ps)"
  by (simp_all add: kept_pieces_def)

lemma splitLoop_pieces:
  "lst \<le> length s \<Longrightarrow> d \<noteq> [] \<Longrightarrow> splitLoop s d ae lst v = v @ kept_pieces ae (pieces s d lst)"
proof (induction s d ae lst v rule: splitLoop.induct)
  case (1 s d ae lst v)
  show ?case
  proof (cases "str_find s d lst")
    case None
    with "1.prems" show ?thesis
      by (auto simp: splitLoop.simps [of s d ae lst v] pieces.simps [of s d lst])
  next
    case (Some nxt)
    let ?p = "take (nxt - lst) (drop lst s)"
    have b: "lst \<le> nxt" "nxt + length d \<le> length s"
      using str_find_SomeD [OF Some] occurs_at_bound by blast+
    then have "?p \<noteq> [] \<longleftrightarrow> nxt > lst"
      using "1.prems" by auto
    moreover have "splitLoop s d ae (nxt + length d) (if nxt > lst \<or> ae then v @ [?p] else v)
      = (if nxt > lst \<or> ae then v @ [?p] else v) @ kept_pieces ae (pieces s d (nxt + length d))"
      using "1.IH" [OF "1.prems"(2) Some b(2) "1.prems"(2)] .
    ultimately show ?thesis
      using Some "1.prems" by (simp add: splitLoop.simps [of s d ae lst v] pieces.simps [of s d lst])
  qed
qed

lemma splitString_pieces: "d \<noteq> [] \<Longrightarrow> splitString s d ae = kept_pieces ae (pieces s d 0)"
  by (simp add: splitString_def splitLoop_pieces)

lemma pieces_nonempty: "d \<noteq> [] \<Longrightarrow> pieces s d lst \<noteq> []"
  by (simp add: pieces.simps [of s d lst] split: option.split)

lemma join_pieces: "lst \<le> length s \<Longrightarrow> d \<noteq> [] \<Longrightarrow> join d (pieces s d lst) = drop lst s"
proof (induction s d lst rule: pieces.induct)
  case (1 s d lst)
  show ?case
  proof (cases "str_find s d lst")
    case None
    with "1.prems" show ?thesis by (simp add: pieces.simps [of s d lst])
  next
    case (Some nxt)
    have o: "lst \<le> nxt" "occurs_at d s nxt" "nxt + length d \<le> length s"
      using str_find_SomeD [OF Some] occurs_at_bound by blast+
    have IH: "join d (pieces s d (nxt + length d)) = drop (nxt + length d) s"
      using "1.IH" [OF "1.prems"(2) Some o(3) "1.prems"(2)] .
    have "join d (pieces s d lst) = take (nxt - lst) (drop lst s) @ d @ drop (nxt + length d) s"
      using Some "1.prems" IH
      by (simp add: pieces.simps [of s d lst] join_Cons pieces_nonempty)
    also have "\<dots> = take (nxt - lst) (drop lst s) @ drop nxt s"
      using occurs_at_split [OF o(2)] by simp
    also have "\<dots> = drop lst s" by (rule take_drop_split [OF o(1)])
    finally show ?thesis .
  qed
qed

text \<open>
  Splitting with empty pieces accepted and joining the pieces with the delimiter gives
  back the string, whatever the string and the (non-empty) delimiter.
\<close>

theorem split_join_roundtrip:
  assumes "d \<noteq> []"
  shows "join d (splitString s d True) = s"
  using assms join_pieces [of 0 s d] by (simp add: splitString_pieces kept_pieces_def)

theorem split_join_roundtrip_witness:
  "join ''--'' (splitString ''2024--01----'' ''--'' True) = ''2024--01----''"
  by (rule split_join_roundtrip) simp

text \<open>
  The default mode of \<^verbatim>\<open>splitString\<close> returns the same pieces, in the same order, with
  the empty ones left out.
\<close>

theorem split_default_filters_empty:
  "splitString s d False = filter (\<lambda>p. p \<noteq> []) (splitString s d True)"
  by (cases "d = []") (simp_all add: splitString_pieces kept_pieces_def, simp add: splitString_def)

text \<open>A piece never holds the delimiter, so a split cannot be refined further.\<close>

lemma occurs_at_take_drop:
  assumes "occurs_at d (take m (drop l s)) i" and "l \<le> length s"
  shows "occurs_at d s (l + i)"
proof -
  have len: "i + length d \<le> length (take m (drop l s))"
    and eq: "take (length d) (drop i (take m (drop l s))) = d"
    using assms(1) by (auto simp: occurs_at_def)
  have "take (length d) (drop i (take m (drop l s))) = take (length d) (drop (l + i) s)"
    using len by (simp add: drop_take min_absorb1 add.commute le_diff_conv2)
  with eq len assms(2) show ?thesis by (auto simp: occurs_at_def)
qed

lemma pieces_no_delimiter:
  "lst \<le> length s \<Longrightarrow> d \<noteq> [] \<Longrightarrow> p \<in> set (pieces s d lst) \<Longrightarrow> \<not> occurs_at d p i"
proof (induction s d lst rule: pieces.induct)
  case (1 s d lst)
  show ?case
  proof (cases "str_find s d lst")
    case None
    then have p: "p = drop lst s" using "1.prems" by (simp add: pieces.simps [of s d lst])
    show ?thesis
    proof
      assume "occurs_at d p i"
      then have "occurs_at d s (lst + i)"
        using occurs_at_take_drop [of d "length s" lst s i] p "1.prems"(1) by simp
      then show False using str_find_NoneD [OF None, of "lst + i"] by simp
    qed
  next
    case (Some nxt)
    note f = str_find_SomeD [OF Some]
    have b: "nxt + length d \<le> length s" using f(2) by (rule occurs_at_bound)
    show ?thesis
    proof (cases "p \<in> set (pieces s d (nxt + length d))")
      case True
      then show ?thesis using "1.IH" [OF "1.prems"(2) Some b "1.prems"(2)] by simp
    next
      case False
      then have p: "p = take (nxt - lst) (drop lst s)"
        using "1.prems" Some by (simp add: pieces.simps [of s d lst])
      show ?thesis
      proof
        assume a: "occurs_at d p i"
        then have "occurs_at d s (lst + i)"
          using occurs_at_take_drop [of d "nxt - lst" lst s i] p "1.prems"(1) by simp
        moreover have "i + length d \<le> nxt - lst"
          using occurs_at_bound [OF a] p by simp
        then have "lst + i < nxt" using "1.prems"(2) by (cases d) auto
        ultimately show False using f(3) [of "lst + i"] by simp
      qed
    qed
  qed
qed

lemma split_pieces_no_delimiter:
  "d \<noteq> [] \<Longrightarrow> p \<in> set (splitString s d ae) \<Longrightarrow> \<not> occurs_at d p i"
  using pieces_no_delimiter [of 0 s d p i]
  by (auto simp: splitString_pieces kept_pieces_def split: if_splits)

text \<open>
  Splitting undoes joining for a one-character delimiter: the direction a caller that parses
  text it knows the layout of needs.
\<close>

lemma occurs_at_single: "occurs_at [c] s i \<longleftrightarrow> i < length s \<and> s ! i = c"
  by (auto simp: occurs_at_def take_Suc_conv_app_nth hd_drop_conv_nth take_Suc drop_eq_Nil2)

lemma str_find_single_Some:
  assumes "c \<notin> set x" and "l = length pre"
  shows "str_find (pre @ x @ c # ys) [c] l = Some (l + length x)"
proof -
  let ?s = "pre @ x @ c # ys"
  have "occurs_at [c] ?s (l + length x)" using assms(2) by (simp add: occurs_at_single nth_append)
  moreover have "\<not> occurs_at [c] ?s j" if "l \<le> j" "j < l + length x" for j
    using that assms by (auto simp: occurs_at_single nth_append)
  ultimately show ?thesis
    using str_find_SomeD [of ?s "[c]" l] str_find_NoneD [of ?s "[c]" l "l + length x"]
    by (cases "str_find ?s [c] l") (simp, metis le_add1 linorder_neqE_nat)
qed

lemma str_find_single_None:
  assumes "c \<notin> set x"
  shows "str_find (pre @ x) [c] (length pre) = None"
proof (cases "str_find (pre @ x) [c] (length pre)")
  case (Some i)
  note f = str_find_SomeD [OF Some]
  from f(1,2) have "i - length pre < length x" "x ! (i - length pre) = c"
    by (auto simp: occurs_at_single nth_append)
  with assms show ?thesis using nth_mem by blast
qed

lemma pieces_join_gen:
  "xs \<noteq> [] \<Longrightarrow> \<forall>x \<in> set xs. c \<notin> set x \<Longrightarrow> pieces (pre @ join [c] xs) [c] (length pre) = xs"
proof (induction xs arbitrary: pre)
  case Nil
  then show ?case by simp
next
  case (Cons x xs)
  show ?case
  proof (cases "xs = []")
    case True
    with Cons.prems show ?thesis by (simp add: pieces.simps str_find_single_None)
  next
    case False
    have f: "str_find (pre @ join [c] (x # xs)) [c] (length pre) = Some (length pre + length x)"
      using Cons.prems False by (simp add: join_Cons str_find_single_Some)
    have "pieces ((pre @ x @ [c]) @ join [c] xs) [c] (length (pre @ x @ [c])) = xs"
      using Cons.IH [OF False, of "pre @ x @ [c]"] Cons.prems by simp
    then show ?thesis
      using f False by (simp add: pieces.simps [of "pre @ x @ c # join [c] xs"] join_Cons)
  qed
qed

lemma split_join_default:
  "xs \<noteq> [] \<Longrightarrow> \<forall>x \<in> set xs. c \<notin> set x \<Longrightarrow>
     splitString (join [c] xs) [c] False = filter (\<lambda>p. p \<noteq> []) xs"
  using pieces_join_gen [of xs c "[]"] by (simp add: splitString_pieces kept_pieces_def)

text \<open>
  Joining pieces with a one-character delimiter that none of them contains and splitting
  the text again returns the pieces.
\<close>

theorem join_split_roundtrip:
  assumes "xs \<noteq> []" and "\<forall>x \<in> set xs. c \<notin> set x"
  shows "splitString (join [c] xs) [c] True = xs"
  using pieces_join_gen [OF assms, of "[]"] by (simp add: splitString_pieces kept_pieces_def)

theorem join_split_roundtrip_witness:
  "splitString (join [CHR ''-''] [''1970'', [], ''03'']) [CHR ''-''] True = [''1970'', [], ''03'']"
  by (rule join_split_roundtrip) simp_all

end
