(* ===== verification/ArrayParser.thy ===== *)
theory ArrayParser
  imports DbException
begin

text \<open>
  The SQL array tokenizer of \<^verbatim>\<open>db/ArrayParser.cpp\<close> and its client loop
  \<^verbatim>\<open>Field::asArray\<close> (\<^verbatim>\<open>db/Field.h\<close>).  A \<^verbatim>\<open>const char *\<close> into a C string is the list of the
  characters from it up to, and without, the terminating NUL; so reading it at \<open>[]\<close> gives
  NUL, and stepping past \<open>[]\<close> leaves the array.  A pair \<^verbatim>\<open>begin, end\<close> is the list of the
  characters between them.
\<close>

section \<open>Scanning and parsing of quoted strings\<close>

definition err_ends_in_escape :: "string \<Rightarrow> fault" where
  "err_ends_in_escape begin' =
     Throw (mk_exn ArgumentError (''SQL string ends in escape: '' @ begin'))"

definition err_null_byte :: "string \<Rightarrow> fault" where
  "err_null_byte begin' = Throw (mk_exn ArgumentError (''Null byte in SQL string: '' @ begin'))"

text \<open>
  The scanning loops return how many characters lie between \<^verbatim>\<open>begin\<close> and the address the
  code returns; the list argument is what is left from \<^verbatim>\<open>here\<close> on, \<open>n\<close> the distance of
  \<^verbatim>\<open>here\<close> from \<^verbatim>\<open>begin\<close>.
\<close>

fun scan_single_loop :: "string \<Rightarrow> string \<Rightarrow> nat \<Rightarrow> fault + nat" where
  "scan_single_loop begin' [] n = Inl (err_null_byte begin')"
| "scan_single_loop begin' (c # cs) n =
     (if c = CHR 0x27 then
        (case cs of
           [] \<Rightarrow> Inr (n + 1)
         | d # cs' \<Rightarrow> if d \<noteq> CHR 0x27 then Inr (n + 1) else scan_single_loop begin' cs' (n + 2))
      else if c = CHR 0x5C then
        (case cs of
           [] \<Rightarrow> Inl (err_ends_in_escape begin')
         | _ # cs' \<Rightarrow> scan_single_loop begin' cs' (n + 2))
      else scan_single_loop begin' cs (n + 1))"

definition scan_single_quoted_string :: "string \<Rightarrow> fault + nat" where
  "scan_single_quoted_string s =
     (case s of
        [] \<Rightarrow> Inl AssertFail
      | c # cs \<Rightarrow> if c = CHR 0x27 then scan_single_loop s cs 1 else Inl AssertFail)"

fun parse_single_loop :: "string \<Rightarrow> string" where
  "parse_single_loop [] = []"
| "parse_single_loop (c # cs) =
     (if c = CHR 0x27 \<or> c = CHR 0x5C then c # parse_single_loop (tl cs)
      else c # parse_single_loop cs)"

definition parse_single_quoted_string :: "string \<Rightarrow> fault + string" where
  "parse_single_quoted_string lexeme =
     (if 1 < length lexeme \<and> hd lexeme = CHR 0x27 \<and> last lexeme = CHR 0x27
      then Inr (parse_single_loop (butlast (tl lexeme))) else Inl AssertFail)"

fun scan_double_loop :: "string \<Rightarrow> string \<Rightarrow> nat \<Rightarrow> fault + nat" where
  "scan_double_loop begin' [] n = Inl (err_null_byte begin')"
| "scan_double_loop begin' (c # cs) n =
     (if c = CHR 0x5C then
        (case cs of
           [] \<Rightarrow> Inl (err_ends_in_escape begin')
         | _ # cs' \<Rightarrow> scan_double_loop begin' cs' (n + 2))
      else if c = CHR 0x22 then Inr (n + 1)
      else scan_double_loop begin' cs (n + 1))"

definition scan_double_quoted_string :: "string \<Rightarrow> fault + nat" where
  "scan_double_quoted_string s =
     (case s of
        [] \<Rightarrow> Inl AssertFail
      | c # cs \<Rightarrow> if c = CHR 0x22 then scan_double_loop s cs 1 else Inl AssertFail)"

fun parse_double_loop :: "string \<Rightarrow> string" where
  "parse_double_loop [] = []"
| "parse_double_loop (c # cs) =
     (if c = CHR 0x5C then c # parse_double_loop (tl cs) else c # parse_double_loop cs)"

definition parse_double_quoted_string :: "string \<Rightarrow> fault + string" where
  "parse_double_quoted_string lexeme =
     (if 1 < length lexeme \<and> hd lexeme = CHR 0x22 \<and> last lexeme = CHR 0x22
      then Inr (parse_double_loop (butlast (tl lexeme))) else Inl AssertFail)"

text \<open>
  The scan of an unquoted string tests for a separator or a closing brace only, never for NUL:
  at the end of the C string it steps over the terminator and reads on.
\<close>

fun scan_unquoted_loop :: "string \<Rightarrow> nat \<Rightarrow> fault + nat" where
  "scan_unquoted_loop [] n = Inl OutOfBounds"
| "scan_unquoted_loop (c # cs) n =
     (if c \<noteq> CHR '','' \<and> c \<noteq> CHR '';'' \<and> c \<noteq> CHR ''}'' then scan_unquoted_loop cs (n + 1)
      else Inr n)"

definition scan_unquoted_string :: "string \<Rightarrow> fault + nat" where
  "scan_unquoted_string s =
     (if s \<noteq> [] \<and> (hd s = CHR 0x27 \<or> hd s = CHR 0x22) then Inl AssertFail
      else scan_unquoted_loop s 0)"

definition parse_unquoted_string :: "string \<Rightarrow> string" where
  "parse_unquoted_string lexeme = lexeme"

section \<open>The parser object\<close>

datatype juncture = row_start | row_end | null_value | string_value | juncture_done

text \<open>The state of the parser is \<^verbatim>\<open>pos_\<close>; \<open>None\<close> is the null pointer.\<close>

record array_parser =
  pos :: "string option"

definition mk_ArrayParser :: "string option \<Rightarrow> array_parser" where
  "mk_ArrayParser input = \<lparr>pos = input\<rparr>"

text \<open>The skip of a field separator after the token, \<^verbatim>\<open>if (*end == ',' || *end == ';') end++\<close>.\<close>

definition skip_separator :: "string \<Rightarrow> string" where
  "skip_separator e =
     (case e of [] \<Rightarrow> [] | c # cs \<Rightarrow> if c = CHR '','' \<or> c = CHR '';'' then cs else e)"

definition getNext_at :: "string \<Rightarrow> fault + (juncture \<times> string) \<times> string" where
  "getNext_at p =
     (case p of
        [] \<Rightarrow> Inr ((juncture_done, []), p)
      | c # cs \<Rightarrow>
          if c = CHR ''{'' then Inr ((row_start, []), cs)
          else if c = CHR ''}'' then Inr ((row_end, []), cs)
          else if c = CHR 0x27 then
            obind (scan_single_quoted_string p) (\<lambda>n.
            obind (parse_single_quoted_string (take n p)) (\<lambda>v.
              Inr ((string_value, v), drop n p)))
          else if c = CHR 0x22 then
            obind (scan_double_quoted_string p) (\<lambda>n.
            obind (parse_double_quoted_string (take n p)) (\<lambda>v.
              Inr ((string_value, v), drop n p)))
          else
            obind (scan_unquoted_string p) (\<lambda>n.
              let v = parse_unquoted_string (take n p) in
              if v = ''NULL'' then Inr ((null_value, []), drop n p)
              else Inr ((string_value, v), drop n p)))"

definition getNext :: "array_parser \<Rightarrow> fault + (juncture \<times> string) \<times> array_parser" where
  "getNext a =
     (case pos a of
        None \<Rightarrow> Inr ((juncture_done, []), a\<lparr>pos := None\<rparr>)
      | Some p \<Rightarrow>
          obind (getNext_at p) (\<lambda>(r, e). Inr (r, a\<lparr>pos := Some (skip_separator e)\<rparr>)))"

section \<open>Every step consumes input\<close>

lemma scan_single_loop_bounds:
  "scan_single_loop b cs n = Inr m \<Longrightarrow> n < m \<and> m \<le> n + length cs"
  by (induction b cs n arbitrary: m rule: scan_single_loop.induct)
    (fastforce split: if_splits list.splits)+

lemma scan_double_loop_bounds:
  "scan_double_loop b cs n = Inr m \<Longrightarrow> n < m \<and> m \<le> n + length cs"
  by (induction b cs n arbitrary: m rule: scan_double_loop.induct)
    (fastforce split: if_splits list.splits)+

lemma scan_single_loop_last:
  "scan_single_loop b cs n = Inr m \<Longrightarrow> cs ! (m - n - 1) = CHR 0x27"
proof (induction b cs n arbitrary: m rule: scan_single_loop.induct)
  case (2 b c cs n)
  show ?case
  proof (cases "\<exists>d ds. cs = d # ds \<and> scan_single_loop b ds (n + 2) = Inr m \<and>
                    (c = CHR 0x27 \<and> d = CHR 0x27 \<or> c = CHR 0x5C)")
    case True
    then obtain d ds where ds: "cs = d # ds" "scan_single_loop b ds (n + 2) = Inr m"
      and q: "c = CHR 0x27 \<and> d = CHR 0x27 \<or> c = CHR 0x5C" by blast
    have "ds ! (m - (n + 2) - 1) = CHR 0x27"
      using q "2.IH"(1,2) ds by auto
    moreover have "n + 2 < m" using scan_single_loop_bounds [OF ds(2)] by simp
    ultimately show ?thesis using ds(1) by (simp add: nth_Cons')
  next
    case False
    then consider "c = CHR 0x27" "m = n + 1"
      | "c \<noteq> CHR 0x27" "c \<noteq> CHR 0x5C" "scan_single_loop b cs (n + 1) = Inr m"
      using "2.prems" by (auto split: if_splits list.splits)
    then show ?thesis
    proof cases
      case 2
      then have "cs ! (m - (n + 1) - 1) = CHR 0x27" using "2.IH"(3) by simp
      moreover have "n + 1 < m" using scan_single_loop_bounds [OF 2(3)] by simp
      ultimately show ?thesis by (simp add: nth_Cons')
    qed simp
  qed
qed simp

lemma scan_double_loop_last:
  "scan_double_loop b cs n = Inr m \<Longrightarrow> cs ! (m - n - 1) = CHR 0x22"
proof (induction b cs n arbitrary: m rule: scan_double_loop.induct)
  case (2 b c cs n)
  consider (esc) d ds where "c = CHR 0x5C" "cs = d # ds" "scan_double_loop b ds (n + 2) = Inr m"
    | (quote) "c = CHR 0x22" "m = n + 1"
    | (other) "c \<noteq> CHR 0x5C" "c \<noteq> CHR 0x22" "scan_double_loop b cs (n + 1) = Inr m"
    using "2.prems" by (auto split: if_splits list.splits)
  then show ?case
  proof cases
    case esc
    then have "ds ! (m - (n + 2) - 1) = CHR 0x22" using "2.IH"(1) by simp
    moreover have "n + 2 < m" using scan_double_loop_bounds [OF esc(3)] by simp
    ultimately show ?thesis using esc(2) by (simp add: nth_Cons')
  next
    case other
    then have "cs ! (m - (n + 1) - 1) = CHR 0x22" using "2.IH"(2) by simp
    moreover have "n + 1 < m" using scan_double_loop_bounds [OF other(3)] by simp
    ultimately show ?thesis by (simp add: nth_Cons')
  qed simp
qed simp

lemma lexeme_shape:
  assumes "n < length (c # cs) + 1" and "1 < n" and "cs ! (n - 2) = q"
  shows "1 < length (take n (c # cs)) \<and> hd (take n (c # cs)) = c \<and> last (take n (c # cs)) = q"
proof -
  have "length (take n (c # cs)) = n" using assms(1) by simp
  moreover have "take n (c # cs) = c # take (n - 1) cs" using assms(2) by (cases n) auto
  moreover have "last (take (n - 1) cs) = cs ! (n - 2)"
  proof -
    have "length (take (n - 1) cs) = n - 1" "take (n - 1) cs \<noteq> []" using assms(1,2) by auto
    then show ?thesis using assms(2) by (simp add: last_conv_nth numeral_2_eq_2)
  qed
  ultimately show ?thesis using assms by auto
qed

text \<open>What the scan of a quoted string returns is a lexeme the parse of it accepts.\<close>

lemma single_quoted_ok:
  assumes "scan_single_quoted_string p = Inr n"
  shows "1 < n" and "n \<le> length p"
    and "parse_single_quoted_string (take n p) = Inr (parse_single_loop (butlast (tl (take n p))))"
proof -
  obtain cs where p: "p = CHR 0x27 # cs" and l: "scan_single_loop p cs 1 = Inr n"
    using assms by (auto simp: scan_single_quoted_string_def split: list.splits if_splits)
  note b = scan_single_loop_bounds [OF l] scan_single_loop_last [OF l]
  show "1 < n" and "n \<le> length p" using b(1) p by auto
  moreover have "cs ! (n - 2) = CHR 0x27" using b(2) by (simp add: numeral_2_eq_2)
  ultimately show "parse_single_quoted_string (take n p)
      = Inr (parse_single_loop (butlast (tl (take n p))))"
    using lexeme_shape [of n "CHR 0x27" cs "CHR 0x27"] p
    by (simp add: parse_single_quoted_string_def)
qed

lemma double_quoted_ok:
  assumes "scan_double_quoted_string p = Inr n"
  shows "1 < n" and "n \<le> length p"
    and "parse_double_quoted_string (take n p) = Inr (parse_double_loop (butlast (tl (take n p))))"
proof -
  obtain cs where p: "p = CHR 0x22 # cs" and l: "scan_double_loop p cs 1 = Inr n"
    using assms by (auto simp: scan_double_quoted_string_def split: list.splits if_splits)
  note b = scan_double_loop_bounds [OF l] scan_double_loop_last [OF l]
  show "1 < n" and "n \<le> length p" using b(1) p by auto
  moreover have "cs ! (n - 2) = CHR 0x22" using b(2) by (simp add: numeral_2_eq_2)
  ultimately show "parse_double_quoted_string (take n p)
      = Inr (parse_double_loop (butlast (tl (take n p))))"
    using lexeme_shape [of n "CHR 0x22" cs "CHR 0x22"] p
    by (simp add: parse_double_quoted_string_def)
qed

lemma skip_separator_Nil [simp]: "skip_separator [] = []"
  by (simp add: skip_separator_def)

lemma skip_separator_length: "length (skip_separator e) \<le> length e"
  by (simp add: skip_separator_def split: list.split)

lemma scan_unquoted_zero:
  assumes "scan_unquoted_loop (c # cs) n = Inr n"
  shows "c = CHR '','' \<or> c = CHR '';'' \<or> c = CHR ''}''"
proof (rule ccontr)
  assume "\<not> ?thesis"
  then have "scan_unquoted_loop cs (n + 1) = Inr n" using assms by simp
  moreover have "k \<le> m" if "scan_unquoted_loop xs k = Inr m" for xs k m
    using that by (induction xs k rule: scan_unquoted_loop.induct) (auto split: if_splits)
  ultimately show False by fastforce
qed

lemma getNext_at_cases [consumes 2, case_names open_row close_row quoted unquoted]:
  assumes "getNext_at p = Inr (r, e)" and "p = c # cs"
  obtains "c = CHR ''{''" "e = cs" "r = (row_start, [])"
  | "c = CHR ''}''" "e = cs" "r = (row_end, [])"
  | n where "c = CHR 0x27 \<or> c = CHR 0x22" "e = drop n p" "1 < n" "n \<le> length p"
      "fst r = string_value"
  | n where "c \<noteq> CHR ''{''" "c \<noteq> CHR ''}''" "c \<noteq> CHR 0x27" "c \<noteq> CHR 0x22"
      "scan_unquoted_string p = Inr n" "e = drop n p"
      "r = (if take n p = ''NULL'' then (null_value, []) else (string_value, take n p))"
  using assms single_quoted_ok [of p] double_quoted_ok [of p]
  by (auto simp: getNext_at_def outcome_simps Let_def parse_unquoted_string_def split: if_splits)

lemma getNext_at_decreases:
  assumes "getNext_at p = Inr (r, e)" and "p \<noteq> []"
  shows "length (skip_separator e) < length p"
proof -
  obtain c cs where p: "p = c # cs" using assms(2) by (cases p) auto
  have shorter: "length (skip_separator e) < length p" if "length e < length p"
    using that skip_separator_length [of e] by linarith
  from assms(1) p show ?thesis
  proof (cases rule: getNext_at_cases)
    case (unquoted n)
    show ?thesis
    proof (cases "n = 0")
      case True
      then have "c = CHR '','' \<or> c = CHR '';''"
        using unquoted p scan_unquoted_zero [of c cs 0] by (auto simp: scan_unquoted_string_def)
      then show ?thesis using True unquoted p by (auto simp: skip_separator_def)
    next
      case False
      then show ?thesis using unquoted p shorter by simp
    qed
  qed (use p shorter in auto)
qed

section \<open>The client loop: all tokens, and the array of values\<close>

text \<open>The sequence of results \<^verbatim>\<open>getNext\<close> gives from a position on, up to \<^verbatim>\<open>done\<close>.\<close>

function tokens :: "string \<Rightarrow> fault + (juncture \<times> string) list" where
  "tokens p =
     (if p = [] then Inr []
      else case getNext_at p of
          Inl err \<Rightarrow> Inl err
        | Inr (r, e) \<Rightarrow> obind (tokens (skip_separator e)) (\<lambda>ts. Inr (r # ts)))"
  by pat_completeness auto

termination tokens
  by (relation "measure length") (auto intro: getNext_at_decreases)

declare tokens.simps [simp del]

text \<open>
  \<^verbatim>\<open>Field::asArray<T>\<close>: the loop runs \<^verbatim>\<open>getNext\<close> until \<^verbatim>\<open>done\<close>; \<open>conv\<close> stands for
  \<^verbatim>\<open>std::stringstream ss(text); ss >> val\<close> at the element type.
\<close>

function asArray_loop ::
  "(string \<Rightarrow> 'v) \<Rightarrow> string \<Rightarrow> 'v option list \<Rightarrow> fault + 'v option list" where
  "asArray_loop conv p ret =
     (if p = [] then Inr ret
      else case getNext_at p of
          Inl err \<Rightarrow> Inl err
        | Inr ((j, v), e) \<Rightarrow>
            asArray_loop conv (skip_separator e)
              (if j = string_value then ret @ [Some (conv v)]
               else if j = null_value then ret @ [None] else ret))"
  by pat_completeness auto

termination asArray_loop
  by (relation "measure (\<lambda>(conv, p, ret). length p)") (auto intro: getNext_at_decreases)

declare asArray_loop.simps [simp del]

definition asArray :: "(string \<Rightarrow> 'v) \<Rightarrow> array_parser \<Rightarrow> fault + 'v option list" where
  "asArray conv a = (case pos a of None \<Rightarrow> Inr [] | Some p \<Rightarrow> asArray_loop conv p [])"

fun token_value :: "(string \<Rightarrow> 'v) \<Rightarrow> juncture \<times> string \<Rightarrow> 'v option list" where
  "token_value conv (string_value, v) = [Some (conv v)]"
| "token_value conv (null_value, v) = [None]"
| "token_value conv (_, v) = []"

lemma asArray_loop_tokens:
  "asArray_loop conv p ret =
     obind (tokens p) (\<lambda>ts. Inr (ret @ concat (map (token_value conv) ts)))"
proof (induction conv p ret rule: asArray_loop.induct)
  case (1 conv p ret)
  show ?case
  proof (cases "p = [] \<or> (\<exists>err. getNext_at p = Inl err)")
    case True
    then show ?thesis by (auto simp: asArray_loop.simps [of conv p ret] tokens.simps [of p])
  next
    case False
    then obtain j v e where g: "getNext_at p = Inr ((j, v), e)"
      by (cases "getNext_at p") auto
    have IH: "asArray_loop conv (skip_separator e) (ret @ token_value conv (j, v)) =
      obind (tokens (skip_separator e))
        (\<lambda>ts. Inr ((ret @ token_value conv (j, v)) @ concat (map (token_value conv) ts)))"
      using "1.IH" [of "((j, v), e)" "(j, v)" e j v] False g by (cases j) auto
    have "(if j = string_value then ret @ [Some (conv v)]
           else if j = null_value then ret @ [None] else ret) = ret @ token_value conv (j, v)"
      by (cases j) auto
    then show ?thesis
      using IH False g
      by (simp add: asArray_loop.simps [of conv p ret] tokens.simps [of p] obind_assoc)
  qed
qed

section \<open>Arrays as text: the round trip\<close>

datatype sql_array = SNull | SString string | SRow "sql_array list"

text \<open>
  The text of an array with its strings in single quotes, a quote doubled and a backslash
  escaped, as the tokenizer's comments describe the format.
\<close>

definition escape_single :: "char \<Rightarrow> string" where
  "escape_single c = (if c = CHR 0x27 \<or> c = CHR 0x5C then [c, c] else [c])"

definition quote_single :: "string \<Rightarrow> string" where
  "quote_single s = CHR 0x27 # concat (map escape_single s) @ [CHR 0x27]"

definition escape_double :: "char \<Rightarrow> string" where
  "escape_double c = (if c = CHR 0x22 \<or> c = CHR 0x5C then [CHR 0x5C, c] else [c])"

definition quote_double :: "string \<Rightarrow> string" where
  "quote_double s = CHR 0x22 # concat (map escape_double s) @ [CHR 0x22]"

fun render :: "sql_array \<Rightarrow> string" and render_seq :: "sql_array list \<Rightarrow> string" where
  "render SNull = ''NULL''"
| "render (SString s) = quote_single s"
| "render (SRow xs) = CHR ''{'' # render_seq xs @ ''}''"
| "render_seq [] = []"
| "render_seq [x] = render x"
| "render_seq (x # xs) = render x @ '','' @ render_seq xs"

fun flatten :: "sql_array \<Rightarrow> (juncture \<times> string) list" where
  "flatten SNull = [(null_value, [])]"
| "flatten (SString s) = [(string_value, s)]"
| "flatten (SRow xs) = (row_start, []) # concat (map flatten xs) @ [(row_end, [])]"

text \<open>What a token is followed by inside an array.\<close>

definition ends_token :: "string \<Rightarrow> bool" where
  "ends_token r \<longleftrightarrow> (\<exists>c cs. r = c # cs \<and> (c = CHR '','' \<or> c = CHR '';'' \<or> c = CHR ''}''))"

lemma scan_single_escaped:
  "(\<And>cs. rest \<noteq> CHR 0x27 # cs) \<Longrightarrow>
   scan_single_loop b (concat (map escape_single s) @ CHR 0x27 # rest) n
     = Inr (n + length (concat (map escape_single s)) + 1)"
proof (induction s arbitrary: n)
  case Nil
  then show ?case by (auto split: list.split)
next
  case (Cons c s)
  then show ?case by (auto simp: escape_single_def)
qed

lemma parse_single_escaped: "parse_single_loop (concat (map escape_single s)) = s"
  by (induction s) (auto simp: escape_single_def)

lemma getNext_at_quote_single:
  assumes "\<And>cs. rest \<noteq> CHR 0x27 # cs"
  shows "getNext_at (quote_single s @ rest) = Inr ((string_value, s), rest)"
proof -
  let ?e = "concat (map escape_single s)"
  have "scan_single_quoted_string (quote_single s @ rest) = Inr (length ?e + 2)"
    using scan_single_escaped [OF assms, of _ s 1]
    by (simp add: scan_single_quoted_string_def quote_single_def)
  then show ?thesis
    by (simp add: getNext_at_def quote_single_def parse_single_quoted_string_def
        parse_single_escaped)
qed

lemma scan_double_escaped:
  "scan_double_loop b (concat (map escape_double s) @ CHR 0x22 # rest) n
     = Inr (n + length (concat (map escape_double s)) + 1)"
  by (induction s arbitrary: n) (auto simp: escape_double_def)

lemma parse_double_escaped:
  "parse_double_loop (concat (map escape_double s))
     = map (\<lambda>c. if c = CHR 0x22 then CHR 0x5C else c) s"
  by (induction s) (auto simp: escape_double_def)

lemma getNext_at_NULL: "ends_token rest \<Longrightarrow> getNext_at (''NULL'' @ rest) = Inr ((null_value, []), rest)"
  by (auto simp: ends_token_def getNext_at_def scan_unquoted_string_def
      parse_unquoted_string_def Let_def)

lemma tokens_step:
  "p \<noteq> [] \<Longrightarrow> getNext_at p = Inr (r, e) \<Longrightarrow>
   tokens p = obind (tokens (skip_separator e)) (\<lambda>ts. Inr (r # ts))"
  by (simp add: tokens.simps [of p])

lemma tokens_Nil [simp]: "tokens [] = Inr []"
  by (simp add: tokens.simps)

lemma tokens_open: "tokens (CHR ''{'' # e) = obind (tokens (skip_separator e)) (\<lambda>ts. Inr ((row_start, []) # ts))"
  by (rule tokens_step) (simp_all add: getNext_at_def)

lemma tokens_close: "tokens (CHR ''}'' # e) = obind (tokens (skip_separator e)) (\<lambda>ts. Inr ((row_end, []) # ts))"
  by (rule tokens_step) (simp_all add: getNext_at_def)

lemma render_start: "\<exists>c cs. render x = c # cs \<and> c \<noteq> CHR '','' \<and> c \<noteq> CHR '';''"
  by (cases x) (simp_all add: quote_single_def)

lemma skip_separator_render [simp]: "skip_separator (render x @ r) = render x @ r"
  using render_start [of x] by (auto simp: skip_separator_def)

lemma render_seq_start: "\<exists>t. render_seq (x # xs) = render x @ t"
  by (cases xs) auto

lemma skip_separator_render_seq [simp]:
  "skip_separator (render_seq xs @ CHR ''}'' # r) = render_seq xs @ CHR ''}'' # r"
proof (cases xs)
  case Nil
  then show ?thesis by (simp add: skip_separator_def)
next
  case (Cons x ys)
  then obtain t where "render_seq xs = render x @ t" using render_seq_start by blast
  then show ?thesis by simp
qed

lemma tokens_render:
  "ends_token rest \<Longrightarrow>
     tokens (render x @ rest) = obind (tokens (skip_separator rest)) (\<lambda>ts. Inr (flatten x @ ts))"
  "tokens (render_seq xs @ CHR ''}'' # rest')
     = obind (tokens (skip_separator rest'))
         (\<lambda>ts. Inr (concat (map flatten xs) @ (row_end, []) # ts))"
proof (induction x and xs arbitrary: rest and rest' rule: render_render_seq.induct)
  case 1
  from tokens_step [OF _ getNext_at_NULL [OF 1]] show ?case by simp
next
  case (2 s)
  then have "getNext_at (quote_single s @ rest) = Inr ((string_value, s), rest)"
    by (intro getNext_at_quote_single) (auto simp: ends_token_def)
  then show ?case by (subst tokens_step) (auto simp: quote_single_def)
next
  case (3 xs)
  then show ?case by (simp add: tokens_open obind_assoc)
next
  case 4
  then show ?case by (simp add: tokens_close)
next
  case (5 x)
  have "ends_token (CHR ''}'' # rest')" by (simp add: ends_token_def)
  from "5.IH" [OF this] show ?case
    by (simp add: skip_separator_def [of "CHR ''}'' # rest'"] tokens_close obind_assoc)
next
  case (6 x y ys)
  have "ends_token ('','' @ render_seq (y # ys) @ CHR ''}'' # rest')" by (simp add: ends_token_def)
  from "6.IH"(1) [OF this] "6.IH"(2) [of rest'] show ?case
    by (simp add: skip_separator_def [of "CHR '','' # _"] obind_assoc)
qed

lemma tokens_of_row: "tokens (render (SRow xs)) = Inr (flatten (SRow xs))"
  using tokens_render(2) [of xs "[]"] skip_separator_render_seq [of xs "[]"]
  by (simp add: tokens_open)


definition element_value :: "(string \<Rightarrow> 'v) \<Rightarrow> sql_array \<Rightarrow> 'v option list" where
  "element_value conv x = concat (map (token_value conv) (flatten x))"

text \<open>
  \<^verbatim>\<open>asArray\<close> on the text of a flat array of strings and nulls returns one entry per
  element, in order: the converted string, or a null pointer for a null.
\<close>

theorem asArray_elements:
  "asArray conv (mk_ArrayParser (Some (render (SRow xs)))) =
   Inr (concat (map (element_value conv) xs))"
proof -
  have "concat (map (token_value conv) (concat (map flatten xs)))
      = concat (map (element_value conv) xs)"
    by (induction xs) (simp_all add: element_value_def)
  then show ?thesis
    using tokens_of_row [of xs]
    by (simp add: asArray_def mk_ArrayParser_def asArray_loop_tokens del: render.simps)
qed

text \<open>
  In a double-quoted string an escaped double quote is not restored: \<^verbatim>\<open>getNext\<close> delivers
  the escaping backslash in its place.  Every other character, an escaped backslash included,
  comes back as it was.
\<close>

theorem double_quoted_value:
  "getNext (mk_ArrayParser (Some (quote_double s @ rest))) =
   Inr ((string_value, map (\<lambda>c. if c = CHR 0x22 then CHR 0x5C else c) s),
        \<lparr>pos = Some (skip_separator rest)\<rparr>)"
proof -
  let ?e = "concat (map escape_double s)"
  have "scan_double_quoted_string (quote_double s @ rest) = Inr (length ?e + 2)"
    using scan_double_escaped [of _ s rest 1]
    by (simp add: scan_double_quoted_string_def quote_double_def)
  then have "getNext_at (quote_double s @ rest) =
      Inr ((string_value, map (\<lambda>c. if c = CHR 0x22 then CHR 0x5C else c) s), rest)"
    by (simp add: getNext_at_def quote_double_def parse_double_quoted_string_def
        parse_double_escaped)
  then show ?thesis by (simp add: getNext_def mk_ArrayParser_def)
qed

section \<open>Faults of the tokenizer\<close>

lemma scan_unquoted_loop_fault:
  "scan_unquoted_loop cs n = Inl err \<longleftrightarrow>
     err = OutOfBounds \<and> (\<forall>c \<in> set cs. c \<noteq> CHR '','' \<and> c \<noteq> CHR '';'' \<and> c \<noteq> CHR ''}'')"
  by (induction cs n rule: scan_unquoted_loop.induct) auto

lemma scan_single_loop_fault:
  "scan_single_loop b cs n = Inl err \<Longrightarrow> err = err_null_byte b \<or> err = err_ends_in_escape b"
  by (induction b cs n rule: scan_single_loop.induct) (auto split: if_splits list.splits)

lemma scan_double_loop_fault:
  "scan_double_loop b cs n = Inl err \<Longrightarrow> err = err_null_byte b \<or> err = err_ends_in_escape b"
  by (induction b cs n rule: scan_double_loop.induct) (auto split: if_splits list.splits)

definition unquoted_start :: "string \<Rightarrow> bool" where
  "unquoted_start p \<longleftrightarrow>
     p \<noteq> [] \<and> hd p \<noteq> CHR ''{'' \<and> hd p \<noteq> CHR ''}'' \<and> hd p \<noteq> CHR 0x27 \<and> hd p \<noteq> CHR 0x22"

lemma getNext_at_fault:
  assumes "getNext_at p = Inl err"
  shows "err = err_null_byte p \<or> err = err_ends_in_escape p \<or>
         err = OutOfBounds \<and> unquoted_start p \<and>
           (\<forall>c \<in> set p. c \<noteq> CHR '','' \<and> c \<noteq> CHR '';'' \<and> c \<noteq> CHR ''}'')"
proof -
  obtain c cs where p: "p = c # cs" using assms by (cases p) (auto simp: getNext_at_def)
  have single: "scan_single_quoted_string p = Inl err \<Longrightarrow> c = CHR 0x27 \<Longrightarrow> ?thesis"
    using p by (auto simp: scan_single_quoted_string_def dest: scan_single_loop_fault)
  have double: "scan_double_quoted_string p = Inl err \<Longrightarrow> c = CHR 0x22 \<Longrightarrow> ?thesis"
    using p by (auto simp: scan_double_quoted_string_def dest: scan_double_loop_fault)
  have bare: "scan_unquoted_string p = Inl err \<Longrightarrow> unquoted_start p \<Longrightarrow> ?thesis"
    using p scan_unquoted_loop_fault [of p 0 err]
    by (auto simp: scan_unquoted_string_def unquoted_start_def split: if_splits)
  consider "c = CHR ''{''" | "c = CHR ''}''" | "c = CHR 0x27" | "c = CHR 0x22" | "unquoted_start p"
    using p by (auto simp: unquoted_start_def)
  then show ?thesis
  proof cases
    case 3
    then have "scan_single_quoted_string p = Inl err"
      using assms p single_quoted_ok(3) [of p]
      by (auto simp: getNext_at_def outcome_simps)
    then show ?thesis using 3 by (rule single)
  next
    case 4
    then have "scan_double_quoted_string p = Inl err"
      using assms p double_quoted_ok(3) [of p]
      by (auto simp: getNext_at_def outcome_simps)
    then show ?thesis using 4 by (rule double)
  next
    case 5
    then have "scan_unquoted_string p = Inl err"
      using assms p
      by (auto simp: getNext_at_def outcome_simps Let_def unquoted_start_def split: if_splits)
    then show ?thesis using 5 by (rule bare)
  qed (use assms p in \<open>simp_all add: getNext_at_def\<close>)
qed

lemma getNext_at_overrun:
  assumes u: "unquoted_start p"
    and "\<forall>c \<in> set p. c \<noteq> CHR '','' \<and> c \<noteq> CHR '';'' \<and> c \<noteq> CHR ''}''"
  shows "getNext_at p = Inl OutOfBounds"
proof -
  obtain c cs where p: "p = c # cs" using u by (cases p) (auto simp: unquoted_start_def)
  have "scan_unquoted_loop p 0 = Inl OutOfBounds"
    using assms(2) scan_unquoted_loop_fault [of p 0 OutOfBounds] by blast
  then have "scan_unquoted_string p = Inl OutOfBounds"
    using u by (simp add: scan_unquoted_string_def unquoted_start_def)
  then show ?thesis using u p by (simp add: getNext_at_def unquoted_start_def)
qed

text \<open>
  C31: \<^verbatim>\<open>getNext\<close> never fails one of its assertions, and it reads beyond the end of the C
  string exactly when the text at its position is an unquoted value with no comma, semicolon
  or closing brace after it.
\<close>

theorem getNext_memory_safety:
  "getNext a \<noteq> Inl AssertFail \<and>
   (getNext a = Inl OutOfBounds \<longleftrightarrow>
      (\<exists>p. pos a = Some p \<and> unquoted_start p \<and>
           set p \<inter> {CHR '','', CHR '';'', CHR ''}''} = {}))"
proof (cases "pos a")
  case None
  then show ?thesis by (simp add: getNext_def)
next
  case (Some p)
  have ok: "getNext a = Inl err \<longleftrightarrow> getNext_at p = Inl err" for err
    using Some by (cases "getNext_at p") (auto simp: getNext_def)
  have "set p \<inter> {CHR '','', CHR '';'', CHR ''}''} = {} \<longleftrightarrow>
      (\<forall>c \<in> set p. c \<noteq> CHR '','' \<and> c \<noteq> CHR '';'' \<and> c \<noteq> CHR ''}'')" by auto
  then show ?thesis
    using getNext_at_fault [of p] getNext_at_overrun [of p] Some
    by (auto simp: ok err_null_byte_def err_ends_in_escape_def)
qed

text \<open>
  Text that ends in a closing brace is safe to the end: every position the parser reaches
  is a suffix of it.
\<close>

lemma suffix_closes:
  assumes "getNext_at p = Inr (r, e)" and "last p = CHR ''}''"
  shows "skip_separator e = [] \<or> last (skip_separator e) = CHR ''}''"
proof (cases p)
  case Nil
  with assms show ?thesis by (simp add: getNext_at_def skip_separator_def)
next
  case (Cons c cs)
  have drops: "\<exists>n. e = drop n p"
    using assms(1) Cons
  proof (cases rule: getNext_at_cases)
    case open_row
    then show ?thesis using Cons by (metis drop0 drop_Suc_Cons)
  next
    case close_row
    then show ?thesis using Cons by (metis drop0 drop_Suc_Cons)
  qed auto
  moreover have "\<exists>m. skip_separator e = drop m e"
    by (auto simp: skip_separator_def split: list.split) (metis drop0 drop_Suc_Cons)+
  ultimately obtain k where "skip_separator e = drop k p" by (metis drop_drop)
  then show ?thesis using assms(2) by (cases "length p \<le> k") (auto simp: last_drop)
qed

text \<open>
  Reading an array text that ends in \<^verbatim>\<open>}\<close> to its end never leaves the string's memory;
  the only failures are the two \<^verbatim>\<open>ArgumentError\<close>s for a string that does not end.
\<close>

theorem closed_text_is_safe:
  assumes "last p = CHR ''}''" and "tokens p = Inl err"
  shows "\<exists>w. err = Throw (mk_exn ArgumentError w)"
  using assms
proof (induction p rule: tokens.induct)
  case (1 p)
  then have "p \<noteq> []" by auto
  show ?case
  proof (cases "getNext_at p")
    case (Inl err')
    then have "err' = err" using "1.prems" \<open>p \<noteq> []\<close> by (simp add: tokens.simps [of p])
    moreover have "err' \<noteq> OutOfBounds"
      using getNext_at_fault [OF Inl] "1.prems"(1) \<open>p \<noteq> []\<close> last_in_set
      by (fastforce simp: err_null_byte_def err_ends_in_escape_def)
    ultimately show ?thesis
      using getNext_at_fault [OF Inl] by (auto simp: err_null_byte_def err_ends_in_escape_def)
  next
    case (Inr re)
    obtain r e where re: "re = (r, e)" by (cases re)
    then have t: "tokens (skip_separator e) = Inl err"
      using "1.prems" Inr \<open>p \<noteq> []\<close> by (simp add: tokens.simps [of p] outcome_simps)
    then have "skip_separator e \<noteq> []" by auto
    then have "last (skip_separator e) = CHR ''}''"
      using suffix_closes [of p r e] Inr re "1.prems"(1) by simp
    then show ?thesis using "1.IH" [OF \<open>p \<noteq> []\<close> Inr re [symmetric] _ t] by simp
  qed
qed

theorem closed_text_is_safe_witness:
  "\<exists>w. err_null_byte [CHR 0x27, CHR ''}''] = Throw (mk_exn ArgumentError w)"
proof (rule closed_text_is_safe)
  show "last [CHR ''{'', CHR 0x27, CHR ''}''] = CHR ''}''" by simp
  show "tokens [CHR ''{'', CHR 0x27, CHR ''}''] = Inl (err_null_byte [CHR 0x27, CHR ''}''])"
    by (simp add: tokens.simps getNext_at_def skip_separator_def scan_single_quoted_string_def)
qed

end
