(* ===== verification/MPSCQueue.thy ===== *)
theory MPSCQueue
  imports DbException
begin

text \<open>
  The multi-producer single-consumer queue of \<^verbatim>\<open>utils/MPSCQueue.h\<close>: a linked list of nodes on
  a heap, a head that producers exchange, a tail that only the consumer moves.  The atomic
  accesses of \<^verbatim>\<open>enqueue\<close> and \<^verbatim>\<open>dequeue\<close> are operations of their own; the sequential
  functions compose them as the code does, and \<open>mpsc_step\<close> interleaves them between any
  number of producers and the consumer.
\<close>

section \<open>Nodes and atomic operations\<close>

text \<open>
  A node owns the object \<^verbatim>\<open>dataPtr_\<close> points to: \<open>None\<close> is a pointer that was never set (the
  first node) or whose object was deleted.  Addresses are numbers, and \<open>brk\<close> is the next one
  the allocator gives out.
\<close>

record 'a mnode =
  dataPtr :: "'a option"
  nextPtr :: "nat option"

record 'a mpsc =
  nodes :: "nat \<rightharpoonup> 'a mnode"
  headPtr :: nat
  tailPtr :: nat
  brk :: nat

definition mk_MPSCQueue :: "'a mpsc" where
  "mk_MPSCQueue = \<lparr>nodes = [0 \<mapsto> \<lparr>dataPtr = None, nextPtr = None\<rparr>], headPtr = 0, tailPtr = 0, brk = 1\<rparr>"

text \<open>\<^verbatim>\<open>new BufferNode(output)\<close>.\<close>

definition new_node :: "'a \<Rightarrow> 'a mpsc \<Rightarrow> nat \<times> 'a mpsc" where
  "new_node x q =
     (brk q, q\<lparr>nodes := (nodes q)(brk q \<mapsto> \<lparr>dataPtr = Some x, nextPtr = None\<rparr>), brk := Suc (brk q)\<rparr>)"

text \<open>\<^verbatim>\<open>head_.exchange(newNode)\<close>.\<close>

definition exchange_head :: "nat \<Rightarrow> 'a mpsc \<Rightarrow> nat \<times> 'a mpsc" where
  "exchange_head a q = (headPtr q, q\<lparr>headPtr := a\<rparr>)"

text \<open>\<^verbatim>\<open>prevhead->next_.store(newNode)\<close>.\<close>

definition link_next :: "nat \<Rightarrow> nat \<Rightarrow> 'a mpsc \<Rightarrow> fault + 'a mpsc" where
  "link_next prev a q =
     (case nodes q prev of
        None \<Rightarrow> Inl UseAfterFree
      | Some nd \<Rightarrow> Inr (q\<lparr>nodes := (nodes q)(prev \<mapsto> nd\<lparr>nextPtr := Some a\<rparr>)\<rparr>))"

text \<open>\<^verbatim>\<open>tail->next_.load()\<close>.\<close>

definition load_next :: "'a mpsc \<Rightarrow> fault + nat option" where
  "load_next q =
     (case nodes q (tailPtr q) of None \<Rightarrow> Inl UseAfterFree | Some nd \<Rightarrow> Inr (nextPtr nd))"

text \<open>
  The rest of \<^verbatim>\<open>dequeue\<close>: move the object out of \<open>nxt\<close> and delete it, store the tail, delete
  the old tail node.
\<close>

definition take_next :: "nat \<Rightarrow> 'a mpsc \<Rightarrow> fault + 'a \<times> 'a mpsc" where
  "take_next nxt q =
     (case nodes q nxt of
        None \<Rightarrow> Inl UseAfterFree
      | Some nd \<Rightarrow>
          (case dataPtr nd of
             None \<Rightarrow> Inl UseAfterFree
           | Some x \<Rightarrow>
               (let m = (nodes q)(nxt \<mapsto> nd\<lparr>dataPtr := None\<rparr>) in
                case m (tailPtr q) of
                  None \<Rightarrow> Inl UseAfterFree
                | Some _ \<Rightarrow> Inr (x, q\<lparr>nodes := m(tailPtr q := None), tailPtr := nxt\<rparr>))))"

section \<open>The operations of the class\<close>

definition enqueue :: "'a \<Rightarrow> 'a mpsc \<Rightarrow> fault + 'a mpsc" where
  "enqueue x q =
     (let (a, q1) = new_node x q; (prev, q2) = exchange_head a q1 in link_next prev a q2)"

text \<open>\<open>None\<close> stands for the result \<^verbatim>\<open>false\<close>, \<open>Some x\<close> for \<^verbatim>\<open>true\<close> with \<open>x\<close> in \<^verbatim>\<open>output\<close>.\<close>

definition dequeue :: "'a mpsc \<Rightarrow> fault + 'a option \<times> 'a mpsc" where
  "dequeue q =
     obind (load_next q) (\<lambda>nxt.
       case nxt of
         None \<Rightarrow> Inr (None, q)
       | Some n \<Rightarrow> obind (take_next n q) (\<lambda>(x, q'). Inr (Some x, q')))"

definition queue_empty :: "'a mpsc \<Rightarrow> fault + bool" where
  "queue_empty q = obind (load_next q) (\<lambda>nxt. Inr (nxt = None))"

text \<open>
  \<^verbatim>\<open>while (dequeue(output)) ...\<close>, collecting what it delivers.  The fuel bounds the number of
  calls; \<open>None\<close> is running out of it.
\<close>

fun drain :: "('q \<Rightarrow> fault + 'a option \<times> 'q) \<Rightarrow> nat \<Rightarrow> 'q \<Rightarrow> (fault + 'a list \<times> 'q) option" where
  "drain deq 0 q = None"
| "drain deq (Suc fuel) q =
     (case deq q of
        Inl e \<Rightarrow> Some (Inl e)
      | Inr (None, q') \<Rightarrow> Some (Inr ([], q'))
      | Inr (Some x, q') \<Rightarrow> map_option (\<lambda>r. obind r (\<lambda>(xs, q''). Inr (x # xs, q''))) (drain deq fuel q'))"

text \<open>
  The destructor: drain, then delete the node \<^verbatim>\<open>head_\<close> points to.  \<open>brk q\<close> bounds the number
  of nodes, so it is fuel enough.
\<close>

definition destroy_queue :: "'a mpsc \<Rightarrow> (fault + 'a mpsc) option" where
  "destroy_queue q =
     map_option (\<lambda>r. obind r (\<lambda>(_, q').
        case nodes q' (headPtr q') of
          None \<Rightarrow> Inl UseAfterFree
        | Some _ \<Rightarrow> Inr (q'\<lparr>nodes := (nodes q')(headPtr q' := None)\<rparr>)))
       (drain dequeue (brk q) q)"

text \<open>What the queue holds, read off the heap by following the links from the tail.\<close>

fun walk :: "nat \<Rightarrow> (nat \<rightharpoonup> 'a mnode) \<Rightarrow> nat \<Rightarrow> 'a list" where
  "walk 0 m a = []"
| "walk (Suc fuel) m a =
     (case m a of
        None \<Rightarrow> []
      | Some nd \<Rightarrow>
          (case nextPtr nd of
             None \<Rightarrow> []
           | Some b \<Rightarrow>
               (case m b of
                  None \<Rightarrow> []
                | Some nd' \<Rightarrow> (case dataPtr nd' of None \<Rightarrow> [] | Some x \<Rightarrow> x # walk fuel m b))))"

definition items :: "'a mpsc \<Rightarrow> 'a list" where
  "items q = walk (brk q) (nodes q) (tailPtr q)"

section \<open>The shape of the list\<close>

text \<open>
  \<open>linked m P ns\<close>: the nodes \<open>ns\<close> follow each other by their \<^verbatim>\<open>next_\<close> pointers, but for the
  pairs in \<open>P\<close>, which a producer has exchanged and not linked yet.
\<close>

fun linked :: "(nat \<rightharpoonup> 'a mnode) \<Rightarrow> (nat \<times> nat) set \<Rightarrow> nat list \<Rightarrow> bool" where
  "linked m P [] = False"
| "linked m P [a] = (\<exists>nd. m a = Some nd \<and> nextPtr nd = None)"
| "linked m P (a # b # ns) =
     ((\<exists>nd. m a = Some nd \<and> nextPtr nd = (if (a, b) \<in> P then None else Some b)) \<and> linked m P (b # ns))"

definition node_data :: "(nat \<rightharpoonup> 'a mnode) \<Rightarrow> nat \<Rightarrow> 'a option" where
  "node_data m a = (case m a of None \<Rightarrow> None | Some nd \<Rightarrow> dataPtr nd)"

lemma node_data_upd [simp]:
  "node_data (m(a \<mapsto> nd)) b = (if b = a then dataPtr nd else node_data m b)"
  "node_data (m(a := None)) b = (if b = a then None else node_data m b)"
  by (simp_all add: node_data_def)

lemma node_data_SomeD: "node_data m a = Some x \<Longrightarrow> \<exists>nd. m a = Some nd \<and> dataPtr nd = Some x"
  by (simp add: node_data_def split: option.splits)

lemma linked_in_dom: "linked m P ns \<Longrightarrow> a \<in> set ns \<Longrightarrow> \<exists>nd. m a = Some nd"
  by (induction m P ns rule: linked.induct) auto

lemma linked_notin [simp]: "a \<notin> set ns \<Longrightarrow> linked (m(a := v)) P ns = linked m P ns"
  by (induction m P ns rule: linked.induct) auto

lemma linked_cong:
  "(\<And>us x y vs. ns = us @ x # y # vs \<Longrightarrow> (x, y) \<in> P \<longleftrightarrow> (x, y) \<in> P') \<Longrightarrow>
   linked m P ns = linked m P' ns"
proof (induction m P ns rule: linked.induct)
  case (3 m P a b ns)
  have "linked m P (b # ns) = linked m P' (b # ns)"
    using "3.prems" by (intro "3.IH") (metis append_Cons)
  moreover have "(a, b) \<in> P \<longleftrightarrow> (a, b) \<in> P'" using "3.prems" [of "[]" a b ns] by simp
  ultimately show ?case by simp
qed simp_all

lemma linked_last: "linked m P ns \<Longrightarrow> \<exists>nd. m (last ns) = Some nd \<and> nextPtr nd = None"
  by (induction m P ns rule: linked.induct) auto

lemma linked_data_upd:
  "m a = Some nd \<Longrightarrow> linked (m(a \<mapsto> nd\<lparr>dataPtr := v\<rparr>)) P ns = linked m P ns"
  by (induction m P ns rule: linked.induct) auto

lemma linked_snoc:
  assumes "linked m P ns" and "a \<notin> set ns" and "m a = Some nd" and "nextPtr nd = None"
  shows "linked m (insert (last ns, a) P) (ns @ [a])"
  using assms
proof (induction m P ns rule: linked.induct)
  case (3 m P b c ns)
  then show ?case by auto
qed auto

lemma linked_fill:
  assumes "linked m P ns" and "distinct ns" and "ns = us @ p # a # vs" and "(p, a) \<in> P"
    and "m p = Some nd"
  shows "linked (m(p \<mapsto> nd\<lparr>nextPtr := Some a\<rparr>)) (P - {(p, a)}) ns"
  using assms
proof (induction m P ns arbitrary: us rule: linked.induct)
  case (3 m P b c ns)
  show ?case
  proof (cases us)
    case Nil
    with "3.prems" have b: "b = p" "c = a" by auto
    have "x \<noteq> p" if "c # ns = us' @ x # y # vs'" for us' x y vs'
    proof -
      have "x \<in> set (c # ns)" using that by (metis in_set_conv_decomp)
      then show ?thesis using "3.prems"(2) b by auto
    qed
    then have "linked m (P - {(p, a)}) (c # ns) = linked m P (c # ns)"
      by (intro linked_cong) blast
    moreover have "linked m P (c # ns)" "p \<notin> set (c # ns)" using "3.prems"(1,2) b by auto
    ultimately have "linked (m(p \<mapsto> nd\<lparr>nextPtr := Some a\<rparr>)) (P - {(p, a)}) (c # ns)"
      by (simp del: fun_upd_apply)
    then show ?thesis using b by (simp del: fun_upd_apply add: fun_upd_same)
  next
    case (Cons u us')
    with "3.prems" have u: "u = b" and rest: "c # ns = us' @ p # a # vs" by auto
    have "b \<noteq> p" using "3.prems"(2) rest by (metis distinct.simps(2) in_set_conv_decomp)
    moreover have "linked (m(p \<mapsto> nd\<lparr>nextPtr := Some a\<rparr>)) (P - {(p, a)}) (c # ns)"
    proof (rule "3.IH")
      show "linked m P (c # ns)" "distinct (c # ns)" using "3.prems"(1,2) by auto
    qed (use "3.prems" rest in auto)
    ultimately show ?thesis
      using "3.prems"(1) \<open>b \<noteq> p\<close> by (auto simp del: fun_upd_apply simp: fun_upd_other)
  qed
qed auto


section \<open>Producers and the consumer, interleaved\<close>

text \<open>
  Where a producer is in \<^verbatim>\<open>enqueue\<close>: outside, with a new node not yet exchanged, or with the
  node exchanged and its predecessor still to be linked.  The consumer is outside or has
  loaded a non-null \<^verbatim>\<open>next\<close>.
\<close>

datatype prod_pc = PIdle | PNew nat | PLink nat nat

datatype cons_pc = CIdle | CTake nat

text \<open>
  \<open>chain\<close>, \<open>enqd\<close> and \<open>deqd\<close> are history variables: the nodes in the order of the exchanges
  from the tail on, the objects in the order of their exchanges, and the objects delivered.
  No guard reads them.
\<close>

record 'a msys =
  queue :: "'a mpsc"
  prods :: "nat \<Rightarrow> prod_pc"
  cons :: cons_pc
  chain :: "nat list"
  enqd :: "'a list"
  deqd :: "'a list"

definition init_msys :: "'a msys" where
  "init_msys = \<lparr>queue = mk_MPSCQueue, prods = (\<lambda>_. PIdle), cons = CIdle,
                chain = [0], enqd = [], deqd = []\<rparr>"

inductive mpsc_step :: "'a msys \<Rightarrow> 'a msys \<Rightarrow> bool" where
  p_new: "prods s i = PIdle \<Longrightarrow> new_node x (queue s) = (a, q') \<Longrightarrow>
     mpsc_step s (s\<lparr>queue := q', prods := (prods s)(i := PNew a)\<rparr>)"
| p_exchange: "prods s i = PNew a \<Longrightarrow> exchange_head a (queue s) = (prev, q') \<Longrightarrow>
     node_data (nodes (queue s)) a = Some x \<Longrightarrow>
     mpsc_step s (s\<lparr>queue := q', prods := (prods s)(i := PLink prev a),
                    chain := chain s @ [a], enqd := enqd s @ [x]\<rparr>)"
| p_link: "prods s i = PLink prev a \<Longrightarrow> link_next prev a (queue s) = Inr q' \<Longrightarrow>
     mpsc_step s (s\<lparr>queue := q', prods := (prods s)(i := PIdle)\<rparr>)"
| c_load: "cons s = CIdle \<Longrightarrow> load_next (queue s) = Inr (Some n) \<Longrightarrow>
     mpsc_step s (s\<lparr>cons := CTake n\<rparr>)"
| c_take: "cons s = CTake n \<Longrightarrow> take_next n (queue s) = Inr (x, q') \<Longrightarrow>
     mpsc_step s (s\<lparr>queue := q', cons := CIdle, chain := tl (chain s), deqd := deqd s @ [x]\<rparr>)"

inductive mpsc_reachable :: "'a msys \<Rightarrow> bool" where
  start: "mpsc_reachable init_msys"
| step: "mpsc_reachable s \<Longrightarrow> mpsc_step s t \<Longrightarrow> mpsc_reachable t"

inductive_cases mpsc_stepE: "mpsc_step s t"

definition pending :: "(nat \<Rightarrow> prod_pc) \<Rightarrow> (nat \<times> nat) set" where
  "pending pr = {(p, a). \<exists>i. pr i = PLink p a}"

definition fresh_nodes :: "(nat \<Rightarrow> prod_pc) \<Rightarrow> nat set" where
  "fresh_nodes pr = {a. \<exists>i. pr i = PNew a}"

text \<open>
  The invariant: the history of exchanges is a linked list but for the pending links; each
  pending link is between neighbours and belongs to one producer; the objects of the nodes
  after the tail are the exchanged ones that were not delivered; a node before its exchange is
  private to one producer; and what the consumer loaded is the node after the tail.
\<close>

definition list_inv :: "'a msys \<Rightarrow> bool" where
  "list_inv s \<longleftrightarrow>
     linked (nodes (queue s)) (pending (prods s)) (chain s) \<and> distinct (chain s) \<and>
     hd (chain s) = tailPtr (queue s) \<and> last (chain s) = headPtr (queue s) \<and>
     node_data (nodes (queue s)) (tailPtr (queue s)) = None \<and>
     dom (nodes (queue s)) = set (chain s) \<union> fresh_nodes (prods s) \<and>
     (\<forall>a \<in> dom (nodes (queue s)). a < brk (queue s))"

definition data_inv :: "'a msys \<Rightarrow> bool" where
  "data_inv s \<longleftrightarrow>
     (\<exists>xs. enqd s = deqd s @ xs \<and>
        map (node_data (nodes (queue s))) (tl (chain s)) = map Some xs)"

definition prod_inv :: "'a msys \<Rightarrow> bool" where
  "prod_inv s \<longleftrightarrow>
     (\<forall>i p a. prods s i = PLink p a \<longrightarrow> (\<exists>us vs. chain s = us @ p # a # vs)) \<and>
     (\<forall>i j p a. prods s i = PLink p a \<longrightarrow> prods s j = PLink p a \<longrightarrow> i = j) \<and>
     (\<forall>i a. prods s i = PNew a \<longrightarrow>
        a \<notin> set (chain s) \<and>
        (\<exists>x. nodes (queue s) a = Some \<lparr>dataPtr = Some x, nextPtr = None\<rparr>)) \<and>
     (\<forall>i j a. prods s i = PNew a \<longrightarrow> prods s j = PNew a \<longrightarrow> i = j)"

definition cons_inv :: "'a msys \<Rightarrow> bool" where
  "cons_inv s \<longleftrightarrow>
     (\<forall>n. cons s = CTake n \<longrightarrow>
        (\<exists>t r. chain s = t # n # r \<and> (t, n) \<notin> pending (prods s)))"

definition msys_inv :: "'a msys \<Rightarrow> bool" where
  "msys_inv s \<longleftrightarrow> list_inv s \<and> data_inv s \<and> prod_inv s \<and> cons_inv s"

lemma msys_invD:
  assumes "msys_inv s"
  shows "list_inv s" and "data_inv s" and "prod_inv s" and "cons_inv s"
  using assms by (simp_all add: msys_inv_def)

lemma list_invD:
  assumes "list_inv s"
  shows "linked (nodes (queue s)) (pending (prods s)) (chain s)" and "distinct (chain s)"
    and "chain s \<noteq> []" and "hd (chain s) = tailPtr (queue s)" and "last (chain s) = headPtr (queue s)"
    and "dom (nodes (queue s)) = set (chain s) \<union> fresh_nodes (prods s)"
    and "\<And>a. a \<in> dom (nodes (queue s)) \<Longrightarrow> a < brk (queue s)"
    and "node_data (nodes (queue s)) (tailPtr (queue s)) = None"
  using assms by (auto simp: list_inv_def)

lemma prod_invD:
  assumes "prod_inv s"
  shows "prods s i = PLink p a \<Longrightarrow> \<exists>us vs. chain s = us @ p # a # vs"
    and "prods s i = PLink p a \<Longrightarrow> prods s j = PLink p a \<Longrightarrow> i = j"
    and "prods s i = PNew a \<Longrightarrow> a \<notin> set (chain s)"
    and "prods s i = PNew a \<Longrightarrow> \<exists>x. nodes (queue s) a = Some \<lparr>dataPtr = Some x, nextPtr = None\<rparr>"
    and "prods s i = PNew a \<Longrightarrow> prods s j = PNew a \<Longrightarrow> i = j"
  using assms unfolding prod_inv_def by blast+

lemma data_invI:
  "enqd s = deqd s @ xs \<Longrightarrow> map (node_data (nodes (queue s))) (tl (chain s)) = map Some xs \<Longrightarrow> data_inv s"
  unfolding data_inv_def by blast

lemma data_invE:
  assumes "data_inv s"
  obtains xs where "enqd s = deqd s @ xs"
    and "map (node_data (nodes (queue s))) (tl (chain s)) = map Some xs"
  using assms unfolding data_inv_def by blast

lemma msys_inv_init: "msys_inv init_msys"
  by (simp add: msys_inv_def list_inv_def data_inv_def prod_inv_def cons_inv_def init_msys_def
      mk_MPSCQueue_def pending_def fresh_nodes_def node_data_def)

text \<open>
  Each atomic operation keeps the invariant.  The lemmas take the operation apart by its
  fields, so that the step proof is one line per rule.
\<close>

lemma in_pending [simp]: "(p, a) \<in> pending pr \<longleftrightarrow> (\<exists>i. pr i = PLink p a)"
  by (simp add: pending_def)

lemma pending_eqI: "(\<And>p a. (p, a) \<in> P \<longleftrightarrow> (p, a) \<in> Q) \<Longrightarrow> P = Q" for P Q :: "(nat \<times> nat) set"
  by auto

lemma pending_upd_not_link:
  assumes "\<And>p a. pr i \<noteq> PLink p a" and "\<And>p a. v \<noteq> PLink p a"
  shows "pending (pr(i := v)) = pending pr"
proof (rule pending_eqI)
  fix p a
  show "(p, a) \<in> pending (pr(i := v)) \<longleftrightarrow> (p, a) \<in> pending pr"
    unfolding in_pending using assms by (metis fun_upd_other fun_upd_same)
qed

lemma pending_upd_link:
  assumes "\<And>p a. pr i \<noteq> PLink p a"
  shows "pending (pr(i := PLink q b)) = insert (q, b) (pending pr)"
proof (rule pending_eqI)
  fix p a
  show "(p, a) \<in> pending (pr(i := PLink q b)) \<longleftrightarrow> (p, a) \<in> insert (q, b) (pending pr)"
    unfolding in_pending insert_iff prod.inject
    using assms by (metis fun_upd_other fun_upd_same prod_pc.inject(2))
qed

lemma pending_upd_unlink:
  assumes "pr i = PLink q b" and "\<And>j. pr j = PLink q b \<Longrightarrow> i = j"
  shows "pending (pr(i := PIdle)) = pending pr - {(q, b)}"
proof (rule pending_eqI)
  fix p a
  have "(\<exists>j. (pr(i := PIdle)) j = PLink p a) \<longleftrightarrow> (\<exists>j. j \<noteq> i \<and> pr j = PLink p a)"
    by (auto simp: fun_upd_apply)
  also have "\<dots> \<longleftrightarrow> (\<exists>j. pr j = PLink p a) \<and> (p, a) \<noteq> (q, b)"
  proof (cases "(p, a) = (q, b)")
    case True
    then show ?thesis using assms(2) by blast
  next
    case False
    then have "j \<noteq> i" if "pr j = PLink p a" for j using that assms(1) by auto
    then show ?thesis using False by blast
  qed
  finally show "(p, a) \<in> pending (pr(i := PIdle)) \<longleftrightarrow> (p, a) \<in> pending pr - {(q, b)}"
    by simp
qed

lemma fresh_nodes_upd_new:
  assumes "\<And>a. pr i \<noteq> PNew a"
  shows "fresh_nodes (pr(i := PNew b)) = insert b (fresh_nodes pr)"
proof -
  have "(\<exists>j. (pr(i := PNew b)) j = PNew a) \<longleftrightarrow> a = b \<or> (\<exists>j. pr j = PNew a)" for a
    using assms by (metis fun_upd_other fun_upd_same prod_pc.inject(1))
  then show ?thesis by (auto simp: fresh_nodes_def)
qed

lemma fresh_nodes_upd_other:
  assumes "\<And>a. pr i \<noteq> PNew a" and "\<And>a. v \<noteq> PNew a"
  shows "fresh_nodes (pr(i := v)) = fresh_nodes pr"
proof -
  have "(\<exists>j. (pr(i := v)) j = PNew a) \<longleftrightarrow> (\<exists>j. pr j = PNew a)" for a
    using assms by (metis fun_upd_other fun_upd_same)
  then show ?thesis by (simp add: fresh_nodes_def)
qed

lemma fresh_nodes_upd_exchange:
  assumes "pr i = PNew b" and "\<And>j. pr j = PNew b \<Longrightarrow> i = j" and "\<And>a. v \<noteq> PNew a"
  shows "fresh_nodes (pr(i := v)) = fresh_nodes pr - {b}"
proof -
  have "(\<exists>j. (pr(i := v)) j = PNew a) \<longleftrightarrow> (\<exists>j. pr j = PNew a) \<and> a \<noteq> b" for a
    using assms by (metis fun_upd_other fun_upd_same prod_pc.inject(1))
  then show ?thesis by (auto simp: fresh_nodes_def)
qed

lemma step_new_inv:
  assumes inv: "msys_inv s" and idle: "prods s i = PIdle" and op: "new_node x (queue s) = (a, q')"
  shows "msys_inv (s\<lparr>queue := q', prods := (prods s)(i := PNew a)\<rparr>)" (is "msys_inv ?t")
proof -
  note L = list_invD [OF msys_invD(1) [OF inv]] and P = prod_invD [OF msys_invD(3) [OF inv]]
  let ?m = "nodes (queue s)"
  have a: "a = brk (queue s)"
    and q': "q' = (queue s)\<lparr>nodes := ?m(a \<mapsto> \<lparr>dataPtr = Some x, nextPtr = None\<rparr>), brk := Suc a\<rparr>"
    using op by (auto simp: new_node_def)
  have "a \<notin> dom ?m" using L(7) [of a] a by auto
  then have fresh: "a \<notin> set (chain s)" "\<And>j. prods s j \<noteq> PNew a"
    using L(6) by (auto simp: fresh_nodes_def)
  have pend: "pending ((prods s)(i := PNew a)) = pending (prods s)"
    using idle by (intro pending_upd_not_link) auto
  have fr: "fresh_nodes ((prods s)(i := PNew a)) = insert a (fresh_nodes (prods s))"
    using idle by (intro fresh_nodes_upd_new) simp
  have hda: "tailPtr (queue s) \<noteq> a" using fresh(1) L(3,4) hd_in_set by metis
  have "list_inv ?t"
    unfolding list_inv_def using L fresh(1) hda
    by (auto simp: q' pend fr less_Suc_eq a [symmetric] simp del: fun_upd_apply)
  moreover have "data_inv ?t"
  proof -
    obtain xs where xs: "enqd s = deqd s @ xs" "map (node_data ?m) (tl (chain s)) = map Some xs"
      using msys_invD(2) [OF inv] by (rule data_invE)
    have "map (node_data (nodes q')) (tl (chain s)) = map (node_data ?m) (tl (chain s))"
      using fresh(1) L(3) by (intro map_cong) (auto simp: q' dest: list.set_sel(2))
    with xs show ?thesis by (intro data_invI [of _ xs]) simp_all
  qed
  moreover have "prod_inv ?t"
  proof -
    let ?pr = "(prods s)(i := PNew a)"
    have 1: "\<exists>us vs. chain s = us @ p # b # vs" if "?pr j = PLink p b" for j p b
      using that P(1) [of j p b] by (auto split: if_splits)
    have 2: "j = k" if "?pr j = PLink p b" "?pr k = PLink p b" for j k p b
      using that P(2) [of j p b k] by (auto split: if_splits)
    have 3: "b \<notin> set (chain s) \<and> (\<exists>y. nodes q' b = Some \<lparr>dataPtr = Some y, nextPtr = None\<rparr>)"
      if "?pr j = PNew b" for j b
      using that P(3,4) [of j b] fresh by (auto simp: q' split: if_splits)
    have 4: "j = k" if "?pr j = PNew b" "?pr k = PNew b" for j k b
      using that P(5) [of j b k] fresh(2) by (auto split: if_splits)
    show ?thesis unfolding prod_inv_def using 1 2 3 4 by (simp del: fun_upd_apply)
  qed
  moreover have "cons_inv ?t"
    using msys_invD(4) [OF inv] by (simp add: cons_inv_def pend)
  ultimately show ?thesis by (simp add: msys_inv_def)
qed

lemma step_exchange_inv:
  assumes inv: "msys_inv s" and pc: "prods s i = PNew a"
    and op: "exchange_head a (queue s) = (prev, q')"
    and x: "node_data (nodes (queue s)) a = Some x"
  shows "msys_inv (s\<lparr>queue := q', prods := (prods s)(i := PLink prev a),
                    chain := chain s @ [a], enqd := enqd s @ [x]\<rparr>)"
    (is "msys_inv ?t")
proof -
  note L = list_invD [OF msys_invD(1) [OF inv]] and P = prod_invD [OF msys_invD(3) [OF inv]]
  let ?m = "nodes (queue s)" and ?pr = "(prods s)(i := PLink prev a)"
  have q': "headPtr (queue s) = prev" "q' = (queue s)\<lparr>headPtr := a\<rparr>"
    using op by (auto simp: exchange_head_def)
  have a: "a \<notin> set (chain s)" by (rule P(3) [OF pc])
  have unlinked: "prods s j \<noteq> PLink p a" for j p
    using P(1) [of j p a] a by auto
  have pend: "pending ?pr = insert (prev, a) (pending (prods s))"
    using pc by (intro pending_upd_link) simp
  have fr: "fresh_nodes ?pr = fresh_nodes (prods s) - {a}"
  proof (rule fresh_nodes_upd_exchange [of "prods s" i a])
    show "i = j" if "prods s j = PNew a" for j by (rule P(5) [OF pc that])
  qed (simp_all add: pc)
  have af: "a \<in> fresh_nodes (prods s)" using pc by (auto simp: fresh_nodes_def)
  have "linked ?m (insert (prev, a) (pending (prods s))) (chain s @ [a])"
    using linked_snoc [OF L(1) a] P(4) [OF pc] L(5) q'(1) by auto
  then have "list_inv ?t"
    unfolding list_inv_def using L a af
    by (auto simp: q' pend fr hd_append simp del: fun_upd_apply)
  moreover have "data_inv ?t"
  proof -
    obtain xs where "enqd s = deqd s @ xs" "map (node_data ?m) (tl (chain s)) = map Some xs"
      using msys_invD(2) [OF inv] by (rule data_invE)
    then show ?thesis
      using x L(3) by (intro data_invI [of _ "xs @ [x]"]) (simp_all add: q' tl_append2)
  qed
  moreover have "prod_inv ?t"
  proof -
    have 1: "\<exists>us vs. chain s @ [a] = us @ p # b # vs" if "?pr j = PLink p b" for j p b
    proof (cases "j = i")
      case True
      then have "chain s @ [a] = butlast (chain s) @ p # b # []"
        using that L(3,5) q'(1) by (auto simp flip: append_butlast_last_id)
      then show ?thesis by blast
    next
      case False
      then have "prods s j = PLink p b" using that by simp
      then obtain us vs where "chain s = us @ p # b # vs" using P(1) by blast
      then have "chain s @ [a] = us @ p # b # (vs @ [a])" by simp
      then show ?thesis by blast
    qed
    have 2: "j = k" if "?pr j = PLink p b" "?pr k = PLink p b" for j k p b
      using that unlinked P(2) [of j p b k] by (auto split: if_splits)
    have 3: "b \<notin> set (chain s @ [a]) \<and> (\<exists>y. ?m b = Some \<lparr>dataPtr = Some y, nextPtr = None\<rparr>)"
      if "?pr j = PNew b" for j b
      using that P(3,4) [of j b] P(5) [OF pc, of j] by (auto split: if_splits)
    have 4: "j = k" if "?pr j = PNew b" "?pr k = PNew b" for j k b
      using that P(5) [of j b k] by (auto split: if_splits)
    show ?thesis unfolding prod_inv_def
      using 1 2 3 4 by (simp add: q' del: fun_upd_apply)
  qed
  moreover have "cons_inv ?t"
    using msys_invD(4) [OF inv] a by (fastforce simp: cons_inv_def pend)
  ultimately show ?thesis by (simp add: msys_inv_def)
qed

lemma step_link_inv:
  assumes inv: "msys_inv s" and pc: "prods s i = PLink prev a"
    and op: "link_next prev a (queue s) = Inr q'"
  shows "msys_inv (s\<lparr>queue := q', prods := (prods s)(i := PIdle)\<rparr>)" (is "msys_inv ?t")
proof -
  note L = list_invD [OF msys_invD(1) [OF inv]] and P = prod_invD [OF msys_invD(3) [OF inv]]
  let ?m = "nodes (queue s)" and ?pr = "(prods s)(i := PIdle)"
  obtain nd where nd: "?m prev = Some nd"
    and q': "q' = (queue s)\<lparr>nodes := ?m(prev \<mapsto> nd\<lparr>nextPtr := Some a\<rparr>)\<rparr>"
    using op by (auto simp: link_next_def split: option.splits)
  have data: "node_data (nodes q') = node_data ?m"
    using nd by (auto simp: q' node_data_def fun_eq_iff)
  obtain us vs where ch: "chain s = us @ prev # a # vs" using P(1) [OF pc] by blast
  have pend: "pending ?pr = pending (prods s) - {(prev, a)}"
  proof (rule pending_upd_unlink [of "prods s" i prev a])
    show "i = j" if "prods s j = PLink prev a" for j by (rule P(2) [OF pc that])
  qed (rule pc)
  have fr: "fresh_nodes ?pr = fresh_nodes (prods s)"
    using pc by (intro fresh_nodes_upd_other) auto
  have "linked (nodes q') (pending (prods s) - {(prev, a)}) (chain s)"
    using linked_fill [OF L(1,2) ch _ nd] pc by (auto simp: q')
  moreover have "dom (nodes q') = dom ?m" using nd by (auto simp: q')
  ultimately have "list_inv ?t"
    using msys_invD(1) [OF inv]
    by (simp add: list_inv_def pend fr data del: fun_upd_apply) (simp add: q')
  moreover have "data_inv ?t"
    using msys_invD(2) [OF inv] by (simp add: data_inv_def data)
  moreover have "prod_inv ?t"
  proof -
    have 1: "\<exists>us vs. chain s = us @ p # b # vs" if "?pr j = PLink p b" for j p b
      using that P(1) [of j p b] by (auto split: if_splits)
    have 2: "j = k" if "?pr j = PLink p b" "?pr k = PLink p b" for j k p b
      using that P(2) [of j p b k] by (auto split: if_splits)
    have 3: "b \<notin> set (chain s) \<and> (\<exists>y. nodes q' b = Some \<lparr>dataPtr = Some y, nextPtr = None\<rparr>)"
      if "?pr j = PNew b" for j b
    proof -
      have "b \<notin> set (chain s)" "\<exists>y. ?m b = Some \<lparr>dataPtr = Some y, nextPtr = None\<rparr>"
        using that P(3,4) [of j b] by (auto split: if_splits)
      then show ?thesis using ch by (auto simp: q')
    qed
    have 4: "j = k" if "?pr j = PNew b" "?pr k = PNew b" for j k b
      using that P(5) [of j b k] by (auto split: if_splits)
    show ?thesis unfolding prod_inv_def using 1 2 3 4 by (simp del: fun_upd_apply)
  qed
  moreover have "cons_inv ?t"
    using msys_invD(4) [OF inv] by (fastforce simp: cons_inv_def pend simp del: in_pending)
  ultimately show ?thesis by (simp add: msys_inv_def)
qed

lemma load_next_neighbour:
  assumes inv: "list_inv s" and op: "load_next (queue s) = Inr (Some n)"
  shows "\<exists>r. chain s = tailPtr (queue s) # n # r \<and> (tailPtr (queue s), n) \<notin> pending (prods s)"
proof -
  note L = list_invD [OF inv]
  obtain t r where ch: "chain s = t # r" using L(3) by (cases "chain s") auto
  then have t: "t = tailPtr (queue s)" using L(4) by simp
  obtain nd where nd: "nodes (queue s) t = Some nd" "nextPtr nd = Some n"
    using op t by (auto simp: load_next_def split: option.splits)
  show ?thesis
  proof (cases r)
    case Nil
    then show ?thesis using L(1) ch nd by simp
  next
    case (Cons b r')
    then show ?thesis using L(1) ch nd t by (auto split: if_splits simp del: in_pending)
  qed
qed

lemma take_next_result:
  assumes inv: "msys_inv s" and pc: "cons s = CTake n"
  obtains t r nd x where "chain s = t # n # r" "t = tailPtr (queue s)"
    "nodes (queue s) n = Some nd" "dataPtr nd = Some x"
    "take_next n (queue s) = Inr (x, (queue s)\<lparr>nodes :=
        ((nodes (queue s))(n \<mapsto> nd\<lparr>dataPtr := None\<rparr>))(t := None), tailPtr := n\<rparr>)"
proof -
  note L = list_invD [OF msys_invD(1) [OF inv]]
  obtain t r where ch: "chain s = t # n # r"
    using msys_invD(4) [OF inv] pc by (auto simp: cons_inv_def)
  obtain xs where "map (node_data (nodes (queue s))) (tl (chain s)) = map Some xs"
    using msys_invD(2) [OF inv] by (rule data_invE)
  then obtain x where x: "node_data (nodes (queue s)) n = Some x" using ch by (cases xs) auto
  then obtain nd where nd: "nodes (queue s) n = Some nd" "dataPtr nd = Some x"
    using node_data_SomeD [OF x] by auto
  have t: "t = tailPtr (queue s)" "t \<noteq> n" using L(2,4) ch by simp_all
  have "t \<in> set (chain s)" using ch by simp
  then obtain nt where "nodes (queue s) t = Some nt" using linked_in_dom [OF L(1)] by blast
  with nd t have r: "take_next n (queue s) = Inr (x, (queue s)\<lparr>nodes :=
        ((nodes (queue s))(n \<mapsto> nd\<lparr>dataPtr := None\<rparr>))(t := None), tailPtr := n\<rparr>)"
    by (simp add: take_next_def Let_def)
  show ?thesis by (rule that [OF ch t(1) nd r])
qed

lemma step_take_inv:
  assumes inv: "msys_inv s" and pc: "cons s = CTake n"
    and op: "take_next n (queue s) = Inr (x, q')"
  shows "msys_inv (s\<lparr>queue := q', cons := CIdle, chain := tl (chain s), deqd := deqd s @ [x]\<rparr>)"
    (is "msys_inv ?t")
proof -
  note L = list_invD [OF msys_invD(1) [OF inv]] and P = prod_invD [OF msys_invD(3) [OF inv]]
  let ?m = "nodes (queue s)"
  obtain t r nd x' where ch: "chain s = t # n # r" and t: "t = tailPtr (queue s)"
    and nd': "?m n = Some nd" "dataPtr nd = Some x'"
    and op': "take_next n (queue s) = Inr (x', (queue s)\<lparr>nodes :=
        (?m(n \<mapsto> nd\<lparr>dataPtr := None\<rparr>))(t := None), tailPtr := n\<rparr>)"
    by (rule take_next_result [OF inv pc])
  have nd: "?m n = Some nd" "dataPtr nd = Some x"
    and q': "q' = (queue s)\<lparr>nodes := (?m(n \<mapsto> nd\<lparr>dataPtr := None\<rparr>))(t := None), tailPtr := n\<rparr>"
    using op op' nd' by simp_all
  have np: "(t, n) \<notin> pending (prods s)"
    using msys_invD(4) [OF inv] pc ch by (auto simp: cons_inv_def)
  have dist: "t \<notin> set (n # r)" "distinct (n # r)" using L(2) ch by auto
  have tf: "t \<notin> fresh_nodes (prods s)" "n \<notin> fresh_nodes (prods s)"
    using P(3) ch by (force simp: fresh_nodes_def)+
  have "linked ?m (pending (prods s)) (n # r)" using L(1) ch by simp
  then have "linked (nodes q') (pending (prods s)) (n # r)"
    using dist(1) linked_data_upd [of ?m n nd None] nd by (simp add: q' del: fun_upd_apply)
  moreover have "dom (nodes q') = set (n # r) \<union> fresh_nodes (prods s)"
    using L(6) ch nd dist tf by (auto simp: q')
  ultimately have "list_inv ?t"
  proof -
    have "a < brk (queue s)" if "a \<in> set (n # r) \<union> fresh_nodes (prods s)" for a
      using that L(6) L(7) [of a] ch by auto
    moreover have "last (n # r) = headPtr (queue s)" using L(5) ch by simp
    moreover note \<open>linked (nodes q') (pending (prods s)) (n # r)\<close>
      \<open>dom (nodes q') = set (n # r) \<union> fresh_nodes (prods s)\<close>
    moreover have "node_data (nodes q') n = None" "tailPtr q' = n" "headPtr q' = headPtr (queue s)"
      "brk q' = brk (queue s)"
      using dist by (simp_all add: q')
    ultimately show ?thesis using ch dist by (simp add: list_inv_def)
  qed
  moreover have "data_inv ?t"
  proof -
    obtain xs where xs: "enqd s = deqd s @ xs" "map (node_data ?m) (tl (chain s)) = map Some xs"
      using msys_invD(2) [OF inv] by (rule data_invE)
    then obtain ys where ys: "xs = x # ys" "map (node_data ?m) r = map Some ys"
      using ch nd by (cases xs) (auto simp: node_data_def)
    have "map (node_data (nodes q')) r = map (node_data ?m) r"
      using dist by (intro map_cong) (auto simp: q')
    with xs(1) ys ch show ?thesis by (intro data_invI [of _ ys]) simp_all
  qed
  moreover have "prod_inv ?t"
  proof -
    have 1: "\<exists>us vs. n # r = us @ p # b # vs" if "prods s j = PLink p b" for j p b
    proof -
      note pj = that
      obtain us vs where u: "t # n # r = us @ p # b # vs" using P(1) [OF pj] ch by auto
      show ?thesis
      proof (cases us)
        case Nil
        then have "(t, n) \<in> pending (prods s)" using u pj by auto
        then show ?thesis using np by simp
      next
        case (Cons u' us')
        then show ?thesis using u by auto
      qed
    qed
    have 3: "b \<notin> set (n # r) \<and> (\<exists>y. nodes q' b = Some \<lparr>dataPtr = Some y, nextPtr = None\<rparr>)"
      if "prods s j = PNew b" for j b
      using P(3,4) [OF that] ch by (auto simp: q')
    show ?thesis unfolding prod_inv_def using 1 3 P(2,5) ch by simp
  qed
  moreover have "cons_inv ?t" by (simp add: cons_inv_def)
  ultimately show ?thesis by (simp add: msys_inv_def)
qed

lemma mpsc_step_inv: "mpsc_step s t \<Longrightarrow> msys_inv s \<Longrightarrow> msys_inv t"
proof (induction rule: mpsc_step.induct)
  case (c_load s n)
  then have "cons_inv (s\<lparr>cons := CTake n\<rparr>)"
    using load_next_neighbour [of s n] by (auto simp: msys_inv_def cons_inv_def)
  moreover have "list_inv (s\<lparr>cons := CTake n\<rparr>) = list_inv s" by (simp add: list_inv_def)
  moreover have "data_inv (s\<lparr>cons := CTake n\<rparr>) = data_inv s" by (simp add: data_inv_def)
  moreover have "prod_inv (s\<lparr>cons := CTake n\<rparr>) = prod_inv s" by (simp add: prod_inv_def)
  ultimately show ?case using c_load.prems by (simp add: msys_inv_def)
qed (blast intro: step_new_inv step_exchange_inv step_link_inv step_take_inv)+

lemma reachable_msys_inv: "mpsc_reachable s \<Longrightarrow> msys_inv s"
  by (induction rule: mpsc_reachable.induct) (auto intro: msys_inv_init mpsc_step_inv)

text \<open>
  C3: no lock is needed for delivery in order: however the steps of the producers and the
  consumer interleave, what the consumer has received is a prefix of the objects in the order
  of their producers' exchanges.  Nothing is lost, duplicated or reordered.
\<close>

theorem mpsc_fifo:
  assumes "mpsc_reachable s"
  shows "\<exists>rest. enqd s = deqd s @ rest"
proof -
  have "data_inv s" using msys_invD(2) [OF reachable_msys_inv [OF assms]] .
  then show ?thesis by (elim data_invE) blast
qed

text \<open>
  C21: no operation touches freed memory: a producer that links finds its predecessor, the
  consumer finds the tail node, and the node it loaded with its object.
\<close>

theorem mpsc_memory_safe:
  assumes "mpsc_reachable s"
  shows "(\<forall>i p a. prods s i = PLink p a \<longrightarrow> (\<exists>q'. link_next p a (queue s) = Inr q')) \<and>
         (\<exists>r. load_next (queue s) = Inr r) \<and>
         (\<forall>n. cons s = CTake n \<longrightarrow> (\<exists>r. take_next n (queue s) = Inr r))"
proof -
  have inv: "msys_inv s" by (rule reachable_msys_inv [OF assms])
  note L = list_invD [OF msys_invD(1) [OF inv]] and P = prod_invD [OF msys_invD(3) [OF inv]]
  have in_dom: "\<exists>nd. nodes (queue s) a = Some nd" if "a \<in> set (chain s)" for a
    using linked_in_dom [OF L(1) that] .
  have "\<exists>q'. link_next p a (queue s) = Inr q'" if "prods s i = PLink p a" for i p a
    using P(1) [OF that] in_dom [of p] by (auto simp: link_next_def)
  moreover have "\<exists>nd. nodes (queue s) (tailPtr (queue s)) = Some nd"
    using in_dom [of "hd (chain s)"] L(3,4) hd_in_set [of "chain s"] by simp
  then have "\<exists>r. load_next (queue s) = Inr r" by (auto simp: load_next_def)
  moreover have "\<exists>r. take_next n (queue s) = Inr r" if "cons s = CTake n" for n
    using take_next_result [OF inv that] by metis
  ultimately show ?thesis by blast
qed

text \<open>
  When no producer is inside \<^verbatim>\<open>enqueue\<close>, the consumer sees the queue as empty exactly
  when everything enqueued was delivered: nothing stays behind unreachable.
\<close>

theorem mpsc_quiescent_empty:
  assumes "mpsc_reachable s" and "\<forall>i. prods s i = PIdle" and "cons s = CIdle"
  shows "queue_empty (queue s) = Inr (enqd s = deqd s)"
proof -
  have inv: "msys_inv s" by (rule reachable_msys_inv [OF assms(1)])
  note L = list_invD [OF msys_invD(1) [OF inv]]
  have none: "pending (prods s) = {}" using assms(2) by (auto simp: pending_def)
  obtain t r where ch: "chain s = t # r" using L(3) by (cases "chain s") auto
  obtain xs where xs: "enqd s = deqd s @ xs" "map (node_data (nodes (queue s))) r = map Some xs"
    using msys_invD(2) [OF inv] ch by (auto elim: data_invE)
  have "\<exists>nd. nodes (queue s) t = Some nd \<and> (nextPtr nd = None \<longleftrightarrow> r = [])"
    using L(1) ch none by (cases r) auto
  moreover have "r = [] \<longleftrightarrow> xs = []" using xs(2) by (metis Nil_is_map_conv)
  ultimately show ?thesis
    using xs(1) L(4) ch by (auto simp: queue_empty_def load_next_def)
qed

section \<open>The sequential queue\<close>

text \<open>
  \<open>holds q xs\<close>: with nobody inside an operation the heap of \<open>q\<close> is a well-formed list of
  the objects \<open>xs\<close>.  It is the invariant above on a system at rest.
\<close>

definition at_rest :: "'a mpsc \<Rightarrow> nat list \<Rightarrow> 'a list \<Rightarrow> 'a msys" where
  "at_rest q ns xs = \<lparr>queue = q, prods = (\<lambda>_. PIdle), cons = CIdle, chain = ns, enqd = xs, deqd = []\<rparr>"

definition holds :: "'a mpsc \<Rightarrow> 'a list \<Rightarrow> bool" where
  "holds q xs \<longleftrightarrow> (\<exists>ns. msys_inv (at_rest q ns xs))"

lemma msys_inv_delivered:
  assumes "msys_inv (s\<lparr>enqd := d @ xs, deqd := d\<rparr>)"
  shows "msys_inv (s\<lparr>enqd := xs, deqd := []\<rparr>)"
  using assms by (simp add: msys_inv_def list_inv_def data_inv_def prod_inv_def cons_inv_def)

lemma holds_new: "holds mk_MPSCQueue []"
  using msys_inv_init unfolding holds_def init_msys_def at_rest_def by blast

lemma holds_enqueue:
  assumes "holds q xs"
  shows "\<exists>q'. enqueue x q = Inr q' \<and> holds q' (xs @ [x])"
proof -
  obtain ns where inv: "msys_inv (at_rest q ns xs)" using assms by (auto simp: holds_def)
  obtain a q1 where n: "new_node x q = (a, q1)" by (cases "new_node x q")
  obtain prev q2 where e: "exchange_head a q1 = (prev, q2)" by (cases "exchange_head a q1")
  have x: "node_data (nodes q1) a = Some x" using n by (auto simp: new_node_def node_data_def)
  let ?s1 = "(at_rest q ns xs)\<lparr>queue := q1, prods := (prods (at_rest q ns xs))(0 := PNew a)\<rparr>"
  have i1: "msys_inv ?s1"
    by (rule step_new_inv [OF inv, of 0 x a q1]) (simp_all add: at_rest_def n)
  let ?s2 = "?s1\<lparr>queue := q2, prods := (prods ?s1)(0 := PLink prev a),
                 chain := chain ?s1 @ [a], enqd := enqd ?s1 @ [x]\<rparr>"
  have i2: "msys_inv ?s2"
    by (rule step_exchange_inv [OF i1, of 0 a prev q2 x]) (simp_all add: at_rest_def e x)
  have "\<exists>us vs. chain ?s2 = us @ prev # a # vs"
    using prod_invD(1) [OF msys_invD(3) [OF i2], of 0 prev a] by (simp add: at_rest_def)
  then have "prev \<in> set (chain ?s2)" by (metis in_set_conv_decomp)
  then obtain nd where "nodes q2 prev = Some nd"
    using linked_in_dom [OF list_invD(1) [OF msys_invD(1) [OF i2]]] by auto
  then obtain q3 where l: "link_next prev a q2 = Inr q3" by (auto simp: link_next_def)
  have "msys_inv (?s2\<lparr>queue := q3, prods := (prods ?s2)(0 := PIdle)\<rparr>)"
    by (rule step_link_inv [OF i2, of 0 prev a q3]) (simp_all add: at_rest_def l)
  moreover have "?s2\<lparr>queue := q3, prods := (prods ?s2)(0 := PIdle)\<rparr> = at_rest q3 (ns @ [a]) (xs @ [x])"
    by (simp add: at_rest_def fun_eq_iff)
  ultimately have "holds q3 (xs @ [x])" unfolding holds_def by metis
  then show ?thesis using n e l by (simp add: enqueue_def)
qed

lemma holds_load:
  assumes "msys_inv (at_rest q ns xs)"
  shows "load_next q = Inr (case ns of [] \<Rightarrow> None | [_] \<Rightarrow> None | _ # n # _ \<Rightarrow> Some n)"
    and "ns \<noteq> []" and "length ns = Suc (length xs)"
proof -
  note L = list_invD [OF msys_invD(1) [OF assms]]
  have np: "pending (prods (at_rest q ns xs)) = {}" by (simp add: at_rest_def pending_def)
  have l: "linked (nodes q) {} ns" using L(1) np by (simp add: at_rest_def)
  show "ns \<noteq> []" using L(3) by (simp add: at_rest_def)
  then have "hd ns = tailPtr q" using L(4) by (simp add: at_rest_def)
  then show "load_next q = Inr (case ns of [] \<Rightarrow> None | [_] \<Rightarrow> None | _ # n # _ \<Rightarrow> Some n)"
  proof (cases ns)
    case (Cons t r)
    with l \<open>hd ns = tailPtr q\<close> show ?thesis by (cases r) (auto simp: load_next_def)
  qed (use \<open>ns \<noteq> []\<close> in simp)
  have "\<exists>ys. xs = ys \<and> map (node_data (nodes q)) (tl ns) = map Some ys"
    using msys_invD(2) [OF assms] by (auto simp: data_inv_def at_rest_def)
  then have "length (tl ns) = length xs" by (metis length_map)
  then show "length ns = Suc (length xs)" using \<open>ns \<noteq> []\<close> by (cases ns) auto
qed

lemma holds_dequeue_empty:
  assumes "holds q []"
  shows "dequeue q = Inr (None, q)" and "queue_empty q = Inr True"
proof -
  obtain ns where inv: "msys_inv (at_rest q ns [])" using assms by (auto simp: holds_def)
  then obtain t where "ns = [t]" using holds_load(2,3) [OF inv] by (cases ns) auto
  then have "load_next q = Inr None" using holds_load(1) [OF inv] by simp
  then show "dequeue q = Inr (None, q)" "queue_empty q = Inr True"
    by (simp_all add: dequeue_def queue_empty_def)
qed

lemma holds_dequeue:
  assumes "holds q (x # xs)"
  shows "\<exists>q'. dequeue q = Inr (Some x, q') \<and> holds q' xs" and "queue_empty q = Inr False"
proof -
  obtain ns where inv: "msys_inv (at_rest q ns (x # xs))" using assms by (auto simp: holds_def)
  note h = holds_load [OF inv]
  obtain t n r where ns: "ns = t # n # r" using h(3) by (auto simp: length_Suc_conv)
  then have l: "load_next q = Inr (Some n)" using h(1) by simp
  then show "queue_empty q = Inr False" by (simp add: queue_empty_def)
  let ?s1 = "(at_rest q ns (x # xs))\<lparr>cons := CTake n\<rparr>"
  have "mpsc_step (at_rest q ns (x # xs)) ?s1"
    by (rule mpsc_step.c_load) (simp_all add: at_rest_def l)
  then have i1: "msys_inv ?s1" using inv by (rule mpsc_step_inv)
  have pc1: "cons ?s1 = CTake n" by simp
  obtain t' r' nd y where "chain ?s1 = t' # n # r'" and nd: "nodes (queue ?s1) n = Some nd" "dataPtr nd = Some y"
    and op: "take_next n (queue ?s1) = Inr (y, (queue ?s1)\<lparr>nodes :=
        ((nodes (queue ?s1))(n \<mapsto> nd\<lparr>dataPtr := None\<rparr>))(t' := None), tailPtr := n\<rparr>)"
    by (rule take_next_result [OF i1 pc1])
  then obtain q' where take: "take_next n (queue ?s1) = Inr (y, q')" by blast
  have "map (node_data (nodes q)) (n # r) = map Some (x # xs)"
    using msys_invD(2) [OF inv] ns by (auto simp: data_inv_def at_rest_def)
  then have y: "y = x" using nd by (simp add: node_data_def at_rest_def)
  have "msys_inv (?s1\<lparr>queue := q', cons := CIdle, chain := tl (chain ?s1), deqd := deqd ?s1 @ [y]\<rparr>)"
    by (rule step_take_inv [OF i1 pc1 take])
  then have "msys_inv ((at_rest q' (tl ns) xs)\<lparr>enqd := [x] @ xs, deqd := [x]\<rparr>)"
    by (simp add: at_rest_def y)
  then have "msys_inv ((at_rest q' (tl ns) xs)\<lparr>enqd := xs, deqd := []\<rparr>)"
    by (rule msys_inv_delivered)
  then have "holds q' xs" by (auto simp: holds_def at_rest_def)
  moreover have "dequeue q = Inr (Some x, q')"
    using l take y by (simp add: dequeue_def at_rest_def)
  ultimately show "\<exists>q'. dequeue q = Inr (Some x, q') \<and> holds q' xs" by blast
qed

lemma walk_linked:
  "linked m {} (a # ns) \<Longrightarrow> map (node_data m) ns = map Some xs \<Longrightarrow> length ns < fuel \<Longrightarrow>
   walk fuel m a = xs"
proof (induction ns arbitrary: a xs fuel)
  case Nil
  then show ?case by (cases fuel) auto
next
  case (Cons b ns)
  from Cons.prems(2) obtain y ys where xs: "xs = y # ys" by (cases xs) auto
  from Cons.prems(3) obtain f where f: "fuel = Suc f" "length ns < f" by (cases fuel) auto
  have "walk f m b = ys" using Cons.prems xs f by (intro Cons.IH) auto
  moreover obtain nd where "m b = Some nd" "dataPtr nd = Some y"
    using Cons.prems(2) xs node_data_SomeD [of m b y] by auto
  ultimately show ?case using Cons.prems(1) xs f by auto
qed

lemma holds_bound:
  assumes "msys_inv (at_rest q ns xs)"
  shows "length ns \<le> brk q"
proof -
  note L = list_invD [OF msys_invD(1) [OF assms]]
  have "set ns \<subseteq> {..<brk q}" using L(6,7) by (auto simp: at_rest_def)
  then have "card (set ns) \<le> brk q" using card_mono [of "{..<brk q}" "set ns"] by simp
  then show ?thesis using L(2) by (simp add: at_rest_def distinct_card)
qed

lemma holds_length: "holds q xs \<Longrightarrow> length xs < brk q"
  using holds_bound holds_load(3) by (fastforce simp: holds_def)

lemma holds_items: "holds q xs \<Longrightarrow> items q = xs"
proof -
  assume "holds q xs"
  then obtain ns where inv: "msys_inv (at_rest q ns xs)" by (auto simp: holds_def)
  note L = list_invD [OF msys_invD(1) [OF inv]]
  obtain t r where ns: "ns = t # r" using L(3) by (cases ns) (auto simp: at_rest_def)
  have "pending (prods (at_rest q ns xs)) = {}" by (simp add: at_rest_def pending_def)
  then have "linked (nodes q) {} (t # r)" using L(1) ns by (simp add: at_rest_def)
  moreover have "map (node_data (nodes q)) r = map Some xs"
    using msys_invD(2) [OF inv] ns by (auto simp: data_inv_def at_rest_def)
  moreover have "length r < brk q" using holds_bound [OF inv] ns by simp
  ultimately have "walk (brk q) (nodes q) t = xs" by (rule walk_linked)
  then show ?thesis using L(4) ns by (simp add: items_def at_rest_def)
qed

section \<open>The interface of a queue of tasks\<close>

text \<open>
  What the event loop relies on: an invariant, the contents as a list, and operations that act
  on the list at its two ends and never fail under the invariant.
\<close>

locale fifo_queue =
  fixes new :: "'q" and enq :: "'a \<Rightarrow> 'q \<Rightarrow> fault + 'q"
    and deq :: "'q \<Rightarrow> fault + 'a option \<times> 'q" and is_empty :: "'q \<Rightarrow> fault + bool"
    and contents :: "'q \<Rightarrow> 'a list" and wf :: "'q \<Rightarrow> bool"
  assumes wf_new: "wf new" and contents_new: "contents new = []"
    and enq_ok: "wf q \<Longrightarrow> \<exists>q'. enq x q = Inr q' \<and> wf q' \<and> contents q' = contents q @ [x]"
    and deq_Nil: "wf q \<Longrightarrow> contents q = [] \<Longrightarrow> deq q = Inr (None, q)"
    and deq_Cons: "wf q \<Longrightarrow> contents q = x # xs \<Longrightarrow>
           \<exists>q'. deq q = Inr (Some x, q') \<and> wf q' \<and> contents q' = xs"
    and empty_iff: "wf q \<Longrightarrow> is_empty q = Inr (contents q = [])"
begin

lemma deq_cases:
  assumes "wf q"
  obtains (empty) "contents q = []" "deq q = Inr (None, q)"
  | (item) x xs q' where "contents q = x # xs" "deq q = Inr (Some x, q')" "wf q'" "contents q' = xs"
  using assms deq_Nil deq_Cons by (cases "contents q") (simp, metis)

lemma drain_contents:
  "wf q \<Longrightarrow> length (contents q) < fuel \<Longrightarrow>
   \<exists>q'. drain deq fuel q = Some (Inr (contents q, q')) \<and> wf q' \<and> contents q' = []"
proof (induction fuel arbitrary: q)
  case (Suc fuel)
  from \<open>wf q\<close> show ?case
  proof (cases rule: deq_cases)
    case empty
    then show ?thesis using \<open>wf q\<close> by simp
  next
    case (item x xs q')
    then have "length (contents q') < fuel" using Suc.prems(2) by simp
    then obtain q'' where "drain deq fuel q' = Some (Inr (contents q', q''))" "wf q''" "contents q'' = []"
      using Suc.IH [OF item(3)] by blast
    then show ?thesis using item by simp
  qed
qed simp

lemma enq_then_deq:
  assumes "wf q" and "contents q = []"
  shows "\<exists>q' q''. enq x q = Inr q' \<and> deq q' = Inr (Some x, q'') \<and> contents q'' = []"
  using enq_ok [OF assms(1), of x] assms(2) deq_Cons by fastforce

end

definition wf_mpsc :: "'a mpsc \<Rightarrow> bool" where
  "wf_mpsc q \<longleftrightarrow> holds q (items q)"

lemma wf_mpsc_holds: "wf_mpsc q \<and> items q = xs \<longleftrightarrow> holds q xs"
  using holds_items by (auto simp: wf_mpsc_def)

interpretation mpsc: fifo_queue mk_MPSCQueue enqueue dequeue queue_empty items wf_mpsc
proof (unfold_locales, goal_cases)
  case 1
  show ?case using holds_new wf_mpsc_holds by blast
next
  case 2
  show ?case using holds_new wf_mpsc_holds by blast
next
  case (3 q x)
  then show ?case using holds_enqueue [of q "items q" x] wf_mpsc_holds by (metis wf_mpsc_def)
next
  case (4 q)
  then show ?case using holds_dequeue_empty(1) by (simp add: wf_mpsc_def)
next
  case (5 q x xs)
  then show ?case using holds_dequeue(1) [of q x xs] wf_mpsc_holds by (metis wf_mpsc_def)
next
  case (6 q)
  then show ?case
    using holds_dequeue_empty(2) holds_dequeue(2) by (cases "items q") (auto simp: wf_mpsc_def)
qed

text \<open>
  C34: run one at a time, the operations are those of a first-in first-out list: \<^verbatim>\<open>enqueue\<close>
  appends, \<^verbatim>\<open>dequeue\<close> takes the first or reports that there is none, \<^verbatim>\<open>empty\<close> tells which.
\<close>

theorem mpsc_refines_list:
  assumes "holds q xs"
  shows "(\<exists>q'. enqueue x q = Inr q' \<and> holds q' (xs @ [x])) \<and>
         queue_empty q = Inr (xs = []) \<and>
         (case xs of [] \<Rightarrow> dequeue q = Inr (None, q)
          | y # ys \<Rightarrow> (\<exists>q'. dequeue q = Inr (Some y, q') \<and> holds q' ys))"
  using holds_enqueue [OF assms, of x] assms holds_dequeue_empty holds_dequeue
  by (cases xs) auto

lemma destroy_queue_frees:
  assumes "holds q xs"
  shows "\<exists>q'. destroy_queue q = Some (Inr q') \<and> nodes q' = Map.empty"
proof -
  have w: "wf_mpsc q" "items q = xs" using assms wf_mpsc_holds by blast+
  have "length (items q) < brk q" using holds_length [OF assms] w by simp
  then obtain q' where d: "drain dequeue (brk q) q = Some (Inr (xs, q'))" "wf_mpsc q'" "items q' = []"
    using mpsc.drain_contents [OF w(1)] w(2) by blast
  then have "holds q' []" using wf_mpsc_holds by blast
  then obtain ns where inv: "msys_inv (at_rest q' ns [])" by (auto simp: holds_def)
  note L = list_invD [OF msys_invD(1) [OF inv]]
  obtain t where "ns = [t]" using holds_load(2,3) [OF inv] by (cases ns) auto
  then have "headPtr q' = t" "dom (nodes q') = {t}"
    using L(5,6) by (auto simp: at_rest_def fresh_nodes_def)
  then obtain nd where "nodes q' (headPtr q') = Some nd" "nodes q' = [headPtr q' \<mapsto> nd]"
    by (auto simp: dom_eq_singleton_conv)
  then show ?thesis using d(1) by (auto simp: destroy_queue_def)
qed

text \<open>
  The destructor releases every node and every queued object, whatever is still in the
  queue: it delivers no fault, and no node is left on the heap.
\<close>

theorem mpsc_destructor_frees_all:
  assumes "holds q xs"
  shows "\<exists>q'. destroy_queue q = Some (Inr q') \<and> nodes q' = Map.empty"
  using assms by (rule destroy_queue_frees)

section \<open>Witnesses\<close>

definition demo_msys :: "nat msys" where
  "demo_msys = \<lparr>queue = \<lparr>nodes = [0 \<mapsto> \<lparr>dataPtr = None, nextPtr = None\<rparr>,
                                 1 \<mapsto> \<lparr>dataPtr = Some 7, nextPtr = None\<rparr>], headPtr = 1, tailPtr = 0, brk = 2\<rparr>,
    prods = (\<lambda>_. PIdle)(3 := PLink 0 1), cons = CIdle, chain = [0, 1], enqd = [7], deqd = []\<rparr>"

lemma demo_msys_reachable: "mpsc_reachable demo_msys"
proof -
  let ?a = "init_msys :: nat msys"
  let ?q1 = "snd (new_node 7 (queue ?a))"
  let ?b = "?a\<lparr>queue := ?q1, prods := (prods ?a)(3 := PNew 1)\<rparr>"
  have b: "mpsc_reachable ?b"
    by (rule mpsc_reachable.step [OF mpsc_reachable.start], rule mpsc_step.p_new [of _ _ 7])
      (simp_all add: init_msys_def new_node_def mk_MPSCQueue_def)
  have "mpsc_reachable (?b\<lparr>queue := snd (exchange_head 1 (queue ?b)), prods := (prods ?b)(3 := PLink 0 1),
       chain := chain ?b @ [1], enqd := enqd ?b @ [7]\<rparr>)"
    by (rule mpsc_reachable.step [OF b], rule mpsc_step.p_exchange)
      (simp_all add: init_msys_def new_node_def mk_MPSCQueue_def exchange_head_def node_data_def)
  moreover have "?b\<lparr>queue := snd (exchange_head 1 (queue ?b)), prods := (prods ?b)(3 := PLink 0 1),
       chain := chain ?b @ [1], enqd := enqd ?b @ [7]\<rparr> = demo_msys"
    by (simp add: demo_msys_def init_msys_def new_node_def mk_MPSCQueue_def exchange_head_def
        fun_eq_iff)
  ultimately show ?thesis by simp
qed

theorem mpsc_fifo_witness: "\<exists>rest. enqd demo_msys = deqd demo_msys @ rest"
  by (rule mpsc_fifo [OF demo_msys_reachable])

theorem mpsc_memory_safe_witness: "\<exists>q'. link_next 0 1 (queue demo_msys) = Inr q'"
proof -
  have "prods demo_msys 3 = PLink 0 1" by (simp add: demo_msys_def)
  then show ?thesis using mpsc_memory_safe [OF demo_msys_reachable] by blast
qed

theorem mpsc_quiescent_empty_witness: "queue_empty (mk_MPSCQueue :: nat mpsc) = Inr True"
  using mpsc_quiescent_empty [OF mpsc_reachable.start [where 'a = nat]] by (simp add: init_msys_def)

theorem mpsc_refines_list_witness:
  "queue_empty (mk_MPSCQueue :: nat mpsc) = Inr ([] = ([] :: nat list))"
  using mpsc_refines_list [OF holds_new [where 'a = nat]] by simp

theorem mpsc_destructor_frees_all_witness:
  "\<exists>q'. destroy_queue (mk_MPSCQueue :: nat mpsc) = Some (Inr q') \<and> nodes q' = Map.empty"
  by (rule mpsc_destructor_frees_all [OF holds_new])

end
