(* ===== verification/MemoryOrder.thy ===== *)
theory MemoryOrder
  imports MPSCQueue
begin

text \<open>
  The queue of \<^verbatim>\<open>utils/MPSCQueue.h\<close> on a weak memory, with the memory orders that the code gives to
  its atomic accesses.  A thread has a view, the writes that happened before what it does next; an
  atomic location carries the view of the write that was released to it, and a load that acquires
  takes it over.  The only value that can be read late is the null pointer of a node's \<^verbatim>\<open>next_\<close>:
  \<^verbatim>\<open>head_\<close> is only exchanged, which reads the newest value, and \<^verbatim>\<open>tail_\<close> belongs to the consumer.
\<close>

section \<open>Views\<close>

text \<open>The construction of a node, and the store to its \<^verbatim>\<open>next_\<close>.\<close>

datatype event = Made nat | Linked nat

text \<open>Which accesses acquire and release; the code's own orders.\<close>

record orders =
  exchange_acquires :: bool
  exchange_releases :: bool
  link_releases :: bool
  load_acquires :: bool

definition code_orders :: orders where
  "code_orders = \<lparr>exchange_acquires = True, exchange_releases = True, link_releases = True, load_acquires = True\<rparr>"

record 'a wsys =
  sc :: "'a msys"
  pview :: "nat \<Rightarrow> event set"
  cview :: "event set"
  hview :: "event set"
  lview :: "nat \<Rightarrow> event set"

text \<open>All threads have seen the construction of the queue.\<close>

definition init_wsys :: "'a wsys" where
  "init_wsys = \<lparr>sc = init_msys, pview = (\<lambda>_. {Made 0}), cview = {Made 0}, hview = {Made 0}, lview = (\<lambda>_. {})\<rparr>"

text \<open>The part of a view that an access hands over, when its order says so.\<close>

definition released :: "bool \<Rightarrow> event set \<Rightarrow> event set" where
  "released b v = (if b then v else {})"

text \<open>
  The steps: those of \<open>mpsc_step\<close> with what they do to the views, and a load that reads a null
  pointer although the link is there.
\<close>

inductive w_step :: "orders \<Rightarrow> 'a wsys \<Rightarrow> 'a wsys \<Rightarrow> bool" for ord where
  w_new: "prods (sc s) i = PIdle \<Longrightarrow> new_node x (queue (sc s)) = (a, q') \<Longrightarrow>
     w_step ord s (s\<lparr>sc := (sc s)\<lparr>queue := q', prods := (prods (sc s))(i := PNew a)\<rparr>,
                     pview := (pview s)(i := insert (Made a) (pview s i))\<rparr>)"
| w_exchange: "prods (sc s) i = PNew a \<Longrightarrow> exchange_head a (queue (sc s)) = (prev, q') \<Longrightarrow>
     node_data (nodes (queue (sc s))) a = Some x \<Longrightarrow>
     v = pview s i \<union> released (exchange_acquires ord) (hview s) \<Longrightarrow>
     w_step ord s (s\<lparr>sc := (sc s)\<lparr>queue := q', prods := (prods (sc s))(i := PLink prev a),
                              chain := chain (sc s) @ [a], enqd := enqd (sc s) @ [x]\<rparr>,
                     pview := (pview s)(i := v),
                     hview := hview s \<union> released (exchange_releases ord) v\<rparr>)"
| w_link: "prods (sc s) i = PLink prev a \<Longrightarrow> link_next prev a (queue (sc s)) = Inr q' \<Longrightarrow>
     v = insert (Linked prev) (pview s i) \<Longrightarrow>
     w_step ord s (s\<lparr>sc := (sc s)\<lparr>queue := q', prods := (prods (sc s))(i := PIdle)\<rparr>,
                     pview := (pview s)(i := v),
                     lview := (lview s)(prev := released (link_releases ord) v)\<rparr>)"
| w_load: "cons (sc s) = CIdle \<Longrightarrow> load_next (queue (sc s)) = Inr (Some n) \<Longrightarrow>
     w_step ord s (s\<lparr>sc := (sc s)\<lparr>cons := CTake n\<rparr>,
                     cview := cview s \<union> released (load_acquires ord) (lview s (tailPtr (queue (sc s))))\<rparr>)"
| w_load_late: "cons (sc s) = CIdle \<Longrightarrow> load_next (queue (sc s)) = Inr n \<Longrightarrow> w_step ord s s"
| w_take: "cons (sc s) = CTake n \<Longrightarrow> take_next n (queue (sc s)) = Inr (x, q') \<Longrightarrow>
     w_step ord s (s\<lparr>sc := (sc s)\<lparr>queue := q', cons := CIdle, chain := tl (chain (sc s)),
                              deqd := deqd (sc s) @ [x]\<rparr>\<rparr>)"

inductive w_reachable :: "orders \<Rightarrow> 'a wsys \<Rightarrow> bool" for ord where
  start: "w_reachable ord init_wsys"
| step: "w_reachable ord s \<Longrightarrow> w_step ord s t \<Longrightarrow> w_reachable ord t"

text \<open>
  No data race in the next step of any thread: a producer stores to the \<^verbatim>\<open>next_\<close> of a node whose
  construction it has seen; so does the consumer when it loads it; and before it takes the object of
  a node and deletes the tail it has seen that node's construction and the store to the tail.
\<close>

definition race_free :: "'a wsys \<Rightarrow> bool" where
  "race_free s \<longleftrightarrow>
     (\<forall>i prev a. prods (sc s) i = PLink prev a \<longrightarrow> Made prev \<in> pview s i) \<and>
     Made (tailPtr (queue (sc s))) \<in> cview s \<and>
     (\<forall>n. cons (sc s) = CTake n \<longrightarrow> Made n \<in> cview s \<and> Linked (tailPtr (queue (sc s))) \<in> cview s)"

section \<open>The code's orders\<close>

definition view_inv :: "'a wsys \<Rightarrow> bool" where
  "view_inv s \<longleftrightarrow> race_free s \<and> Made (headPtr (queue (sc s))) \<in> hview s \<and>
     (\<forall>i a. prods (sc s) i = PNew a \<longrightarrow> Made a \<in> pview s i) \<and>
     (\<forall>i prev a. prods (sc s) i = PLink prev a \<longrightarrow> Made a \<in> pview s i) \<and>
     (\<forall>p nd n. nodes (queue (sc s)) p = Some nd \<longrightarrow> nextPtr nd = Some n \<longrightarrow> {Linked p, Made n} \<subseteq> lview s p)"

lemma w_step_sc: "w_step ord s t \<Longrightarrow> mpsc_step (sc s) (sc t) \<or> sc t = sc s"
proof (induction rule: w_step.induct)
  case (w_new s i x a q')
  then show ?case using mpsc_step.p_new [of "sc s" i x a q'] by simp
next
  case (w_exchange s i a prev q' x v)
  then show ?case using mpsc_step.p_exchange [of "sc s" i a prev q' x] by simp
next
  case (w_link s i prev a q' v)
  then show ?case using mpsc_step.p_link [of "sc s" i prev a q'] by simp
next
  case (w_load s n)
  then show ?case using mpsc_step.c_load [of "sc s" n] by simp
next
  case (w_take s n x q')
  then show ?case using mpsc_step.c_take [of "sc s" n x q'] by simp
qed simp

lemma w_reachable_sc: "w_reachable ord s \<Longrightarrow> mpsc_reachable (sc s)"
proof (induction rule: w_reachable.induct)
  case start
  then show ?case by (simp add: init_wsys_def mpsc_reachable.start)
next
  case (step s t)
  then show ?case using w_step_sc mpsc_reachable.step by metis
qed

lemma w_step_view:
  assumes "w_step code_orders s t" and inv: "view_inv s"
  shows "view_inv t"
  using assms(1)
proof cases
  case (w_new i x a q')
  then show ?thesis using inv
    by (auto simp: view_inv_def race_free_def new_node_def split: if_splits)
next
  case (w_exchange i a prev q' x v)
  then show ?thesis using inv
    by (auto simp: view_inv_def race_free_def exchange_head_def code_orders_def released_def split: if_splits)
next
  case (w_link i prev a q' v)
  then show ?thesis using inv
    by (auto simp: view_inv_def race_free_def link_next_def code_orders_def released_def split: option.splits if_splits)
next
  case (w_load n)
  then show ?thesis using inv
    by (auto simp: view_inv_def race_free_def load_next_def code_orders_def released_def split: option.splits)
next
  case (w_take n x q')
  then show ?thesis using inv
    by (auto simp: view_inv_def race_free_def take_next_def Let_def split: option.splits if_splits)
qed (use inv in simp)

lemma w_reachable_view: "w_reachable code_orders s \<Longrightarrow> view_inv s"
proof (induction rule: w_reachable.induct)
  case start
  then show ?case by (simp add: view_inv_def race_free_def init_wsys_def init_msys_def mk_MPSCQueue_def)
next
  case (step s t)
  then show ?case using w_step_view by blast
qed

lemma w_race_free: "w_reachable code_orders s \<Longrightarrow> race_free s"
  using w_reachable_view unfolding view_inv_def by blast

text \<open>
  C4: with the memory orders of the code the queue needs no stronger memory.  In every execution on
  a memory that promises only what these orders say, no two threads race for a node: what a thread
  reads, writes or deletes was constructed, and where it deletes also linked, before in the sense
  of the memory model.  And the execution is, late loads of a null pointer apart, one of the
  interleaved steps: what is received is a prefix of what was sent.
\<close>

theorem weak_memory_race_free:
  assumes "w_reachable code_orders s"
  shows "race_free s \<and> mpsc_reachable (sc s) \<and> (\<exists>rest. enqd (sc s) = deqd (sc s) @ rest)"
proof -
  have "mpsc_reachable (sc s)" by (rule w_reachable_sc [OF assms])
  moreover from this have "\<exists>rest. enqd (sc s) = deqd (sc s) @ rest"
    using reachable_msys_inv by (auto simp: msys_inv_def data_inv_def)
  ultimately show ?thesis using w_race_free [OF assms] by simp
qed

section \<open>Weaker orders\<close>

text \<open>A state in which nothing but the given parts has changed; node \<open>1\<close> is made by producer \<open>0\<close>.\<close>

definition w_at :: "nat mpsc \<Rightarrow> (nat \<Rightarrow> prod_pc) \<Rightarrow> cons_pc \<Rightarrow> nat list \<Rightarrow> nat list \<Rightarrow> (nat \<Rightarrow> event set) \<Rightarrow>
    event set \<Rightarrow> event set \<Rightarrow> (nat \<Rightarrow> event set) \<Rightarrow> nat wsys" where
  "w_at q pr c ch en pv cv hv lv =
     \<lparr>sc = \<lparr>queue = q, prods = pr, cons = c, chain = ch, enqd = en, deqd = []\<rparr>, pview = pv, cview = cv, hview = hv, lview = lv\<rparr>"

lemma w_at_simps [simp]:
  "sc (w_at q pr c ch en pv cv hv lv) = \<lparr>queue = q, prods = pr, cons = c, chain = ch, enqd = en, deqd = []\<rparr>"
  "pview (w_at q pr c ch en pv cv hv lv) = pv" "cview (w_at q pr c ch en pv cv hv lv) = cv"
  "hview (w_at q pr c ch en pv cv hv lv) = hv" "lview (w_at q pr c ch en pv cv hv lv) = lv"
  by (simp_all add: w_at_def)

definition q_made :: "nat mpsc" where
  "q_made = \<lparr>nodes = [0 \<mapsto> \<lparr>dataPtr = None, nextPtr = None\<rparr>, 1 \<mapsto> \<lparr>dataPtr = Some 7, nextPtr = None\<rparr>],
    headPtr = 0, tailPtr = 0, brk = 2\<rparr>"

lemma first_exchange:
  "w_reachable ord (w_at (q_made\<lparr>headPtr := 1\<rparr>) ((\<lambda>_. PIdle)(0 := PLink 0 1)) CIdle [0, 1] [7]
     ((\<lambda>_. {Made 0})(0 := {Made 0, Made 1})) {Made 0} ({Made 0} \<union> released (exchange_releases ord) {Made 0, Made 1}) (\<lambda>_. {}))"
proof -
  let ?s1 = "w_at q_made ((\<lambda>_. PIdle)(0 := PNew 1)) CIdle [0] [] ((\<lambda>_. {Made 0})(0 := {Made 0, Made 1})) {Made 0} {Made 0} (\<lambda>_. {})"
  have "w_step ord init_wsys ?s1"
    using w_step.w_new [of init_wsys 0 7 1 q_made ord]
    by (simp add: init_wsys_def init_msys_def new_node_def mk_MPSCQueue_def q_made_def w_at_def insert_commute)
  then have 1: "w_reachable ord ?s1" by (rule w_reachable.step [OF w_reachable.start])
  let ?s2 = "w_at (q_made\<lparr>headPtr := 1\<rparr>) ((\<lambda>_. PIdle)(0 := PLink 0 1)) CIdle [0, 1] [7]
     ((\<lambda>_. {Made 0})(0 := {Made 0, Made 1})) {Made 0} ({Made 0} \<union> released (exchange_releases ord) {Made 0, Made 1}) (\<lambda>_. {})"
  have "?s2 = ?s1\<lparr>sc := (sc ?s1)\<lparr>queue := q_made\<lparr>headPtr := 1\<rparr>, prods := (prods (sc ?s1))(0 := PLink 0 1),
      chain := chain (sc ?s1) @ [1], enqd := enqd (sc ?s1) @ [7]\<rparr>, pview := (pview ?s1)(0 := {Made 0, Made 1}),
      hview := hview ?s1 \<union> released (exchange_releases ord) {Made 0, Made 1}\<rparr>"
    by (simp add: w_at_def)
  also have "w_step ord ?s1 \<dots>"
    by (rule w_step.w_exchange) (auto simp: exchange_head_def q_made_def node_data_def released_def)
  finally have "w_step ord ?s1 ?s2" .
  with 1 show ?thesis by (rule w_reachable.step)
qed

text \<open>The consumer goes to take the object of a node whose construction it may not have seen.\<close>

lemma relaxed_link_races:
  assumes "\<not> (link_releases ord \<and> load_acquires ord)"
  shows "\<exists>s :: nat wsys. w_reachable ord s \<and> \<not> race_free s"
proof -
  define q where "q = projr (link_next 0 1 (q_made\<lparr>headPtr := 1\<rparr>))"
  define v where "v = insert (Linked 0) {Made 0, Made 1}"
  let ?h = "{Made 0} \<union> released (exchange_releases ord) {Made 0, Made 1}" and ?l = "(\<lambda>_. {})(0 := released (link_releases ord) v)"
  let ?s2 = "w_at q (\<lambda>_. PIdle) CIdle [0, 1] [7] ((\<lambda>_. {Made 0})(0 := v)) {Made 0} ?h ?l"
  let ?s3 = "w_at q (\<lambda>_. PIdle) (CTake 1) [0, 1] [7] ((\<lambda>_. {Made 0})(0 := v)) {Made 0} ?h ?l"
  have link: "link_next 0 1 (q_made\<lparr>headPtr := 1\<rparr>) = Inr q" by (simp add: q_def link_next_def q_made_def)
  have idle: "(\<lambda>_. PIdle)(0 := PIdle) = (\<lambda>_. PIdle)" by auto
  have "w_reachable ord ?s2"
    by (rule w_reachable.step [OF first_exchange])
      (use w_step.w_link [of "w_at (q_made\<lparr>headPtr := 1\<rparr>) ((\<lambda>_. PIdle)(0 := PLink 0 1)) CIdle [0, 1] [7]
        ((\<lambda>_. {Made 0})(0 := {Made 0, Made 1})) {Made 0} ?h (\<lambda>_. {})" 0 0 1 q v ord] link
       in \<open>simp add: w_at_def v_def released_def idle\<close>)
  moreover have ld: "load_next q = Inr (Some 1)" "tailPtr q = 0"
    by (simp_all add: q_def link_next_def q_made_def load_next_def)
  have "released (load_acquires ord) (released (link_releases ord) v) = {}" using assms by (auto simp: released_def)
  then have "w_step ord ?s2 ?s3"
    using w_step.w_load [of ?s2 1 ord] ld by (simp add: w_at_def)
  ultimately have "w_reachable ord ?s3" by (rule w_reachable.step)
  moreover have "\<not> race_free ?s3" by (simp add: race_free_def)
  ultimately show ?thesis by blast
qed

text \<open>A second producer links behind the node of the first, whose construction it may not have seen.\<close>

lemma relaxed_exchange_races:
  assumes "\<not> (exchange_acquires ord \<and> exchange_releases ord)"
  shows "\<exists>s :: nat wsys. w_reachable ord s \<and> \<not> race_free s"
proof -
  let ?h = "{Made 0} \<union> released (exchange_releases ord) {Made 0, Made 1}" and ?q = "q_made\<lparr>headPtr := 1\<rparr>"
  let ?pr = "(\<lambda>_. PIdle)(0 := PLink 0 1)" and ?pv = "(\<lambda>_. {Made 0})(0 := {Made 0, Made 1})"
  let ?s1 = "w_at ?q ?pr CIdle [0, 1] [7] ?pv {Made 0} ?h (\<lambda>_. {})"
  define q2 where "q2 = snd (new_node 8 ?q)"
  let ?s2 = "w_at q2 (?pr(1 := PNew 2)) CIdle [0, 1] [7] (?pv(1 := {Made 2, Made 0})) {Made 0} ?h (\<lambda>_. {})"
  have "w_step ord ?s1 ?s2"
    using w_step.w_new [of ?s1 1 8 2 q2 ord] by (simp add: new_node_def q2_def q_made_def w_at_def)
  then have 2: "w_reachable ord ?s2" by (rule w_reachable.step [OF first_exchange])
  define w where "w = {Made 2, Made 0} \<union> released (exchange_acquires ord) ?h"
  define s3 where "s3 = ?s2\<lparr>sc := (sc ?s2)\<lparr>queue := q2\<lparr>headPtr := 2\<rparr>, prods := (prods (sc ?s2))(1 := PLink 1 2),
    chain := chain (sc ?s2) @ [2], enqd := enqd (sc ?s2) @ [8]\<rparr>, pview := (pview ?s2)(1 := w),
    hview := hview ?s2 \<union> released (exchange_releases ord) w\<rparr>"
  have "w_step ord ?s2 s3" unfolding s3_def
    by (rule w_step.w_exchange) (simp_all add: q2_def new_node_def q_made_def exchange_head_def node_data_def w_def)
  with 2 have "w_reachable ord s3" by (rule w_reachable.step)
  moreover have "Made 1 \<notin> w" using assms by (auto simp: w_def released_def)
  then have "\<not> race_free s3" by (auto simp: race_free_def s3_def)
  ultimately show ?thesis by blast
qed


section \<open>A concrete execution\<close>

theorem weak_memory_race_free_witness:
  "\<exists>s :: nat wsys. w_reachable code_orders s \<and> race_free s \<and> enqd (sc s) = [7]"
  using first_exchange [of code_orders] weak_memory_race_free [OF first_exchange] by fastforce


end
