(* ===== verification/EventDispatcher.thy ===== *)
theory EventDispatcher
  imports DbException
begin

text \<open>
  The event dispatcher of \<^verbatim>\<open>event/EventDispatcher.h\<close> and \<^verbatim>\<open>event/EventDispatcher.cpp\<close>: the
  event mask of one file descriptor, the callbacks, and the dispatch of what happened.  The
  event loop it reports to is a parameter (\<open>upd\<close> for \<^verbatim>\<open>loop_->updateEventDispatcher(this)\<close>,
  \<open>rem\<close> for \<^verbatim>\<open>loop_->removeEventDispatcher(this)\<close>), whose contract is a locale.
\<close>

unbundle bit_operations_syntax

section \<open>Event masks\<close>

text \<open>The bits of \<^verbatim>\<open>poll.h\<close>, which the code asserts to be those of \<^verbatim>\<open>epoll\<close>.\<close>

type_synonym mask = "32 word"

definition POLLIN :: mask where "POLLIN = 0x1"
definition POLLPRI :: mask where "POLLPRI = 0x2"
definition POLLOUT :: mask where "POLLOUT = 0x4"
definition POLLERR :: mask where "POLLERR = 0x8"
definition POLLHUP :: mask where "POLLHUP = 0x10"
definition POLLNVAL :: mask where "POLLNVAL = 0x20"
definition POLLRDHUP :: mask where "POLLRDHUP = 0x2000"

lemmas poll_bits = POLLIN_def POLLPRI_def POLLOUT_def POLLERR_def POLLHUP_def POLLNVAL_def
  POLLRDHUP_def

definition kNoneEvent :: mask where "kNoneEvent = 0"
definition kReadEvent :: mask where "kReadEvent = POLLIN OR POLLPRI"
definition kWriteEvent :: mask where "kWriteEvent = POLLOUT"

lemmas event_bits = kNoneEvent_def kReadEvent_def kWriteEvent_def poll_bits

section \<open>The dispatcher object\<close>

record 'cb dispatcher =
  dloop :: nat
  fd :: int
  events :: mask
  realEvents :: mask
  dstate :: int
  addedToLoop :: bool
  readCallback :: "'cb option"
  writeCallback :: "'cb option"
  errorCallback :: "'cb option"
  closeCallback :: "'cb option"
  eventCallback :: "'cb option"
  tieObj :: "nat option"
  tied :: bool

definition mk_EventDispatcher :: "nat \<Rightarrow> int \<Rightarrow> 'cb dispatcher" where
  "mk_EventDispatcher l f =
     \<lparr>dloop = l, fd = f, events = 0, realEvents = 0, dstate = -1, addedToLoop = False,
      readCallback = None, writeCallback = None, errorCallback = None, closeCallback = None,
      eventCallback = None, tieObj = None, tied = False\<rparr>"

definition setReadCallback :: "'cb option \<Rightarrow> 'cb dispatcher \<Rightarrow> 'cb dispatcher" where
  "setReadCallback cb d = d\<lparr>readCallback := cb\<rparr>"

definition setWriteCallback :: "'cb option \<Rightarrow> 'cb dispatcher \<Rightarrow> 'cb dispatcher" where
  "setWriteCallback cb d = d\<lparr>writeCallback := cb\<rparr>"

definition setErrorCallback :: "'cb option \<Rightarrow> 'cb dispatcher \<Rightarrow> 'cb dispatcher" where
  "setErrorCallback cb d = d\<lparr>errorCallback := cb\<rparr>"

definition setCloseCallback :: "'cb option \<Rightarrow> 'cb dispatcher \<Rightarrow> 'cb dispatcher" where
  "setCloseCallback cb d = d\<lparr>closeCallback := cb\<rparr>"

definition setEventCallback :: "'cb option \<Rightarrow> 'cb dispatcher \<Rightarrow> 'cb dispatcher" where
  "setEventCallback cb d = d\<lparr>eventCallback := cb\<rparr>"

definition setRealEvents :: "mask \<Rightarrow> 'cb dispatcher \<Rightarrow> 'cb dispatcher" where
  "setRealEvents r d = d\<lparr>realEvents := r\<rparr>"

definition setState :: "int \<Rightarrow> 'cb dispatcher \<Rightarrow> 'cb dispatcher" where
  "setState i d = d\<lparr>dstate := i\<rparr>"

definition isNoneEvent :: "'cb dispatcher \<Rightarrow> bool" where
  "isNoneEvent d \<longleftrightarrow> events d = kNoneEvent"

definition isReading :: "'cb dispatcher \<Rightarrow> bool" where
  "isReading d \<longleftrightarrow> events d AND kReadEvent \<noteq> 0"

definition isWriting :: "'cb dispatcher \<Rightarrow> bool" where
  "isWriting d \<longleftrightarrow> events d AND kWriteEvent \<noteq> 0"

text \<open>\<^verbatim>\<open>tie\<close> keeps a weak reference to the object; a null pointer ties to nothing alive.\<close>

definition tie :: "nat option \<Rightarrow> 'cb dispatcher \<Rightarrow> 'cb dispatcher" where
  "tie obj d = d\<lparr>tieObj := obj, tied := True\<rparr>"

section \<open>Operations that change the mask\<close>

type_synonym ('cb, 'p) registrar = "'cb dispatcher \<Rightarrow> 'p \<Rightarrow> fault + 'cb dispatcher \<times> 'p"

definition updateEvents :: "('cb, 'p) registrar \<Rightarrow> mask \<Rightarrow> ('cb, 'p) registrar" where
  "updateEvents upd ev d p = upd (d\<lparr>events := ev\<rparr>) p"

definition disableAll :: "('cb, 'p) registrar \<Rightarrow> ('cb, 'p) registrar" where
  "disableAll upd d p = upd (d\<lparr>events := kNoneEvent\<rparr>) p"

definition enableReading :: "('cb, 'p) registrar \<Rightarrow> ('cb, 'p) registrar" where
  "enableReading upd d p = upd (d\<lparr>events := events d OR kReadEvent\<rparr>) p"

definition enableWriting :: "('cb, 'p) registrar \<Rightarrow> ('cb, 'p) registrar" where
  "enableWriting upd d p = upd (d\<lparr>events := events d OR kWriteEvent\<rparr>) p"

definition disableReading :: "('cb, 'p) registrar \<Rightarrow> ('cb, 'p) registrar" where
  "disableReading upd d p = upd (d\<lparr>events := events d AND NOT kReadEvent\<rparr>) p"

definition disableWriting :: "('cb, 'p) registrar \<Rightarrow> ('cb, 'p) registrar" where
  "disableWriting upd d p = upd (d\<lparr>events := events d AND NOT kWriteEvent\<rparr>) p"

definition remove_dispatcher :: "('cb, 'p) registrar \<Rightarrow> ('cb, 'p) registrar" where
  "remove_dispatcher rem d p =
     (if events d \<noteq> kNoneEvent then Inl AssertFail else rem (d\<lparr>addedToLoop := False\<rparr>) p)"

section \<open>Dispatch\<close>

text \<open>
  The callbacks run user code on a state \<open>'s\<close>, of which the dispatcher is a part (\<open>dsp\<close>): what
  a callback did to it is visible to the tests after it.
\<close>

definition run_opt :: "('cb \<Rightarrow> ('s, fault) act) \<Rightarrow> 'cb option \<Rightarrow> ('s, fault) act" where
  "run_opt run cb s = (case cb of None \<Rightarrow> skip s | Some c \<Rightarrow> run c s)"

definition handleEventSafely ::
  "('s \<Rightarrow> 'cb dispatcher) \<Rightarrow> ('cb \<Rightarrow> ('s, fault) act) \<Rightarrow> ('s, fault) act" where
  "handleEventSafely dsp run s =
     (let d = dsp s; re = realEvents d in
      case eventCallback d of
        Some c \<Rightarrow> run c s
      | None \<Rightarrow>
          if re AND POLLHUP \<noteq> 0 \<and> re AND POLLIN = 0 then run_opt run (closeCallback d) s
          else if re AND (POLLNVAL OR POLLERR) \<noteq> 0 then run_opt run (errorCallback d) s
          else
            andThen
              (\<lambda>s. if realEvents (dsp s) AND (POLLIN OR POLLPRI OR POLLRDHUP) \<noteq> 0
                   then run_opt run (readCallback (dsp s)) s else skip s)
              (\<lambda>s. if realEvents (dsp s) AND POLLOUT \<noteq> 0
                   then run_opt run (writeCallback (dsp s)) s else skip s) s)"

text \<open>\<open>alive\<close> tells whether the object a weak reference points to still exists.\<close>

definition handleEvent ::
  "('s \<Rightarrow> 'cb dispatcher) \<Rightarrow> ('cb \<Rightarrow> ('s, fault) act) \<Rightarrow> ('s \<Rightarrow> nat \<Rightarrow> bool) \<Rightarrow> ('s, fault) act" where
  "handleEvent dsp run alive s =
     (let d = dsp s in
      if events d = kNoneEvent then skip s
      else if tied d then
        (case tieObj d of
           None \<Rightarrow> skip s
         | Some obj \<Rightarrow> if alive s obj then handleEventSafely dsp run s else skip s)
      else handleEventSafely dsp run s)"

section \<open>The contract of the event loop\<close>

text \<open>
  \<open>sync d p\<close>: the poller \<open>p\<close> watches exactly the mask of \<open>d\<close>; \<open>known d p\<close>: the poller and
  the dispatcher agree on whether the descriptor is watched, the mask may be out of date.
  \<^verbatim>\<open>updateEventDispatcher\<close> turns the second into the first, \<^verbatim>\<open>removeEventDispatcher\<close> ends the
  watch.
\<close>

locale event_registry =
  fixes upd :: "('cb, 'p) registrar" and rem :: "('cb, 'p) registrar"
    and sync :: "'cb dispatcher \<Rightarrow> 'p \<Rightarrow> bool" and known :: "'cb dispatcher \<Rightarrow> 'p \<Rightarrow> bool"
    and detached :: "'cb dispatcher \<Rightarrow> 'p \<Rightarrow> bool"
  assumes sync_known: "sync d p \<Longrightarrow> known (d\<lparr>events := ev\<rparr>) p"
    and sync_added: "sync d p \<Longrightarrow> sync (d\<lparr>addedToLoop := b\<rparr>) p"
    and upd_ok: "known d p \<Longrightarrow>
           \<exists>d' p'. upd d p = Inr (d', p') \<and> sync d' p' \<and> events d' = events d"
    and rem_ok: "sync d p \<Longrightarrow> isNoneEvent d \<Longrightarrow> \<exists>d' p'. rem d p = Inr (d', p') \<and> detached d' p'"
begin

lemma enableReading_ok:
  assumes "sync d p"
  shows "\<exists>d' p'. enableReading upd d p = Inr (d', p') \<and> sync d' p' \<and>
           isReading d' \<and> isWriting d' = isWriting d"
proof -
  obtain d' p' where u: "enableReading upd d p = Inr (d', p')" "sync d' p'"
    "events d' = events d OR kReadEvent"
    using upd_ok [OF sync_known [OF assms]] by (fastforce simp: enableReading_def)
  have "kReadEvent \<noteq> 0" "kReadEvent AND kWriteEvent = 0" by (simp_all add: event_bits)
  with u show ?thesis
    by (auto simp: isReading_def isWriting_def word_and_or_left_nz word_or_and_disjoint)
qed

lemma enableWriting_ok:
  assumes "sync d p"
  shows "\<exists>d' p'. enableWriting upd d p = Inr (d', p') \<and> sync d' p' \<and>
           isWriting d' \<and> isReading d' = isReading d"
proof -
  obtain d' p' where u: "enableWriting upd d p = Inr (d', p')" "sync d' p'"
    "events d' = events d OR kWriteEvent"
    using upd_ok [OF sync_known [OF assms]] by (fastforce simp: enableWriting_def)
  have "kWriteEvent \<noteq> 0" "kWriteEvent AND kReadEvent = 0" by (simp_all add: event_bits)
  with u show ?thesis
    by (auto simp: isReading_def isWriting_def word_and_or_left_nz word_or_and_disjoint)
qed

lemma disableReading_ok:
  assumes "sync d p"
  shows "\<exists>d' p'. disableReading upd d p = Inr (d', p') \<and> sync d' p' \<and>
           \<not> isReading d' \<and> isWriting d' = isWriting d"
proof -
  obtain d' p' where u: "disableReading upd d p = Inr (d', p')" "sync d' p'"
    "events d' = events d AND NOT kReadEvent"
    using upd_ok [OF sync_known [OF assms]] by (fastforce simp: disableReading_def)
  have "kReadEvent AND kWriteEvent = 0" by (simp add: event_bits)
  with u show ?thesis
    by (auto simp: isReading_def isWriting_def word_and_not_self word_and_not_and_disjoint)
qed

lemma disableWriting_ok:
  assumes "sync d p"
  shows "\<exists>d' p'. disableWriting upd d p = Inr (d', p') \<and> sync d' p' \<and>
           \<not> isWriting d' \<and> isReading d' = isReading d"
proof -
  obtain d' p' where u: "disableWriting upd d p = Inr (d', p')" "sync d' p'"
    "events d' = events d AND NOT kWriteEvent"
    using upd_ok [OF sync_known [OF assms]] by (fastforce simp: disableWriting_def)
  have "kWriteEvent AND kReadEvent = 0" by (simp add: event_bits)
  with u show ?thesis
    by (auto simp: isReading_def isWriting_def word_and_not_self word_and_not_and_disjoint)
qed

lemma disableAll_ok:
  assumes "sync d p"
  shows "\<exists>d' p'. disableAll upd d p = Inr (d', p') \<and> sync d' p' \<and> isNoneEvent d'"
  using upd_ok [OF sync_known [OF assms, of kNoneEvent]]
  by (fastforce simp: disableAll_def isNoneEvent_def)

lemma shutdown_ok:
  assumes "sync d p"
  shows "\<exists>d' p'. obind (disableAll upd d p) (\<lambda>(d1, p1). remove_dispatcher rem d1 p1) = Inr (d', p') \<and>
           detached d' p'"
proof -
  obtain d1 p1 where d1: "disableAll upd d p = Inr (d1, p1)" "sync d1 p1" "isNoneEvent d1"
    using disableAll_ok [OF assms] by blast
  have "isNoneEvent (d1\<lparr>addedToLoop := False\<rparr>)" using d1(3) by (simp add: isNoneEvent_def)
  then obtain d2 p2 where "rem (d1\<lparr>addedToLoop := False\<rparr>) p1 = Inr (d2, p2)" "detached d2 p2"
    using rem_ok [OF sync_added [OF d1(2)]] by blast
  then show ?thesis using d1 by (simp add: remove_dispatcher_def isNoneEvent_def)
qed

end

section \<open>Which callbacks an event runs\<close>

text \<open>Running a callback as an entry in a log, on a dispatcher that the callbacks leave alone.\<close>

definition log_run :: "'cb \<Rightarrow> ('cb dispatcher \<times> 'cb list, fault) act" where
  "log_run cb s = ((fst s, snd s @ [cb]), None)"

definition opt_list :: "'a option \<Rightarrow> 'a list" where
  "opt_list x = (case x of None \<Rightarrow> [] | Some y \<Rightarrow> [y])"

lemma run_opt_log [simp]: "run_opt log_run cb (d, l) = ((d, l @ opt_list cb), None)"
  by (cases cb) (simp_all add: run_opt_def log_run_def opt_list_def)

definition dispatches :: "(nat \<Rightarrow> bool) \<Rightarrow> 'cb dispatcher \<Rightarrow> bool" where
  "dispatches alive d \<longleftrightarrow>
     events d \<noteq> kNoneEvent \<and> (tied d \<longrightarrow> (\<exists>obj. tieObj d = Some obj \<and> alive obj))"

text \<open>
  A dispatcher with an empty mask, or tied to an object that is gone, runs no callback.
  Otherwise the general callback, when set, is the only one; a hang-up with nothing to read
  runs the close callback only; an invalid or failed descriptor the error callback only; and
  in all other cases reading comes before writing, each when its bits are set.
\<close>

theorem dispatch_order:
  "handleEvent fst log_run (\<lambda>_. alive) (d, []) =
   ((d, if \<not> dispatches alive d then []
        else if eventCallback d \<noteq> None then opt_list (eventCallback d)
        else if realEvents d AND POLLHUP \<noteq> 0 \<and> realEvents d AND POLLIN = 0
        then opt_list (closeCallback d)
        else if realEvents d AND (POLLNVAL OR POLLERR) \<noteq> 0
        then opt_list (errorCallback d)
        else (if realEvents d AND (POLLIN OR POLLPRI OR POLLRDHUP) \<noteq> 0
              then opt_list (readCallback d) else []) @
             (if realEvents d AND POLLOUT \<noteq> 0 then opt_list (writeCallback d) else [])), None)"
proof -
  have ev: "opt_list (Some c) = [c]" for c :: 'a
    by (simp add: opt_list_def)
  show ?thesis
    by (cases "tieObj d"; cases "eventCallback d")
      (simp_all add: handleEvent_def handleEventSafely_def dispatches_def Let_def ev
        log_run_def [of _ "(d, [])"] andThen_def)
qed

end
