(* ===== verification/EpollPoller.thy ===== *)
theory EpollPoller
  imports EventDispatcher
begin

text \<open>
  The poller of \<^verbatim>\<open>poll/EpollPoller.cpp\<close> and the three operations by which
  \<^verbatim>\<open>event/EventLoop.cpp\<close> hands a dispatcher to it.  The kernel is a parameter: \<open>ctl\<close> is the
  system call \<^verbatim>\<open>epoll_ctl\<close> on a kernel state \<open>'k\<close> (its result tells whether it succeeded), and
  the events of \<^verbatim>\<open>epoll_wait\<close> are an argument of \<open>poll\<close>.  The documented behaviour of
  \<^verbatim>\<open>epoll_ctl\<close> is the locale \<open>epoll_kernel\<close>.
\<close>

section \<open>The poller and the system call\<close>

datatype epoll_op = EPOLL_CTL_ADD | EPOLL_CTL_MOD | EPOLL_CTL_DEL

type_synonym addr = nat
type_synonym 'k epoll_ctl = "'k \<Rightarrow> epoll_op \<Rightarrow> int \<Rightarrow> mask \<Rightarrow> addr \<Rightarrow> 'k \<times> bool"

record 'k poller =
  kern :: 'k
  nevents :: nat
  ploop :: "nat option"

definition kInitEventListSize :: nat where "kInitEventListSize = 16"
definition kNew :: int where "kNew = -1"
definition kAdded :: int where "kAdded = 1"
definition kDeleted :: int where "kDeleted = 2"

lemmas poller_states = kNew_def kAdded_def kDeleted_def

text \<open>\<open>k\<close> is the instance that \<^verbatim>\<open>epoll_create1\<close> made, with nothing in it.\<close>

definition mk_EpollPoller :: "'k \<Rightarrow> nat \<Rightarrow> 'k poller" where
  "mk_EpollPoller k l = \<lparr>kern = k, nevents = kInitEventListSize, ploop = Some l\<rparr>"

text \<open>\<open>inloop l\<close> tells whether the calling thread is the thread of the loop \<open>l\<close>.\<close>

definition poller_assertInLoopThread :: "(nat \<Rightarrow> bool) \<Rightarrow> 'k poller \<Rightarrow> fault + unit" where
  "poller_assertInLoopThread inloop p =
     (case ploop p of None \<Rightarrow> Inr () | Some l \<Rightarrow> guard_or ProcessExit (inloop l))"

text \<open>
  \<^verbatim>\<open>EpollPoller::updateEventDispatcher\<close>: \<open>self\<close> is the address of the dispatcher, which the
  kernel stores beside the mask.
\<close>

definition updateEventDispatcher ::
  "'k epoll_ctl \<Rightarrow> addr \<Rightarrow> epoll_op \<Rightarrow> 'cb dispatcher \<Rightarrow> 'k poller \<Rightarrow> 'k poller \<times> bool" where
  "updateEventDispatcher ctl self opr d p =
     (let r = ctl (kern p) opr (fd d) (events d) self in (p\<lparr>kern := fst r\<rparr>, snd r))"

definition registerEventDispatcher ::
  "(nat \<Rightarrow> bool) \<Rightarrow> 'k epoll_ctl \<Rightarrow> addr \<Rightarrow> ('cb, 'k poller) registrar" where
  "registerEventDispatcher inloop ctl self d p =
     obind (poller_assertInLoopThread inloop p) (\<lambda>_.
     obind (guard_or AssertFail (fd d \<ge> 0)) (\<lambda>_.
     let index = dstate d in
     if index = kNew \<or> index = kDeleted then
       let d' = setState kAdded d in
       Inr (d', fst (updateEventDispatcher ctl self EPOLL_CTL_ADD d' p))
     else
       obind (guard_or AssertFail (index = kAdded)) (\<lambda>_.
         if isNoneEvent d then
           Inr (setState kDeleted d, fst (updateEventDispatcher ctl self EPOLL_CTL_DEL d p))
         else Inr (d, fst (updateEventDispatcher ctl self EPOLL_CTL_MOD d p)))))"

definition removeEventDispatcher ::
  "(nat \<Rightarrow> bool) \<Rightarrow> 'k epoll_ctl \<Rightarrow> addr \<Rightarrow> ('cb, 'k poller) registrar" where
  "removeEventDispatcher inloop ctl self d p =
     obind (poller_assertInLoopThread inloop p) (\<lambda>_.
     obind (guard_or AssertFail (isNoneEvent d)) (\<lambda>_.
     let index = dstate d in
     obind (guard_or AssertFail (index = kAdded \<or> index = kDeleted)) (\<lambda>_.
       let p' = (if index = kAdded then fst (updateEventDispatcher ctl self EPOLL_CTL_DEL d p) else p)
       in Inr (setState kNew d, p'))))"

section \<open>What the event loop does with a dispatcher\<close>

definition loop_updateEventDispatcher ::
  "(nat \<Rightarrow> bool) \<Rightarrow> 'k epoll_ctl \<Rightarrow> nat \<Rightarrow> addr \<Rightarrow> ('cb, 'k poller) registrar" where
  "loop_updateEventDispatcher inloop ctl l self d p =
     obind (guard_or AssertFail (dloop d = l)) (\<lambda>_.
     obind (guard_or ProcessExit (inloop l)) (\<lambda>_. registerEventDispatcher inloop ctl self d p))"

definition loop_registerEventDispatcher ::
  "(nat \<Rightarrow> bool) \<Rightarrow> 'k epoll_ctl \<Rightarrow> nat \<Rightarrow> addr \<Rightarrow> ('cb, 'k poller) registrar" where
  "loop_registerEventDispatcher inloop ctl l self d p =
     obind (guard_or AssertFail (dloop d = l)) (\<lambda>_.
     obind (guard_or ProcessExit (inloop l)) (\<lambda>_. registerEventDispatcher inloop ctl self d p))"

definition loop_removeEventDispatcher ::
  "(nat \<Rightarrow> bool) \<Rightarrow> 'k epoll_ctl \<Rightarrow> nat \<Rightarrow> addr \<Rightarrow> ('cb, 'k poller) registrar" where
  "loop_removeEventDispatcher inloop ctl l self d p =
     obind (guard_or AssertFail (dloop d = l)) (\<lambda>_.
     obind (guard_or ProcessExit (inloop l)) (\<lambda>_. removeEventDispatcher inloop ctl self d p))"

section \<open>Waiting for events\<close>

text \<open>
  The dispatchers live in a store; \<open>None\<close> is an address whose object is gone.  Each entry of
  the event array is the mask that occurred and the stored address.
\<close>

type_synonym 'cb dstore = "addr \<Rightarrow> 'cb dispatcher option"

datatype wait_result = WaitEvents "(mask \<times> addr) list" | WaitError nat

fun fill_loop ::
  "(mask \<times> addr) list \<Rightarrow> 'cb dstore \<Rightarrow> addr list \<Rightarrow> fault + 'cb dstore \<times> addr list" where
  "fill_loop [] h act = Inr (h, act)"
| "fill_loop ((m, a) # evs) h act =
     (case h a of None \<Rightarrow> Inl UseAfterFree
      | Some d \<Rightarrow> fill_loop evs (h(a \<mapsto> setRealEvents m d)) (act @ [a]))"

definition fillActiveDispatchers ::
  "'k poller \<Rightarrow> (mask \<times> addr) list \<Rightarrow> 'cb dstore \<Rightarrow> addr list \<Rightarrow> fault + 'cb dstore \<times> addr list" where
  "fillActiveDispatchers p evs h act =
     obind (guard_or AssertFail (length evs \<le> nevents p)) (\<lambda>_. fill_loop evs h act)"

definition poll ::
  "wait_result \<Rightarrow> 'k poller \<Rightarrow> 'cb dstore \<Rightarrow> addr list \<Rightarrow> fault + 'k poller \<times> 'cb dstore \<times> addr list"
where
  "poll w p h act =
     (case w of
        WaitError _ \<Rightarrow> Inr (p, h, act)
      | WaitEvents evs \<Rightarrow>
          if evs = [] then Inr (p, h, act)
          else obind (fillActiveDispatchers p evs h act) (\<lambda>(h', act').
            Inr (if length evs = nevents p then p\<lparr>nevents := nevents p * 2\<rparr> else p, h', act')))"

section \<open>The documented behaviour of the kernel\<close>

text \<open>
  \<open>interest k fd\<close> is what the instance watches for a descriptor: its mask and stored address.
  On a descriptor that can be polled, adding needs it absent, changing and deleting need it
  present; a call that fails changes nothing.
\<close>

locale epoll_kernel =
  fixes ctl :: "'k epoll_ctl" and interest :: "'k \<Rightarrow> int \<Rightarrow> (mask \<times> addr) option"
    and pollable :: "int \<Rightarrow> bool"
  assumes ctl_add: "pollable f \<Longrightarrow> interest k f = None \<Longrightarrow>
      \<exists>k'. ctl k EPOLL_CTL_ADD f m a = (k', True) \<and> interest k' = (interest k)(f \<mapsto> (m, a))"
    and ctl_mod: "interest k f \<noteq> None \<Longrightarrow>
      \<exists>k'. ctl k EPOLL_CTL_MOD f m a = (k', True) \<and> interest k' = (interest k)(f \<mapsto> (m, a))"
    and ctl_del: "interest k f \<noteq> None \<Longrightarrow>
      \<exists>k'. ctl k EPOLL_CTL_DEL f m a = (k', True) \<and> interest k' = (interest k)(f := None)"
    and ctl_exists: "interest k f \<noteq> None \<Longrightarrow> ctl k EPOLL_CTL_ADD f m a = (k, False)"
    and ctl_absent: "interest k f = None \<Longrightarrow> opr \<noteq> EPOLL_CTL_ADD \<Longrightarrow> ctl k opr f m a = (k, False)"

text \<open>\<open>known_by\<close>: the state word of the dispatcher says whether the kernel watches its descriptor.\<close>

definition known_by ::
  "('k \<Rightarrow> int \<Rightarrow> (mask \<times> addr) option) \<Rightarrow> (int \<Rightarrow> bool) \<Rightarrow> nat \<Rightarrow> addr \<Rightarrow> 'cb dispatcher \<Rightarrow>
   'k poller \<Rightarrow> bool" where
  "known_by interest pollable l self d p \<longleftrightarrow>
     dloop d = l \<and> ploop p = Some l \<and> fd d \<ge> 0 \<and> pollable (fd d) \<and>
     dstate d \<in> {kNew, kAdded, kDeleted} \<and>
     (if dstate d = kAdded then \<exists>m. interest (kern p) (fd d) = Some (m, self)
      else interest (kern p) (fd d) = None)"

text \<open>\<open>watched\<close>: and the kernel has the dispatcher's own mask, none when it is not watched.\<close>

definition watched ::
  "('k \<Rightarrow> int \<Rightarrow> (mask \<times> addr) option) \<Rightarrow> (int \<Rightarrow> bool) \<Rightarrow> nat \<Rightarrow> addr \<Rightarrow> 'cb dispatcher \<Rightarrow>
   'k poller \<Rightarrow> bool" where
  "watched interest pollable l self d p \<longleftrightarrow>
     known_by interest pollable l self d p \<and> dstate d \<noteq> kNew \<and>
     (if dstate d = kAdded then interest (kern p) (fd d) = Some (events d, self)
      else events d = kNoneEvent)"

definition unwatched ::
  "('k \<Rightarrow> int \<Rightarrow> (mask \<times> addr) option) \<Rightarrow> (int \<Rightarrow> bool) \<Rightarrow> nat \<Rightarrow> addr \<Rightarrow> 'cb dispatcher \<Rightarrow>
   'k poller \<Rightarrow> bool" where
  "unwatched interest pollable l self d p \<longleftrightarrow>
     known_by interest pollable l self d p \<and> dstate d = kNew \<and> events d = kNoneEvent"

lemma known_by_events [simp]:
  "known_by interest pollable l self (d\<lparr>events := m\<rparr>) p = known_by interest pollable l self d p"
  by (simp add: known_by_def)

lemma watched_added [simp]:
  "watched interest pollable l self (d\<lparr>addedToLoop := b\<rparr>) p = watched interest pollable l self d p"
  by (simp add: watched_def known_by_def)

lemma watched_known: "watched interest pollable l self d p \<Longrightarrow> known_by interest pollable l self d p"
  by (simp add: watched_def)

lemma unwatched_known: "unwatched interest pollable l self d p \<Longrightarrow> known_by interest pollable l self d p"
  by (simp add: unwatched_def)

locale epoll_client = epoll_kernel ctl interest pollable
  for ctl :: "'k epoll_ctl" and interest and pollable +
  fixes inloop :: "nat \<Rightarrow> bool" and l :: nat and self :: addr
  assumes in_loop: "inloop l"
begin

lemma update_ok:
  assumes "known_by interest pollable l self d p"
  shows "\<exists>d' p'. loop_updateEventDispatcher inloop ctl l self d p = Inr (d', p') \<and>
           watched interest pollable l self d' p' \<and> events d' = events d \<and> fd d' = fd d \<and>
           (\<forall>f. f \<noteq> fd d \<longrightarrow> interest (kern p') f = interest (kern p) f)"
proof -
  have k: "dloop d = l" "ploop p = Some l" "fd d \<ge> 0" "pollable (fd d)"
      "dstate d \<in> {kNew, kAdded, kDeleted}"
    using assms by (simp_all add: known_by_def)
  consider (add) "dstate d \<noteq> kAdded" "interest (kern p) (fd d) = None" |
      (chg) "dstate d = kAdded" "interest (kern p) (fd d) \<noteq> None"
    using assms by (fastforce simp: known_by_def split: if_splits)
  then show ?thesis
  proof cases
    case add
    obtain k' where "ctl (kern p) EPOLL_CTL_ADD (fd d) (events d) self = (k', True)"
        "interest k' = (interest (kern p))(fd d \<mapsto> (events d, self))"
      using ctl_add [OF k(4) add(2)] by blast
    with k add in_loop show ?thesis
      by (auto simp: loop_updateEventDispatcher_def registerEventDispatcher_def watched_def
          known_by_def poller_assertInLoopThread_def updateEventDispatcher_def setState_def
          poller_states Let_def)
  next
    case chg
    obtain k1 where k1: "ctl (kern p) EPOLL_CTL_MOD (fd d) (events d) self = (k1, True)"
        "interest k1 = (interest (kern p))(fd d \<mapsto> (events d, self))"
      using ctl_mod [OF chg(2)] by blast
    obtain k2 where k2: "ctl (kern p) EPOLL_CTL_DEL (fd d) (events d) self = (k2, True)"
        "interest k2 = (interest (kern p))(fd d := None)"
      using ctl_del [OF chg(2)] by blast
    show ?thesis
    proof (cases "isNoneEvent d")
      case True
      with k chg k2 in_loop show ?thesis
        by (auto simp: loop_updateEventDispatcher_def registerEventDispatcher_def watched_def
            known_by_def poller_assertInLoopThread_def updateEventDispatcher_def setState_def
            poller_states Let_def isNoneEvent_def)
    next
      case False
      with k chg k1 in_loop show ?thesis
        by (auto simp: loop_updateEventDispatcher_def registerEventDispatcher_def watched_def
            known_by_def poller_assertInLoopThread_def updateEventDispatcher_def setState_def
            poller_states Let_def isNoneEvent_def)
    qed
  qed
qed

lemma remove_ok:
  assumes "watched interest pollable l self d p" "isNoneEvent d"
  shows "\<exists>d' p'. loop_removeEventDispatcher inloop ctl l self d p = Inr (d', p') \<and>
           unwatched interest pollable l self d' p' \<and> fd d' = fd d \<and>
           (\<forall>f. f \<noteq> fd d \<longrightarrow> interest (kern p') f = interest (kern p) f)"
proof -
  have k: "dloop d = l" "ploop p = Some l" "fd d \<ge> 0" "pollable (fd d)"
    using assms by (simp_all add: watched_def known_by_def)
  have st: "dstate d = kAdded \<or> dstate d = kDeleted"
    using assms(1) unfolding watched_def known_by_def by blast
  show ?thesis
  proof (cases "dstate d = kAdded")
    case True
    then have "interest (kern p) (fd d) \<noteq> None" using assms by (simp add: watched_def)
    then obtain k2 where "ctl (kern p) EPOLL_CTL_DEL (fd d) (events d) self = (k2, True)"
        "interest k2 = (interest (kern p))(fd d := None)"
      using ctl_del by blast
    with k st True assms(2) in_loop show ?thesis
      by (auto simp: loop_removeEventDispatcher_def removeEventDispatcher_def unwatched_def
          known_by_def poller_assertInLoopThread_def updateEventDispatcher_def setState_def
          poller_states Let_def isNoneEvent_def)
  next
    case False
    then have "interest (kern p) (fd d) = None" using assms
      by (simp add: watched_def known_by_def)
    with k st False assms(2) in_loop show ?thesis
      by (auto simp: loop_removeEventDispatcher_def removeEventDispatcher_def unwatched_def
          known_by_def poller_assertInLoopThread_def updateEventDispatcher_def setState_def
          poller_states Let_def isNoneEvent_def)
  qed
qed

lemma is_registry:
  "event_registry (loop_updateEventDispatcher inloop ctl l self)
     (loop_removeEventDispatcher inloop ctl l self) (watched interest pollable l self)
     (known_by interest pollable l self) (unwatched interest pollable l self)"
proof unfold_locales
  fix d :: "'c dispatcher" and p and ev
  assume "watched interest pollable l self d p"
  then show "known_by interest pollable l self (d\<lparr>events := ev\<rparr>) p"
    by (simp add: watched_known)
next
  fix d :: "'c dispatcher" and p and b
  assume "watched interest pollable l self d p"
  then show "watched interest pollable l self (d\<lparr>addedToLoop := b\<rparr>) p"
    by simp
next
  fix d :: "'c dispatcher" and p
  assume "known_by interest pollable l self d p"
  then show "\<exists>d' p'. loop_updateEventDispatcher inloop ctl l self d p = Inr (d', p') \<and>
      watched interest pollable l self d' p' \<and> events d' = events d"
    using update_ok by blast
next
  fix d :: "'c dispatcher" and p
  assume "watched interest pollable l self d p" "isNoneEvent d"
  then show "\<exists>d' p'. loop_removeEventDispatcher inloop ctl l self d p = Inr (d', p') \<and>
      unwatched interest pollable l self d' p'"
    using remove_ok by blast
qed

end

sublocale epoll_client \<subseteq> registry:
  event_registry "loop_updateEventDispatcher inloop ctl l self"
    "loop_removeEventDispatcher inloop ctl l self" "watched interest pollable l self"
    "known_by interest pollable l self" "unwatched interest pollable l self"
  by (rule is_registry)

section \<open>A kernel\<close>

text \<open>The interest table of \<^verbatim>\<open>epoll(7)\<close> as a map; descriptors below zero are not open.\<close>

type_synonym epoll_table = "int \<Rightarrow> (mask \<times> addr) option"

fun table_ctl :: "epoll_table epoll_ctl" where
  "table_ctl k EPOLL_CTL_ADD f m a =
     (if f < 0 \<or> k f \<noteq> None then (k, False) else (k(f \<mapsto> (m, a)), True))"
| "table_ctl k EPOLL_CTL_MOD f m a = (if k f = None then (k, False) else (k(f \<mapsto> (m, a)), True))"
| "table_ctl k EPOLL_CTL_DEL f m a = (if k f = None then (k, False) else (k(f := None), True))"

definition table_interest :: "epoll_table \<Rightarrow> int \<Rightarrow> (mask \<times> addr) option" where
  "table_interest k = k"

definition table_pollable :: "int \<Rightarrow> bool" where
  "table_pollable f \<longleftrightarrow> f \<ge> 0"

interpretation table: epoll_kernel table_ctl table_interest table_pollable
proof unfold_locales
  fix k :: epoll_table and f m a opr
  assume "table_interest k f = None" "opr \<noteq> EPOLL_CTL_ADD"
  then show "table_ctl k opr f m a = (k, False)"
    by (cases opr) (simp_all add: table_interest_def)
qed (auto simp: table_interest_def table_pollable_def)

interpretation table_client: epoll_client table_ctl table_interest table_pollable
    "\<lambda>x. x = l" l self for l :: nat and self :: addr
  by unfold_locales simp

section \<open>Sequences of operations on one dispatcher\<close>

datatype mask_op = EnableReading | EnableWriting | DisableReading | DisableWriting | DisableAll
  | UpdateEvents mask

fun apply_op :: "('cb, 'p) registrar \<Rightarrow> mask_op \<Rightarrow> ('cb, 'p) registrar" where
  "apply_op upd EnableReading d p = enableReading upd d p"
| "apply_op upd EnableWriting d p = enableWriting upd d p"
| "apply_op upd DisableReading d p = disableReading upd d p"
| "apply_op upd DisableWriting d p = disableWriting upd d p"
| "apply_op upd DisableAll d p = disableAll upd d p"
| "apply_op upd (UpdateEvents m) d p = updateEvents upd m d p"

fun run_ops :: "('cb, 'p) registrar \<Rightarrow> mask_op list \<Rightarrow> ('cb, 'p) registrar" where
  "run_ops upd [] d p = Inr (d, p)"
| "run_ops upd (opr # ops) d p = obind (apply_op upd opr d p) (\<lambda>(d', p'). run_ops upd ops d' p')"

lemma run_ops_single: "run_ops upd [opr] d p = apply_op upd opr d p"
  by (cases "apply_op upd opr d p") auto

fun mask_after :: "mask \<Rightarrow> mask_op \<Rightarrow> mask" where
  "mask_after m EnableReading = m OR (POLLIN OR POLLPRI)"
| "mask_after m EnableWriting = m OR POLLOUT"
| "mask_after m DisableReading = m AND NOT (POLLIN OR POLLPRI)"
| "mask_after m DisableWriting = m AND NOT POLLOUT"
| "mask_after m DisableAll = 0"
| "mask_after m (UpdateEvents m') = m'"

lemma apply_op_upd: "apply_op upd opr d p = upd (d\<lparr>events := mask_after (events d) opr\<rparr>) p"
  by (cases opr) (simp_all add: enableReading_def enableWriting_def disableReading_def
      disableWriting_def disableAll_def updateEvents_def kReadEvent_def kWriteEvent_def kNoneEvent_def)

lemma fresh_known:
  assumes "interest k f = None" "f \<ge> 0" "pollable f"
  shows "known_by interest pollable l self (mk_EventDispatcher l f) (mk_EpollPoller k l)"
  using assms by (simp add: known_by_def mk_EventDispatcher_def mk_EpollPoller_def poller_states)

lemma fresh_simps [simp]:
  "events (mk_EventDispatcher l f) = 0" "fd (mk_EventDispatcher l f) = f"
  "dstate (mk_EventDispatcher l f) = kNew" "dloop (mk_EventDispatcher l f) = l"
  "kern (mk_EpollPoller k l) = k" "nevents (mk_EpollPoller k l) = 16"
  "ploop (mk_EpollPoller k l) = Some l"
  by (simp_all add: mk_EventDispatcher_def mk_EpollPoller_def kInitEventListSize_def kNew_def)

context epoll_client begin

lemma apply_op_ok:
  assumes "known_by interest pollable l self d p"
  shows "\<exists>d' p'. apply_op (loop_updateEventDispatcher inloop ctl l self) opr d p = Inr (d', p') \<and>
           watched interest pollable l self d' p' \<and> events d' = mask_after (events d) opr \<and>
           fd d' = fd d \<and> (\<forall>f. f \<noteq> fd d \<longrightarrow> interest (kern p') f = interest (kern p) f)"
  using update_ok [of "d\<lparr>events := mask_after (events d) opr\<rparr>" p] assms
  by (fastforce simp: apply_op_upd)

lemma run_ops_ok:
  assumes "known_by interest pollable l self d p"
  shows "\<exists>d' p'. run_ops (loop_updateEventDispatcher inloop ctl l self) ops d p = Inr (d', p') \<and>
           (ops \<noteq> [] \<longrightarrow> watched interest pollable l self d' p') \<and>
           known_by interest pollable l self d' p' \<and>
           events d' = foldl mask_after (events d) ops \<and>
           fd d' = fd d \<and> (\<forall>f. f \<noteq> fd d \<longrightarrow> interest (kern p') f = interest (kern p) f)"
  using assms
proof (induction ops arbitrary: d p)
  case Nil
  then show ?case by simp
next
  case (Cons opr ops)
  obtain d1 p1 where
    s: "apply_op (loop_updateEventDispatcher inloop ctl l self) opr d p = Inr (d1, p1)"
      "watched interest pollable l self d1 p1" "events d1 = mask_after (events d) opr"
      "fd d1 = fd d" "\<forall>f. f \<noteq> fd d \<longrightarrow> interest (kern p1) f = interest (kern p) f"
    using apply_op_ok [OF Cons.prems] by blast
  from Cons.IH [OF watched_known [OF s(2)]] obtain d' p' where
    t: "run_ops (loop_updateEventDispatcher inloop ctl l self) ops d1 p1 = Inr (d', p')"
      "ops \<noteq> [] \<longrightarrow> watched interest pollable l self d' p'"
      "known_by interest pollable l self d' p'"
      "events d' = foldl mask_after (events d1) ops"
      "fd d' = fd d1" "\<forall>f. f \<noteq> fd d1 \<longrightarrow> interest (kern p') f = interest (kern p1) f"
    by blast
  have "watched interest pollable l self d' p'"
    using t(1,2) s(2) by (cases ops) auto
  with s t show ?case by simp
qed

lemma session_ok:
  assumes "known_by interest pollable l self d p"
  shows "\<exists>d' p'. obind (run_ops (loop_updateEventDispatcher inloop ctl l self) (ops @ [DisableAll]) d p)
             (\<lambda>(d1, p1). remove_dispatcher (loop_removeEventDispatcher inloop ctl l self) d1 p1)
           = Inr (d', p') \<and> unwatched interest pollable l self d' p' \<and> fd d' = fd d \<and>
           (\<forall>f. f \<noteq> fd d \<longrightarrow> interest (kern p') f = interest (kern p) f)"
proof -
  obtain d1 p1 where
    r: "run_ops (loop_updateEventDispatcher inloop ctl l self) (ops @ [DisableAll]) d p = Inr (d1, p1)"
      "watched interest pollable l self d1 p1" "events d1 = kNoneEvent" "fd d1 = fd d"
      "\<forall>f. f \<noteq> fd d \<longrightarrow> interest (kern p1) f = interest (kern p) f"
    using run_ops_ok [OF assms, of "ops @ [DisableAll]"] by (auto simp: kNoneEvent_def)
  have "watched interest pollable l self (d1\<lparr>addedToLoop := False\<rparr>) p1"
    by (rule registry.sync_added [OF r(2)])
  moreover have "isNoneEvent (d1\<lparr>addedToLoop := False\<rparr>)" using r(3) by (simp add: isNoneEvent_def)
  ultimately obtain d2 p2 where
    "loop_removeEventDispatcher inloop ctl l self (d1\<lparr>addedToLoop := False\<rparr>) p1 = Inr (d2, p2)"
    "unwatched interest pollable l self d2 p2" "fd d2 = fd d1"
    "\<forall>f. f \<noteq> fd d1 \<longrightarrow> interest (kern p2) f = interest (kern p1) f"
    using remove_ok by fastforce
  with r show ?thesis by (simp add: remove_dispatcher_def)
qed

end

text \<open>
  C11: on a kernel that behaves as documented, any sequence of mask changes on a new dispatcher
  of an open descriptor, in the loop's thread, succeeds; afterwards the kernel watches the
  descriptor with exactly the mask the changes add up to (it may have dropped the descriptor
  when that mask is empty), and every other descriptor is watched as before.
\<close>

theorem dispatcher_ops_in_sync:
  assumes "epoll_kernel ctl interest pollable" and "inloop l"
    and "f \<ge> 0" and "pollable f" and "interest k f = None" and "ops \<noteq> []"
  shows "\<exists>d p. run_ops (loop_updateEventDispatcher inloop ctl l self) ops
             (mk_EventDispatcher l f :: 'cb dispatcher) (mk_EpollPoller k l) = Inr (d, p) \<and>
           events d = foldl mask_after 0 ops \<and>
           (interest (kern p) f = Some (foldl mask_after 0 ops, self) \<or>
            interest (kern p) f = None \<and> foldl mask_after 0 ops = 0) \<and>
           (\<forall>g. g \<noteq> f \<longrightarrow> interest (kern p) g = interest k g)"
proof -
  have c: "epoll_client ctl interest pollable inloop l"
    using assms(1,2) by (simp add: epoll_client_def epoll_client_axioms_def)
  note fresh = fresh_known [of interest, OF assms(5,3), of pollable l self, OF assms(4)]
  from epoll_client.run_ops_ok [OF c fresh, of ops] assms(6)
  obtain d :: "'cb dispatcher" and p where
    r: "run_ops (loop_updateEventDispatcher inloop ctl l self) ops
          (mk_EventDispatcher l f) (mk_EpollPoller k l) = Inr (d, p)"
      "watched interest pollable l self d p" "events d = foldl mask_after 0 ops"
      "fd d = f" "\<forall>g. g \<noteq> f \<longrightarrow> interest (kern p) g = interest k g"
    by auto
  have "interest (kern p) f = Some (events d, self) \<or>
      interest (kern p) f = None \<and> events d = 0"
    using r(2,4) by (auto simp: watched_def known_by_def kNoneEvent_def split: if_splits)
  with r(1,3,5) show ?thesis by auto
qed

theorem dispatcher_ops_in_sync_witness:
  "\<exists>d p. run_ops (loop_updateEventDispatcher (\<lambda>x. x = 0) table_ctl 0 7) [EnableReading, EnableWriting]
       (mk_EventDispatcher 0 5 :: nat dispatcher) (mk_EpollPoller Map.empty 0) = Inr (d, p) \<and>
     events d = 7 \<and> table_interest (kern p) 5 = Some (7, 7)"
proof -
  have m: "foldl mask_after 0 [EnableReading, EnableWriting] = 7"
    by (simp add: poll_bits)
  have f: "table_interest Map.empty 5 = None" "table_pollable 5"
    by (simp_all add: table_interest_def table_pollable_def)
  show ?thesis
    using dispatcher_ops_in_sync [OF table.epoll_kernel_axioms, where inloop = "\<lambda>x. x = 0" and l = 0
      and self = 7 and f = 5 and k = Map.empty and ops = "[EnableReading, EnableWriting]"] f
    unfolding m by auto
qed

text \<open>
  After any mask changes, disabling everything and removing the dispatcher succeeds and
  ends the watch: the kernel no longer has the descriptor and the dispatcher is as unregistered
  as a new one, so that it can be registered again.
\<close>

theorem dispatcher_shutdown:
  assumes "epoll_kernel ctl interest pollable" and "inloop l"
    and "f \<ge> 0" and "pollable f" and "interest k f = None"
  shows "\<exists>d p. obind (run_ops (loop_updateEventDispatcher inloop ctl l self) (ops @ [DisableAll])
               (mk_EventDispatcher l f :: 'cb dispatcher) (mk_EpollPoller k l))
             (\<lambda>(d1, p1). remove_dispatcher (loop_removeEventDispatcher inloop ctl l self) d1 p1)
           = Inr (d, p) \<and>
           interest (kern p) f = None \<and> dstate d = kNew \<and> isNoneEvent d"
proof -
  have c: "epoll_client ctl interest pollable inloop l"
    using assms(1,2) by (simp add: epoll_client_def epoll_client_axioms_def)
  note fresh = fresh_known [of interest, OF assms(5,3), of pollable l self, OF assms(4)]
  have u: "interest (kern p) f = None \<and> dstate d = kNew \<and> isNoneEvent d"
    if "unwatched interest pollable l self d p" "fd d = f" for d :: "'cb dispatcher" and p
    using that by (auto simp: unwatched_def known_by_def isNoneEvent_def poller_states)
  from epoll_client.session_ok [OF c fresh, of ops] u show ?thesis by fastforce
qed

theorem dispatcher_shutdown_witness:
  "\<exists>d p. obind (run_ops (loop_updateEventDispatcher (\<lambda>x. x = 0) table_ctl 0 7) ([EnableReading] @ [DisableAll])
         (mk_EventDispatcher 0 5 :: nat dispatcher) (mk_EpollPoller Map.empty 0))
       (\<lambda>(d1, p1). remove_dispatcher (loop_removeEventDispatcher (\<lambda>x. x = 0) table_ctl 0 7) d1 p1)
     = Inr (d, p) \<and> table_interest (kern p) 5 = None \<and> dstate d = kNew \<and> isNoneEvent d"
  by (rule dispatcher_shutdown [OF table.epoll_kernel_axioms])
    (simp_all add: table_interest_def table_pollable_def)

text \<open>
  The poller ignores a failing \<^verbatim>\<open>epoll_ctl\<close>.  Registering a new dispatcher on a descriptor
  that another dispatcher already watches succeeds for the caller and marks the dispatcher as
  added, but the kernel keeps reporting to the other one; and the next change of the mask of
  the newcomer takes the descriptor over.
\<close>

theorem failed_add_goes_unnoticed:
  assumes "epoll_kernel ctl interest pollable" and "inloop l" and "f \<ge> 0"
    and "interest k f = Some (m, other)" and "self \<noteq> other"
  shows "\<exists>d p. enableReading (loop_updateEventDispatcher inloop ctl l self)
                 (mk_EventDispatcher l f) (mk_EpollPoller k l) = Inr (d, p) \<and>
           dstate d = kAdded \<and> interest (kern p) f = Some (m, other) \<and>
           (\<exists>d' p'. enableWriting (loop_updateEventDispatcher inloop ctl l self) d p = Inr (d', p') \<and>
              interest (kern p') f = Some (kReadEvent OR kWriteEvent, self))"
proof -
  have fail: "ctl k EPOLL_CTL_ADD f m' a = (k, False)" for m' a
    using epoll_kernel.ctl_exists [OF assms(1)] assms(4) by simp
  obtain k' where "ctl k EPOLL_CTL_MOD f (kReadEvent OR kWriteEvent) self = (k', True)"
      "interest k' = (interest k)(f \<mapsto> (kReadEvent OR kWriteEvent, self))"
    using epoll_kernel.ctl_mod [OF assms(1)] assms(4) by blast
  moreover have "kReadEvent OR kWriteEvent \<noteq> kNoneEvent" by (simp add: event_bits)
  ultimately show ?thesis using assms(2-4) fail
    by (simp add: enableReading_def enableWriting_def loop_updateEventDispatcher_def
        registerEventDispatcher_def updateEventDispatcher_def poller_assertInLoopThread_def
        setState_def isNoneEvent_def poller_states Let_def)
qed

theorem failed_add_goes_unnoticed_witness:
  "\<exists>d p. enableReading (loop_updateEventDispatcher (\<lambda>x. x = 0) table_ctl 0 7)
       (mk_EventDispatcher 0 5 :: nat dispatcher) (mk_EpollPoller [5 \<mapsto> (4, 8)] 0) = Inr (d, p) \<and>
     dstate d = kAdded \<and> table_interest (kern p) 5 = Some (4, 8)"
  using failed_add_goes_unnoticed [OF table.epoll_kernel_axioms, where inloop = "\<lambda>x. x = 0" and l = 0
      and self = 7 and other = 8 and f = 5 and k = "[5 \<mapsto> (4, 8)]" and m = 4]
  by (fastforce simp: table_interest_def)

section \<open>What poll delivers\<close>

definition last_event :: "(mask \<times> addr) list \<Rightarrow> addr \<Rightarrow> mask option" where
  "last_event evs a = map_of (map (\<lambda>(m, a). (a, m)) (rev evs)) a"

definition delivered :: "(mask \<times> addr) list \<Rightarrow> 'cb dstore \<Rightarrow> 'cb dstore" where
  "delivered evs h a =
     (case h a of None \<Rightarrow> None
      | Some d \<Rightarrow> Some (case last_event evs a of None \<Rightarrow> d | Some m \<Rightarrow> setRealEvents m d))"

lemma setRealEvents_twice [simp]: "setRealEvents m (setRealEvents m' d) = setRealEvents m d"
  by (simp add: setRealEvents_def)

lemma last_event_Cons:
  "last_event ((m, b) # evs) a =
     (case last_event evs a of Some x \<Rightarrow> Some x | None \<Rightarrow> if a = b then Some m else None)"
  by (auto simp: last_event_def map_add_def split: option.splits)

lemma delivered_Cons:
  assumes "h b = Some d"
  shows "delivered evs (h(b \<mapsto> setRealEvents m d)) = delivered ((m, b) # evs) h"
  using assms by (auto simp: delivered_def last_event_Cons split: option.splits)

lemma fill_loop_eq:
  "fill_loop evs h act =
     (if list_all (\<lambda>(m, a). h a \<noteq> None) evs then Inr (delivered evs h, act @ map snd evs)
      else Inl UseAfterFree)"
proof (induction evs h act rule: fill_loop.induct)
  case (1 h act)
  have "delivered [] h = h"
    by (auto simp: delivered_def last_event_def split: option.splits)
  then show ?case by simp
next
  case (2 m a evs h act)
  show ?case
  proof (cases "h a")
    case (Some d)
    have "list_all (\<lambda>(m, b). (h(a \<mapsto> setRealEvents m' d)) b \<noteq> None) evs =
        list_all (\<lambda>(m, b). h b \<noteq> None) evs" for m'
      using Some by (auto simp: list_all_iff)
    with 2 [OF Some] Some show ?thesis by (simp add: delivered_Cons del: fun_upd_apply)
  qed simp
qed

text \<open>
  What \<^verbatim>\<open>poll\<close> does with the answer of \<^verbatim>\<open>epoll_wait\<close>.  With at most as many events as the
  array holds, it appends the reported dispatchers in order, each with the mask of its last
  event, and doubles the array exactly when it was full; an error, or no event, changes
  nothing; and it touches freed memory exactly when a reported dispatcher is gone.
\<close>

theorem poll_delivers:
  "poll (WaitError e) p h act = Inr (p, h, act) \<and>
   (length evs \<le> nevents p \<longrightarrow>
    poll (WaitEvents evs) p h act =
      (if list_all (\<lambda>(m, a). h a \<noteq> None) evs
       then Inr (p\<lparr>nevents := if evs \<noteq> [] \<and> length evs = nevents p then 2 * nevents p else nevents p\<rparr>,
                 delivered evs h, act @ map snd evs)
       else Inl UseAfterFree))"
proof -
  have "delivered [] h = h"
    by (auto simp: delivered_def last_event_def split: option.splits)
  then show ?thesis
    by (auto simp: poll_def fillActiveDispatchers_def fill_loop_eq mult.commute)
qed

theorem poll_delivers_witness:
  "poll (WaitEvents [(1, 7)]) (mk_EpollPoller (Map.empty :: epoll_table) 0)
     [7 \<mapsto> (mk_EventDispatcher 0 5 :: nat dispatcher)] [] =
   Inr (mk_EpollPoller Map.empty 0, delivered [(1, 7)] [7 \<mapsto> mk_EventDispatcher 0 5], [7])"
  using conjunct2 [OF poll_delivers [where evs = "[(1, 7)]" and h = "[7 \<mapsto> (mk_EventDispatcher 0 5 :: nat dispatcher)]"
      and p = "mk_EpollPoller (Map.empty :: epoll_table) 0" and act = "[]" and e = 0]]
  by (simp add: mk_EpollPoller_def kInitEventListSize_def)

end
