(* ===== verification/TimerQueue.thy ===== *)
theory TimerQueue
  imports EpollPoller "HOL-Library.Signed_Division"
begin

text \<open>
  Timers and the timer queue: \<^verbatim>\<open>time/Timer.h\<close>, \<^verbatim>\<open>time/Timer.cpp\<close>, \<^verbatim>\<open>time/TimerQueue.h\<close> and
  \<^verbatim>\<open>time/TimerQueue.cpp\<close>.  Times of the steady clock are nanoseconds, intervals microseconds,
  both as integers.  Every reading of the clock is an argument: \<open>now\<close> the one an operation
  takes explicitly, \<open>clk\<close> the one inside \<^verbatim>\<open>resetTimerfd\<close>.
\<close>

section \<open>Timers\<close>

record 'cb timer =
  tcallback :: "'cb option"
  twhen :: int
  tinterval :: int
  trepeat :: bool
  tid :: "64 word"

text \<open>The static counter \<^verbatim>\<open>timersCreated_\<close> is an argument and a second result.\<close>

definition mk_Timer :: "'cb option \<Rightarrow> int \<Rightarrow> int \<Rightarrow> 64 word \<Rightarrow> 'cb timer \<times> 64 word" where
  "mk_Timer cb w iv created =
     (let n = created + 1 in
      (\<lparr>tcallback = cb, twhen = w, tinterval = iv, trepeat = (iv > 0), tid = n\<rparr>, n))"

definition timer_run :: "('cb \<Rightarrow> ('s, fault) act) \<Rightarrow> 'cb timer \<Rightarrow> ('s, fault) act" where
  "timer_run run t s =
     (case tcallback t of
        Some c \<Rightarrow> run c s
      | None \<Rightarrow> raise (Throw (mk_exn StdRuntimeError ''Timer callback is not set'')) s)"

definition restart :: "int \<Rightarrow> int \<Rightarrow> 'cb timer \<Rightarrow> 'cb timer" where
  "restart now clk t =
     (if trepeat t then t\<lparr>twhen := now + tinterval t * 1000\<rparr> else t\<lparr>twhen := clk\<rparr>)"

definition timer_less :: "'cb timer \<Rightarrow> 'cb timer \<Rightarrow> bool" where
  "timer_less x y \<longleftrightarrow> twhen x < twhen y"

definition timer_greater :: "'cb timer \<Rightarrow> 'cb timer \<Rightarrow> bool" where
  "timer_greater x y \<longleftrightarrow> twhen x > twhen y"

section \<open>The priority queue\<close>

text \<open>
  What the timer queue needs of \<^verbatim>\<open>std::priority_queue\<close>: a bag whose top has a least key.  The
  order among equal keys is the library's.
\<close>

locale min_queue =
  fixes push :: "'a \<Rightarrow> 'q \<Rightarrow> 'q" and top :: "'q \<Rightarrow> 'a" and pop :: "'q \<Rightarrow> 'q" and isEmpty :: "'q \<Rightarrow> bool"
    and contents :: "'q \<Rightarrow> 'a multiset" and wf :: "'q \<Rightarrow> bool" and key :: "'a \<Rightarrow> int"
  assumes empty_iff: "isEmpty q \<longleftrightarrow> contents q = {#}"
    and contents_push: "contents (push x q) = contents q + {#x#}"
    and wf_push: "wf q \<Longrightarrow> wf (push x q)"
    and contents_pop: "wf q \<Longrightarrow> \<not> isEmpty q \<Longrightarrow> contents (pop q) = contents q - {#top q#}"
    and wf_pop: "wf q \<Longrightarrow> \<not> isEmpty q \<Longrightarrow> wf (pop q)"
    and top_in: "wf q \<Longrightarrow> \<not> isEmpty q \<Longrightarrow> top q \<in># contents q"
    and top_least: "wf q \<Longrightarrow> x \<in># contents q \<Longrightarrow> key (top q) \<le> key x"
begin

lemma push_not_empty: "\<not> isEmpty (push x q)"
  by (simp add: empty_iff contents_push)

lemma top_push:
  assumes "wf q"
  shows "key (top (push x q)) =
     (if isEmpty q \<or> key x < key (top q) then key x else key (top q))"
proof -
  have le: "key (top (push x q)) \<le> key y" if "y = x \<or> y \<in># contents q" for y
    using top_least [OF wf_push [OF assms]] that by (auto simp: contents_push)
  have mem: "top (push x q) = x \<or> top (push x q) \<in># contents q"
    using top_in [OF wf_push [OF assms] push_not_empty] by (auto simp: contents_push)
  show ?thesis
  proof (cases "isEmpty q")
    case True
    then show ?thesis using mem by (simp add: empty_iff)
  next
    case False
    then have "key (top (push x q)) \<le> key (top q)" using le top_in [OF assms] by blast
    moreover have "key (top (push x q)) \<le> key x" using le by blast
    moreover have "key (top q) \<le> key (top (push x q)) \<or> top (push x q) = x"
      using mem top_least [OF assms] by blast
    ultimately show ?thesis using False by auto
  qed
qed

lemma nothing_due:
  assumes "wf q" "isEmpty q \<or> key (top q) > now"
  shows "\<forall>x \<in># contents q. key x > now"
  using assms top_least [OF assms(1)] by (fastforce simp: empty_iff)

end

text \<open>The queue as a list in firing order, with \<^verbatim>\<open>TimerPtrComparer\<close> as its order.\<close>

fun pq_push :: "'cb timer \<Rightarrow> 'cb timer list \<Rightarrow> 'cb timer list" where
  "pq_push t [] = [t]"
| "pq_push t (u # q) = (if timer_greater u t then t # u # q else u # pq_push t q)"

definition pq_top :: "'cb timer list \<Rightarrow> 'cb timer" where
  "pq_top q = hd q"

definition pq_pop :: "'cb timer list \<Rightarrow> 'cb timer list" where
  "pq_pop q = tl q"

definition pq_empty :: "'cb timer list \<Rightarrow> bool" where
  "pq_empty q \<longleftrightarrow> q = []"

definition pq_sorted :: "'cb timer list \<Rightarrow> bool" where
  "pq_sorted q \<longleftrightarrow> sorted_wrt (\<lambda>x y. twhen x \<le> twhen y) q"

lemma mset_pq_push [simp]: "mset (pq_push t q) = mset q + {#t#}"
  by (induction q) auto

lemma set_pq_push [simp]: "set (pq_push t q) = insert t (set q)"
  by (metis mset_pq_push set_mset_mset add_mset_add_single set_mset_add_mset_insert)

lemma pq_push_not_Nil [simp]: "pq_push t q \<noteq> []"
  by (cases q) auto

lemma pq_sorted_push: "pq_sorted q \<Longrightarrow> pq_sorted (pq_push t q)"
  by (induction q) (fastforce simp: pq_sorted_def timer_greater_def)+

interpretation timer_pq: min_queue pq_push pq_top pq_pop pq_empty mset pq_sorted twhen
proof unfold_locales
  fix q :: "'a timer list" and x :: "'a timer"
  show "pq_empty q \<longleftrightarrow> mset q = {#}" by (simp add: pq_empty_def)
  show "mset (pq_push x q) = mset q + {#x#}" by simp
  show "pq_sorted q \<Longrightarrow> pq_sorted (pq_push x q)" by (rule pq_sorted_push)
  show "pq_sorted q \<Longrightarrow> \<not> pq_empty q \<Longrightarrow> mset (pq_pop q) = mset q - {#pq_top q#}"
    by (cases q) (simp_all add: pq_empty_def pq_pop_def pq_top_def)
  show "pq_sorted q \<Longrightarrow> \<not> pq_empty q \<Longrightarrow> pq_sorted (pq_pop q)"
    by (cases q) (simp_all add: pq_empty_def pq_pop_def pq_sorted_def)
  show "pq_sorted q \<Longrightarrow> \<not> pq_empty q \<Longrightarrow> pq_top q \<in># mset q"
    by (cases q) (simp_all add: pq_empty_def pq_top_def)
  show "pq_sorted q \<Longrightarrow> x \<in># mset q \<Longrightarrow> twhen (pq_top q) \<le> twhen x"
    by (cases q) (auto simp: pq_top_def pq_sorted_def)
qed

section \<open>The timer queue\<close>

text \<open>
  \<open>armed\<close> is the setting of the timer descriptor: the reading of the clock when it was set
  and the \<^verbatim>\<open>timespec\<close> it was set to; \<open>None\<close> is a descriptor that will not become readable.
\<close>

record 'cb timerq =
  timers :: "'cb timer list"
  timerIdSet :: "64 word set"
  callingExpiredTimers :: bool
  timersCreated :: "64 word"
  armed :: "(int \<times> int \<times> int) option"

definition mk_timerq :: "64 word \<Rightarrow> 'cb timerq" where
  "mk_timerq n =
     \<lparr>timers = [], timerIdSet = {}, callingExpiredTimers = False, timersCreated = n, armed = None\<rparr>"

definition howMuchTimeFromNow :: "int \<Rightarrow> int \<Rightarrow> int \<times> int" where
  "howMuchTimeFromNow w clk =
     (let us = (w - clk) sdiv 1000; us' = (if us < 100 then 100 else us) in
      (us' sdiv 1000000, (us' smod 1000000) * 1000))"

definition deadline :: "int \<times> int \<times> int \<Rightarrow> int" where
  "deadline a = (case a of (clk, sec, nsec) \<Rightarrow> clk + sec * 1000000000 + nsec)"

definition resetTimerfd :: "int \<Rightarrow> int \<Rightarrow> ('cb, 'z) timerq_scheme \<Rightarrow> ('cb, 'z) timerq_scheme" where
  "resetTimerfd expiration clk s = s\<lparr>armed := Some (clk, howMuchTimeFromNow expiration clk)\<rparr>"

text \<open>Reading the descriptor consumes an expiration that lies in the past.\<close>

definition readTimerfd :: "int \<Rightarrow> ('cb, 'z) timerq_scheme \<Rightarrow> ('cb, 'z) timerq_scheme" where
  "readTimerfd now s =
     (case armed s of
        None \<Rightarrow> s
      | Some a \<Rightarrow> if deadline a \<le> now then s\<lparr>armed := None\<rparr> else s)"

definition insert_timer ::
  "'cb timer \<Rightarrow> ('cb, 'z) timerq_scheme \<Rightarrow> bool \<times> ('cb, 'z) timerq_scheme" where
  "insert_timer t s =
     (let earliestChanged = pq_empty (timers s) \<or> timer_less t (pq_top (timers s)) in
      (earliestChanged, s\<lparr>timers := pq_push t (timers s)\<rparr>))"

text \<open>
  \<open>inloop\<close> tells whether the caller is the loop's thread; the functions that only these
  operations call assert it again on the same thread.
\<close>

definition addTimerInLoop :: "bool \<Rightarrow> 'cb timer \<Rightarrow> int \<Rightarrow> (('cb, 'z) timerq_scheme, fault) act" where
  "addTimerInLoop inloop t clk s =
     (if \<not> inloop then raise ProcessExit s
      else
        let s1 = s\<lparr>timerIdSet := insert (tid t) (timerIdSet s)\<rparr>;
            (earliestChanged, s2) = insert_timer t s1 in
        skip (if earliestChanged then resetTimerfd (twhen t) clk s2 else s2))"

definition invalidate_in_loop :: "64 word \<Rightarrow> ('cb, 'z) timerq_scheme \<Rightarrow> ('cb, 'z) timerq_scheme" where
  "invalidate_in_loop i s = s\<lparr>timerIdSet := timerIdSet s - {i}\<rparr>"

text \<open>The timers that are due, in firing order, and what stays.\<close>

fun getExpired :: "int \<Rightarrow> 'cb timer list \<Rightarrow> 'cb timer list \<times> 'cb timer list" where
  "getExpired now [] = ([], [])"
| "getExpired now (t # q) =
     (if twhen t \<le> now then let (e, q') = getExpired now q in (t # e, q') else ([], t # q))"

text \<open>
  The overload without an argument reads the clock before each timer it takes; \<open>clk i\<close> is the
  reading number \<open>i\<close>.
\<close>

fun getExpired_reading :: "(nat \<Rightarrow> int) \<Rightarrow> nat \<Rightarrow> 'cb timer list \<Rightarrow> 'cb timer list \<times> 'cb timer list" where
  "getExpired_reading clk i [] = ([], [])"
| "getExpired_reading clk i (t # q) =
     (if twhen t \<le> clk i then let (e, q') = getExpired_reading clk (Suc i) q in (t # e, q') else ([], t # q))"

definition getExpired_now ::
  "bool \<Rightarrow> (nat \<Rightarrow> int) \<Rightarrow> ('cb, 'z) timerq_scheme \<Rightarrow> fault + 'cb timer list \<times> ('cb, 'z) timerq_scheme" where
  "getExpired_now inloop clk s =
     (if \<not> inloop then Inl ProcessExit
      else let (e, q) = getExpired_reading clk 0 (timers s) in Inr (e, s\<lparr>timers := q\<rparr>))"

fun run_expired ::
  "('cb \<Rightarrow> (('cb, 'z) timerq_scheme, fault) act) \<Rightarrow> 'cb timer list \<Rightarrow>
   (('cb, 'z) timerq_scheme, fault) act" where
  "run_expired run [] s = skip s"
| "run_expired run (t # ts) s =
     andThen (\<lambda>s. if tid t \<in> timerIdSet s then timer_run run t s else skip s)
       (run_expired run ts) s"

fun reset_loop ::
  "'cb timer list \<Rightarrow> int \<Rightarrow> int \<Rightarrow> ('cb, 'z) timerq_scheme \<Rightarrow> ('cb, 'z) timerq_scheme" where
  "reset_loop [] now clk s = s"
| "reset_loop (t # ts) now clk s =
     reset_loop ts now clk
       (if tid t \<in> timerIdSet s then
          if trepeat t then snd (insert_timer (restart now clk t) s)
          else s\<lparr>timerIdSet := timerIdSet s - {tid t}\<rparr>
        else s)"

definition reset_expired ::
  "'cb timer list \<Rightarrow> int \<Rightarrow> int \<Rightarrow> ('cb, 'z) timerq_scheme \<Rightarrow> ('cb, 'z) timerq_scheme" where
  "reset_expired expired now clk s =
     (let s' = reset_loop expired now clk s in
      if \<not> pq_empty (timers s') then resetTimerfd (twhen (pq_top (timers s'))) clk s' else s')"

definition handleRead ::
  "bool \<Rightarrow> ('cb \<Rightarrow> (('cb, 'z) timerq_scheme, fault) act) \<Rightarrow> int \<Rightarrow> int \<Rightarrow> (('cb, 'z) timerq_scheme, fault) act"
where
  "handleRead inloop run now clk s =
     (if \<not> inloop then raise ProcessExit s
      else
        let s0 = readTimerfd now s; (expired, rest) = getExpired now (timers s0) in
        andThen (run_expired run expired)
          (\<lambda>s. skip (reset_expired expired now clk (s\<lparr>callingExpiredTimers := False\<rparr>)))
          (s0\<lparr>timers := rest, callingExpiredTimers := True\<rparr>))"

section \<open>Timer identifiers\<close>

text \<open>The identifiers of the next \<open>n\<close> timers made when \<open>c\<close> have been.\<close>

fun next_ids :: "nat \<Rightarrow> 64 word \<Rightarrow> 64 word list" where
  "next_ids 0 c = []"
| "next_ids (Suc n) c =
     (let (t, c') = mk_Timer (None :: nat option) 0 0 c in tid t # next_ids n c')"

definition InvalidTimerId :: "64 word" where "InvalidTimerId = 0"

lemma next_ids_eq: "next_ids n c = map (\<lambda>i. c + word_of_nat (Suc i)) [0..<n]"
proof (induction n arbitrary: c)
  case (Suc n)
  have "[0..<Suc n] = 0 # map Suc [0..<n]" by (simp add: map_Suc_upt upt_conv_Cons)
  then show ?case using Suc by (simp add: mk_Timer_def Let_def add.assoc)
qed simp

text \<open>
  The identifiers of the first $2^{64} - 1$ timers are pairwise different, and none is the
  invalid identifier; the next one is.
\<close>

theorem timer_ids_distinct:
  "n < 2 ^ 64 \<Longrightarrow> distinct (next_ids n 0) \<and> InvalidTimerId \<notin> set (next_ids n 0) \<and>
     (n = 2 ^ 64 - 1 \<longrightarrow> next_ids 1 (word_of_nat n) = [InvalidTimerId])"
proof -
  assume n: "n < 2 ^ 64"
  have small: "unat (word_of_nat (Suc i) :: 64 word) = Suc i" if "i < n" for i
    using that n by (simp add: unat_of_nat del: of_nat_Suc)
  have eq: "next_ids n 0 = map (\<lambda>i. word_of_nat (Suc i)) [0..<n]"
    by (simp add: next_ids_eq)
  have "inj_on (\<lambda>i. word_of_nat (Suc i) :: 64 word) {0..<n}"
    by (rule inj_onI) (metis atLeastLessThan_iff small Suc_inject)
  then have "distinct (next_ids n 0)" by (simp add: eq distinct_map del: of_nat_Suc)
  moreover have "InvalidTimerId \<notin> set (next_ids n 0)"
    using small by (fastforce simp: eq InvalidTimerId_def simp del: of_nat_Suc)
  moreover have "next_ids 1 (word_of_nat n) = [InvalidTimerId]" if "n = 2 ^ 64 - 1"
    using that by (simp add: mk_Timer_def InvalidTimerId_def)
  ultimately show ?thesis by blast
qed

theorem timer_ids_distinct_witness: "distinct (next_ids 3 0) \<and> InvalidTimerId \<notin> set (next_ids 3 0)"
  using timer_ids_distinct [of 3] by simp

section \<open>Expiry and arming\<close>

lemma getExpired_sorted:
  assumes "pq_sorted q"
  shows "getExpired now q = (filter (\<lambda>t. twhen t \<le> now) q, filter (\<lambda>t. twhen t > now) q)"
  using assms
proof (induction q)
  case (Cons t q)
  then have s: "pq_sorted q" "\<forall>u \<in> set q. twhen t \<le> twhen u" by (simp_all add: pq_sorted_def)
  show ?case
  proof (cases "twhen t \<le> now")
    case False
    then have "\<forall>u \<in> set q. twhen u > now" using s by fastforce
    then have "filter (\<lambda>t. twhen t \<le> now) q = []" "filter (\<lambda>t. twhen t > now) q = q"
      by (auto simp: filter_empty_conv filter_id_conv)
    with False show ?thesis by simp
  qed (simp add: Cons.IH [OF s(1)])
qed simp

text \<open>
  With a clock that stands still the two overloads agree; with one that goes on, the other takes
  at least what was due at the first reading and nothing that is not due at its last one.
\<close>

lemma getExpired_reading_const: "getExpired_reading (\<lambda>_. now) i q = getExpired now q"
  by (induction q arbitrary: i) auto

lemma getExpired_reading_split:
  "getExpired_reading clk i q = (e, r) \<Longrightarrow> q = e @ r \<and> (\<forall>j < length e. twhen (e ! j) \<le> clk (i + j)) \<and>
     (r \<noteq> [] \<longrightarrow> clk (i + length e) < twhen (hd r))"
proof (induction q arbitrary: i e)
  case (Cons t q)
  show ?case
  proof (cases "twhen t \<le> clk i")
    case True
    then obtain e' where e: "e = t # e'" "getExpired_reading clk (Suc i) q = (e', r)"
      using Cons.prems by (auto split: prod.splits)
    have "twhen (e ! j) \<le> clk (i + j)" if "j < length e" for j
      using that True Cons.IH [OF e(2)] e(1) by (cases j) auto
    then show ?thesis using Cons.IH [OF e(2)] e(1) by auto
  qed (use Cons.prems in auto)
qed simp

theorem getExpired_now_bounds:
  assumes "mono clk" and "pq_sorted (timers s)" and "getExpired_now True clk s = Inr (e, s')"
  shows "timers s = e @ timers s' \<and> (\<forall>t \<in> set e. twhen t \<le> clk (length e)) \<and>
    (\<forall>t \<in> set (timers s'). clk (length e) < twhen t)"
proof -
  obtain q where q: "getExpired_reading clk 0 (timers s) = (e, q)" "timers s' = q"
    using assms(3) by (auto simp: getExpired_now_def split: prod.splits)
  note sp = getExpired_reading_split [OF q(1)]
  have "twhen t \<le> clk (length e)" if "t \<in> set e" for t
  proof -
    from \<open>t \<in> set e\<close> obtain j where j: "j < length e" "t = e ! j" unfolding in_set_conv_nth by metis
    then show ?thesis using sp monoD [OF assms(1), of j "length e"] by fastforce
  qed
  moreover have "clk (length e) < twhen t" if "t \<in> set q" for t
  proof (cases q)
    case (Cons u us)
    then have "twhen u \<le> twhen t" using that assms(2) sp by (auto simp: pq_sorted_def sorted_wrt_append)
    then show ?thesis using sp Cons by simp
  qed (use that in simp)
  ultimately show ?thesis using sp q(2) by simp
qed

lemma pq_sorted_filter: "pq_sorted q \<Longrightarrow> pq_sorted (filter P q)"
  by (simp add: pq_sorted_def sorted_wrt_filter)

lemma descriptor_setting:
  "case howMuchTimeFromNow w clk of (sec, nsec) \<Rightarrow>
     0 \<le> sec \<and> 0 \<le> nsec \<and> nsec < 1000000000 \<and> nsec mod 1000 = 0 \<and>
     100000 \<le> sec * 1000000000 + nsec \<and>
     (if w - clk \<ge> 100000
      then deadline (clk, sec, nsec) \<le> w \<and> w - 1000 < deadline (clk, sec, nsec)
      else deadline (clk, sec, nsec) = clk + 100000)"
proof -
  define us where "us = (w - clk) sdiv 1000"
  define us' where "us' = (if us < 100 then 100 else us)"
  have pos: "us' \<ge> 100" by (simp add: us'_def)
  have e: "howMuchTimeFromNow w clk = (us' div 1000000, (us' mod 1000000) * 1000)"
    using pos by (simp add: howMuchTimeFromNow_def us'_def us_def Let_def signed_divide_int_def
        signed_modulo_int_def)
  have s: "us' div 1000000 * 1000000000 + us' mod 1000000 * 1000 = us' * 1000"
    using div_mult_mod_eq [of us' 1000000] by linarith
  have d: "deadline (clk, us' div 1000000, (us' mod 1000000) * 1000) = clk + us' * 1000"
    using s by (simp add: deadline_def)
  have m: "0 \<le> us' mod 1000000" "us' mod 1000000 < 1000000" by simp_all
  have far: "us' * 1000 \<le> w - clk \<and> w - clk < us' * 1000 + 1000" if "w - clk \<ge> 100000"
  proof -
    have "us = (w - clk) div 1000" using that by (simp add: us_def signed_divide_int_def)
    moreover have "us \<ge> 100" using that calculation by simp
    ultimately have "us' = (w - clk) div 1000" by (simp add: us'_def)
    then show ?thesis
      using div_mult_mod_eq [of "w - clk" 1000] pos_mod_bound [of 1000 "w - clk"]
        pos_mod_sign [of 1000 "w - clk"] by linarith
  qed
  have near: "us' = 100" if "w - clk < 100000"
  proof -
    have "us < 100"
    proof (cases "w - clk \<ge> 0")
      case True
      then have "us = (w - clk) div 1000"
        by (cases "w = clk") (simp_all add: us_def signed_divide_int_def)
      then show ?thesis using that by simp
    next
      case False
      then have "us = - ((clk - w) div 1000)" by (simp add: us_def signed_divide_int_def)
      moreover have "(clk - w) div 1000 \<ge> 0" using False by (simp add: pos_imp_zdiv_nonneg_iff)
      ultimately show ?thesis by simp
    qed
    then show ?thesis by (simp add: us'_def)
  qed
  show ?thesis
  proof (cases "w - clk \<ge> 100000")
    case True
    then show ?thesis unfolding e using m pos far by (auto simp: d s)
  next
    case False
    then have "us' = 100" using near by simp
    then show ?thesis unfolding e using False by (simp add: deadline_def)
  qed
qed

text \<open>
  C32: how the timer descriptor is set.  The two fields are a legal \<^verbatim>\<open>timespec\<close>; the waiting
  time is at least 100 microseconds; a timer at least that far away makes the descriptor
  readable at its time, less than a microsecond early; and never later than its time or the
  minimal wait.
\<close>

theorem timerfd_deadline:
  "case howMuchTimeFromNow w clk of (sec, nsec) \<Rightarrow>
     0 \<le> sec \<and> 0 \<le> nsec \<and> nsec < 1000000000 \<and> nsec mod 1000 = 0 \<and>
     100000 \<le> sec * 1000000000 + nsec \<and>
     (if w - clk \<ge> 100000
      then deadline (clk, sec, nsec) \<le> w \<and> w - 1000 < deadline (clk, sec, nsec)
      else deadline (clk, sec, nsec) = clk + 100000)"
  by (rule descriptor_setting)

section \<open>Callbacks as programs\<close>

text \<open>
  A callback is a name, its body a list of the calls it can make on the queue in the loop's
  thread, or a throw.
\<close>

datatype tq_cmd = AddTimer "nat option" int int int | Invalidate "64 word" | Fail fault

definition addTimer_now ::
  "'cb option \<Rightarrow> int \<Rightarrow> int \<Rightarrow> int \<Rightarrow> (('cb, 'z) timerq_scheme, fault) act" where
  "addTimer_now cb w iv clk s =
     (let (t, n) = mk_Timer cb w iv (timersCreated s) in
      addTimerInLoop True t clk (s\<lparr>timersCreated := n\<rparr>))"

fun do_cmd :: "tq_cmd \<Rightarrow> ((nat, 'z) timerq_scheme, fault) act" where
  "do_cmd (AddTimer cb w iv clk) s = addTimer_now cb w iv clk s"
| "do_cmd (Invalidate i) s = skip (invalidate_in_loop i s)"
| "do_cmd (Fail e) s = raise e s"

fun do_cmds :: "tq_cmd list \<Rightarrow> ((nat, 'z) timerq_scheme, fault) act" where
  "do_cmds [] s = skip s"
| "do_cmds (c # cs) s = andThen (do_cmd c) (do_cmds cs) s"

inductive tq_reach :: "(nat \<Rightarrow> tq_cmd list) \<Rightarrow> nat timerq \<Rightarrow> bool" for prog where
  init: "tq_reach prog (mk_timerq n)"
| cmd: "tq_reach prog s \<Longrightarrow> do_cmd c s = (s', None) \<Longrightarrow> tq_reach prog s'"
| tick: "tq_reach prog s \<Longrightarrow> handleRead True (do_cmds \<circ> prog) now clk s = (s', None) \<Longrightarrow>
    tq_reach prog s'"

section \<open>The invariant\<close>

definition tq_frame :: "64 word set \<Rightarrow> ('cb, 'z) timerq_scheme \<Rightarrow> bool" where
  "tq_frame X s \<longleftrightarrow> pq_sorted (timers s) \<and> timerIdSet s \<subseteq> tid ` set (timers s) \<union> X"

definition tq_armed :: "('cb, 'z) timerq_scheme \<Rightarrow> bool" where
  "tq_armed s \<longleftrightarrow>
     (timers s \<noteq> [] \<longrightarrow>
      (\<exists>c. armed s = Some (c, howMuchTimeFromNow (twhen (pq_top (timers s))) c)))"

lemma frame_add:
  assumes "addTimerInLoop True t clk s = (s', e)" "tq_frame X s"
  shows "tq_frame X s'"
  using assms by (auto simp: addTimerInLoop_def insert_timer_def resetTimerfd_def tq_frame_def
      Let_def pq_sorted_push split: if_splits)

lemma armed_add:
  assumes "addTimerInLoop True t clk s = (s', e)" "tq_frame X s" "tq_armed s"
  shows "tq_armed s'"
proof -
  have k: "twhen (pq_top (pq_push t (timers s))) =
      (if pq_empty (timers s) \<or> timer_less t (pq_top (timers s)) then twhen t
       else twhen (pq_top (timers s)))"
    using timer_pq.top_push [of "timers s" t] assms(2) by (simp add: tq_frame_def timer_less_def)
  then show ?thesis using assms(1,3)
    by (auto simp: addTimerInLoop_def insert_timer_def resetTimerfd_def tq_armed_def Let_def
        pq_empty_def split: if_splits)
qed

lemma frame_do_cmd:
  assumes "do_cmd c s = (s', e)" "tq_frame X s"
  shows "tq_frame X s'"
proof (cases c)
  case (AddTimer cb w iv clk)
  have "tq_frame X (s\<lparr>timersCreated := n\<rparr>)" for n using assms(2) by (simp add: tq_frame_def)
  with AddTimer assms(1) show ?thesis
    by (auto simp: addTimer_now_def mk_Timer_def Let_def intro: frame_add)
qed (use assms in \<open>auto simp: invalidate_in_loop_def tq_frame_def\<close>)

lemma armed_do_cmd:
  assumes "do_cmd c s = (s', e)" "tq_frame X s" "tq_armed s"
  shows "tq_armed s'"
proof (cases c)
  case (AddTimer cb w iv clk)
  have "tq_frame X (s\<lparr>timersCreated := n\<rparr>)" "tq_armed (s\<lparr>timersCreated := n\<rparr>)" for n
    using assms(2,3) by (simp_all add: tq_frame_def tq_armed_def)
  with AddTimer assms(1) show ?thesis
    by (auto simp: addTimer_now_def mk_Timer_def Let_def intro: armed_add)
qed (use assms in \<open>auto simp: invalidate_in_loop_def tq_armed_def\<close>)

lemma frame_do_cmds: "do_cmds cs s = (s', e) \<Longrightarrow> tq_frame X s \<Longrightarrow> tq_frame X s'"
proof (induction cs arbitrary: s)
  case (Cons c cs)
  obtain s1 e1 where c: "do_cmd c s = (s1, e1)" by fastforce
  then have "tq_frame X s1" using Cons.prems(2) by (rule frame_do_cmd)
  with Cons c show ?case by (cases e1) auto
qed simp

text \<open>\<open>keeps run\<close>: a callback keeps every frame, whatever it does.\<close>

definition keeps :: "('cb \<Rightarrow> (('cb, 'z) timerq_scheme, fault) act) \<Rightarrow> bool" where
  "keeps run \<longleftrightarrow> (\<forall>X c s s' e. run c s = (s', e) \<longrightarrow> tq_frame X s \<longrightarrow> tq_frame X s')"

lemma keeps_do_cmds: "keeps (do_cmds \<circ> prog)"
  using frame_do_cmds by (auto simp: keeps_def)

lemma frame_run_expired:
  assumes "keeps run" "run_expired run ts s = (s', e)" "tq_frame X s"
  shows "tq_frame X s'"
  using assms(2,3)
proof (induction ts arbitrary: s)
  case (Cons t ts)
  define a where "a = (\<lambda>s. if tid t \<in> timerIdSet s then timer_run run t s else skip s)"
  obtain s1 e1 where a: "a s = (s1, e1)" by fastforce
  then have "tq_frame X s1" using Cons.prems(2) assms(1)
    by (fastforce simp: a_def timer_run_def keeps_def split: if_splits option.splits)
  moreover have "run_expired run (t # ts) s = andThen a (run_expired run ts) s" by (simp add: a_def)
  ultimately show ?case using Cons a by (cases e1) auto
qed simp

lemma tid_restart [simp]: "tid (restart now clk t) = tid t"
  by (simp add: restart_def)

lemma frame_reset_loop:
  assumes "tq_frame (tid ` set ts \<union> X) s"
  shows "tq_frame X (reset_loop ts now clk s)"
  using assms
proof (induction ts arbitrary: s)
  case (Cons t ts)
  show ?case
    by (simp, rule conjI; intro impI conjI Cons.IH)
      (use Cons.prems in \<open>auto simp: tq_frame_def insert_timer_def Let_def pq_sorted_push\<close>)
qed simp

lemma handleRead_ok:
  assumes "keeps run" "tq_frame {} s" "handleRead True run now clk s = (s', None)"
  shows "tq_frame {} s' \<and> tq_armed s' \<and> \<not> callingExpiredTimers s'"
proof -
  define q where "q = timers s"
  define s0 where "s0 = (readTimerfd now s)\<lparr>timers := snd (getExpired now q), callingExpiredTimers := True\<rparr>"
  define ex where "ex = fst (getExpired now q)"
  have tm: "timers (readTimerfd now s) = q" "timerIdSet (readTimerfd now s) = timerIdSet s"
    by (simp_all add: readTimerfd_def q_def split: option.splits)
  have h: "handleRead True run now clk s = andThen (run_expired run ex)
      (\<lambda>s. skip (reset_expired ex now clk (s\<lparr>callingExpiredTimers := False\<rparr>))) s0"
    by (simp add: handleRead_def tm s0_def ex_def Let_def split: prod.split)
  have so: "pq_sorted q" using assms(2) by (simp add: tq_frame_def q_def)
  have "set q = set ex \<union> set (snd (getExpired now q))"
    by (auto simp: ex_def getExpired_sorted [OF so])
  moreover have "pq_sorted (snd (getExpired now q))"
    by (simp add: getExpired_sorted [OF so] pq_sorted_filter so)
  moreover have "timerIdSet s \<subseteq> tid ` set q" using assms(2) by (simp add: tq_frame_def q_def)
  ultimately have f0: "tq_frame (tid ` set ex) s0"
    by (auto simp: tq_frame_def s0_def tm)
  obtain s1 e1 where r: "run_expired run ex s0 = (s1, e1)" by fastforce
  then have f1: "tq_frame (tid ` set ex) s1" using frame_run_expired [OF assms(1)] f0 by blast
  have "e1 = None" using assms(3) r by (cases e1) (simp_all add: h)
  then have s': "s' = reset_expired ex now clk (s1\<lparr>callingExpiredTimers := False\<rparr>)"
    using assms(3) r by (simp add: h)
  define s2 where "s2 = reset_loop ex now clk (s1\<lparr>callingExpiredTimers := False\<rparr>)"
  have "tq_frame {} s2" unfolding s2_def
    by (rule frame_reset_loop) (use f1 in \<open>simp add: tq_frame_def\<close>)
  moreover have "callingExpiredTimers (reset_loop ts now clk u) = callingExpiredTimers u" for ts
      and u :: "('a, 'b) timerq_scheme"
    by (induction ts arbitrary: u) (simp_all add: insert_timer_def Let_def)
  then have "\<not> callingExpiredTimers s2" by (simp add: s2_def)
  ultimately show ?thesis
    by (auto simp: s' reset_expired_def s2_def [symmetric] Let_def resetTimerfd_def tq_frame_def
        tq_armed_def pq_empty_def)
qed

text \<open>
  C9: whatever timers are added and invalidated, from outside or by the callbacks that run, as
  long as no callback throws: the queue stays in firing order, every valid identifier belongs
  to a queued timer, and while a timer is queued the descriptor is set for the earliest one.
\<close>

theorem timerq_invariant:
  assumes "tq_reach prog s"
  shows "pq_sorted (timers s) \<and> timerIdSet s \<subseteq> tid ` set (timers s) \<and>
    (timers s \<noteq> [] \<longrightarrow>
     (\<exists>c. armed s = Some (c, howMuchTimeFromNow (twhen (pq_top (timers s))) c)))"
proof -
  from assms have "tq_frame {} s \<and> tq_armed s"
  proof induction
    case (init n)
    then show ?case by (simp add: mk_timerq_def tq_frame_def tq_armed_def pq_sorted_def)
  next
    case (cmd s c s')
    then show ?case using frame_do_cmd armed_do_cmd by blast
  next
    case (tick s now clk s')
    then show ?case using handleRead_ok [OF keeps_do_cmds] by blast
  qed
  then show ?thesis by (simp add: tq_frame_def tq_armed_def)
qed

theorem timerq_invariant_witness:
  "\<exists>s :: nat timerq. map tid (timers s) = [1] \<and> pq_sorted (timers s) \<and>
     (\<exists>c. armed s = Some (c, howMuchTimeFromNow 500 c))"
proof -
  let ?s = "fst (do_cmd (AddTimer (Some 0) 500 0 7) (mk_timerq 0))"
  have "do_cmd (AddTimer (Some 0) 500 0 7) (mk_timerq 0) = (?s, None)"
    by (simp add: addTimer_now_def mk_Timer_def addTimerInLoop_def insert_timer_def Let_def)
  then have "tq_reach (\<lambda>_. []) ?s" by (rule tq_reach.cmd [OF tq_reach.init])
  from timerq_invariant [OF this] show ?thesis
    by (intro exI [of _ ?s])
      (simp add: addTimer_now_def mk_Timer_def addTimerInLoop_def insert_timer_def Let_def
        mk_timerq_def resetTimerfd_def pq_empty_def pq_top_def)
qed

section \<open>What one expiry does\<close>

text \<open>A callback that leaves the queue alone, as an entry in a log.\<close>

record 'cb logged_timerq = "'cb timerq" +
  runlog :: "'cb list"

definition log_cb :: "'cb \<Rightarrow> ('cb logged_timerq, fault) act" where
  "log_cb c s = (s\<lparr>runlog := runlog s @ [c]\<rparr>, None)"

lemma run_expired_log:
  "(\<forall>t \<in> set ts. tcallback t \<noteq> None) \<Longrightarrow>
   run_expired log_cb ts s =
     (s\<lparr>runlog := runlog s @ map (the \<circ> tcallback) (filter (\<lambda>t. tid t \<in> timerIdSet s) ts)\<rparr>, None)"
  by (induction ts arbitrary: s) (auto simp: andThen_def timer_run_def log_cb_def)

lemma reset_loop_eq:
  assumes "distinct (map tid ts)"
  shows "mset (timers (reset_loop ts now clk s)) =
           mset (timers s) +
           mset (map (restart now clk) (filter (\<lambda>t. trepeat t \<and> tid t \<in> timerIdSet s) ts))"
    and "timerIdSet (reset_loop ts now clk s) =
           timerIdSet s - tid ` {t \<in> set ts. \<not> trepeat t}"
  using assms
proof (induction ts arbitrary: s)
  case (Cons t ts)
  {
    case 1
    then have "\<forall>u \<in> set ts. tid u \<noteq> tid t" by (force simp: image_iff)
    then have "{#u \<in># mset ts. trepeat u \<and> tid u \<in> timerIdSet s \<and> tid u \<noteq> tid t#} =
        {#u \<in># mset ts. trepeat u \<and> tid u \<in> timerIdSet s#}"
      by (intro filter_mset_cong) auto
    with 1 Cons.IH(1) show ?case by (auto simp: insert_timer_def Let_def)
  next
    case 2
    then show ?case using Cons.IH(2) by (auto simp: insert_timer_def Let_def)
  }
qed simp_all

lemma reset_loop_sorted: "pq_sorted (timers s) \<Longrightarrow> pq_sorted (timers (reset_loop ts now clk s))"
  by (induction ts arbitrary: s) (simp_all add: insert_timer_def Let_def pq_sorted_push)

lemma reset_loop_runlog: "runlog (reset_loop ts now clk s) = runlog s"
  by (induction ts arbitrary: s) (simp_all add: insert_timer_def Let_def)

text \<open>An expiry up to its last step, the requeueing.\<close>

lemma handleRead_logged:
  fixes s :: "'cb logged_timerq" and now :: int
  assumes "pq_sorted (timers s)" and "\<forall>t \<in> set (timers s). tcallback t \<noteq> None"
  defines "due \<equiv> filter (\<lambda>t. twhen t \<le> now) (timers s)"
  shows "\<exists>a. handleRead True log_cb now clk s =
    (reset_expired due now clk (s\<lparr>armed := a, timers := filter (\<lambda>t. twhen t > now) (timers s),
       runlog := runlog s @ map (the \<circ> tcallback) (filter (\<lambda>t. tid t \<in> timerIdSet s) due),
       callingExpiredTimers := False\<rparr>), None)"
proof -
  have ge: "getExpired now (timers s) = (due, filter (\<lambda>t. twhen t > now) (timers s))"
    using getExpired_sorted assms(1) by (simp add: due_def)
  have rd: "readTimerfd now s = s\<lparr>armed := armed (readTimerfd now s)\<rparr>"
    by (simp add: readTimerfd_def split: option.split)
  have cb: "\<forall>t \<in> set due. tcallback t \<noteq> None" using assms(2) by (simp add: due_def)
  show ?thesis
    by (rule exI [of _ "armed (readTimerfd now s)"], subst handleRead_def, subst rd)
      (simp add: ge Let_def andThen_def run_expired_log [OF cb])
qed

text \<open>
  C18: one expiry at time \<open>now\<close>, with callbacks that leave the queue alone.  It runs the
  callbacks of exactly the due timers whose identifier is still valid, in firing order; keeps
  every timer not yet due, queues the valid repeating ones again one interval after \<open>now\<close>,
  and drops the others; so a cancelled timer never runs, a one-shot timer runs once, and no
  timer left in the queue is due.
\<close>

theorem expiry_runs_due_timers:
  fixes s :: "'cb logged_timerq"
  assumes "pq_sorted (timers s)" and "distinct (map tid (timers s))"
    and "\<forall>t \<in> set (timers s). tcallback t \<noteq> None"
    and "\<forall>t \<in> set (timers s). trepeat t \<longrightarrow> tinterval t > 0"
  shows "\<exists>s'. handleRead True log_cb now clk s = (s', None) \<and>
     runlog s' = runlog s @ map (the \<circ> tcallback)
       (filter (\<lambda>t. twhen t \<le> now \<and> tid t \<in> timerIdSet s) (timers s)) \<and>
     mset (timers s') = mset (filter (\<lambda>t. twhen t > now) (timers s)) +
       mset (map (restart now clk)
         (filter (\<lambda>t. twhen t \<le> now \<and> trepeat t \<and> tid t \<in> timerIdSet s) (timers s))) \<and>
     timerIdSet s' = timerIdSet s -
       tid ` set (filter (\<lambda>t. twhen t \<le> now \<and> \<not> trepeat t) (timers s)) \<and>
     (\<forall>t \<in> set (timers s'). twhen t > now)"
proof -
  define q where "q = timers s"
  define ex where "ex = filter (\<lambda>t. twhen t \<le> now) q"
  obtain a where h: "handleRead True log_cb now clk s =
      (reset_expired ex now clk (s\<lparr>armed := a, timers := filter (\<lambda>t. twhen t > now) q,
         runlog := runlog s @ map (the \<circ> tcallback) (filter (\<lambda>t. tid t \<in> timerIdSet s) ex),
         callingExpiredTimers := False\<rparr>), None)"
    using handleRead_logged [OF assms(1,3)] by (auto simp: ex_def q_def)
  define s1 where "s1 = s\<lparr>armed := a, timers := filter (\<lambda>t. twhen t > now) q,
    runlog := runlog s @ map (the \<circ> tcallback) (filter (\<lambda>t. tid t \<in> timerIdSet s) ex),
    callingExpiredTimers := False\<rparr>"
  have run: "handleRead True log_cb now clk s = (reset_expired ex now clk s1, None)"
    using h by (simp add: s1_def)
  define s2 where "s2 = reset_loop ex now clk s1"
  have res: "timers (reset_expired ex now clk s1) = timers s2"
      "timerIdSet (reset_expired ex now clk s1) = timerIdSet s2"
      "runlog (reset_expired ex now clk s1) = runlog s2"
    by (simp_all add: reset_expired_def s2_def Let_def resetTimerfd_def)
  have di: "distinct (map tid ex)"
    using assms(2) by (simp add: ex_def q_def distinct_map_filter)
  have f: "filter (\<lambda>t. trepeat t \<and> tid t \<in> timerIdSet s1) ex =
      filter (\<lambda>t. twhen t \<le> now \<and> trepeat t \<and> tid t \<in> timerIdSet s) q"
    by (simp add: ex_def s1_def conj_commute conj_left_commute)
  then have m: "mset (timers s2) = mset (filter (\<lambda>t. twhen t > now) q) +
      mset (map (restart now clk)
        (filter (\<lambda>t. twhen t \<le> now \<and> trepeat t \<and> tid t \<in> timerIdSet s) q))"
    using reset_loop_eq(1) [OF di, of now clk s1] by (simp add: s1_def s2_def)
  have "\<forall>t \<in># mset (timers s2). twhen t > now"
    unfolding m using assms(4) by (auto simp: restart_def q_def)
  moreover have "runlog s2 = runlog s1" "timerIdSet s2 = timerIdSet s - tid ` {t \<in> set ex. \<not> trepeat t}"
    using reset_loop_eq(2) [OF di, of now clk s1] by (simp_all add: s2_def s1_def reset_loop_runlog)
  ultimately have "runlog s2 = runlog s @ map (the \<circ> tcallback) (filter (\<lambda>t. tid t \<in> timerIdSet s) ex)"
      "timerIdSet s2 = timerIdSet s - tid ` {t \<in> set ex. \<not> trepeat t}"
      "\<forall>t \<in> set (timers s2). twhen t > now"
    by (simp_all add: s1_def)
  moreover have "filter (\<lambda>t. tid t \<in> timerIdSet s) ex =
      filter (\<lambda>t. twhen t \<le> now \<and> tid t \<in> timerIdSet s) q"
    by (simp add: ex_def conj_commute)
  moreover have "{t \<in> set ex. \<not> trepeat t} = set (filter (\<lambda>t. twhen t \<le> now \<and> \<not> trepeat t) q)"
    by (auto simp: ex_def)
  ultimately show ?thesis using run res m
    by (intro exI [of _ "reset_expired ex now clk s1"]) (simp add: q_def)
qed

text \<open>Two timers, the first due, one-shot and valid, the second later.\<close>

definition two_timers :: "nat logged_timerq" where
  "two_timers =
     \<lparr>timers = [fst (mk_Timer (Some 0) 10 0 0), fst (mk_Timer (Some 1) 90 5 1)],
      timerIdSet = {1, 2}, callingExpiredTimers = False, timersCreated = 2,
      armed = Some (0, howMuchTimeFromNow 10 0), runlog = []\<rparr>"

theorem expiry_runs_due_timers_witness:
  "\<exists>s'. handleRead True log_cb 20 21 two_timers = (s', None) \<and> runlog s' = [0] \<and>
     timerIdSet s' = {2} \<and> map tid (timers s') = [2]"
proof -
  have "\<exists>s'. handleRead True log_cb 20 21 two_timers = (s', None) \<and>
      runlog s' = [0] \<and> timerIdSet s' = {2} \<and> mset (timers s') = {#fst (mk_Timer (Some 1) 90 5 1)#}"
    using expiry_runs_due_timers [of two_timers 20 21]
    by (auto simp: two_timers_def mk_Timer_def pq_sorted_def)
  then obtain s' where s': "handleRead True log_cb 20 21 two_timers = (s', None)"
      "runlog s' = [0]" "timerIdSet s' = {2}" "mset (timers s') = {#fst (mk_Timer (Some 1) 90 5 1)#}"
    by blast
  then have "timers s' = [fst (mk_Timer (Some 1) 90 5 1)]" by simp
  then have "map tid (timers s') = [2]" by (simp add: mk_Timer_def)
  with s' show ?thesis by (intro exI [of _ s']) simp
qed

text \<open>
  An exception in a callback stalls the queue.  When the first due timer's callback throws,
  the other due timers are gone from the queue although their identifiers stay valid, the
  descriptor is not set again, and adding a timer that is not the earliest does not set it
  either, so that the timers still queued have nothing to wake them up.
\<close>

theorem callback_exception_stalls_queue:
  fixes s :: "nat timerq"
  assumes "timers s = t # q" and "pq_sorted (t # q)" and "twhen t \<le> now"
    and "tid t \<in> timerIdSet s" and "tcallback t = Some c" and "prog c = [Fail e]"
    and "armed s = Some a" and "deadline a \<le> now"
  shows "\<exists>s'. handleRead True (do_cmds \<circ> prog) now clk s = (s', Some e) \<and>
     timers s' = filter (\<lambda>u. twhen u > now) q \<and> timerIdSet s' = timerIdSet s \<and>
     callingExpiredTimers s' \<and> armed s' = None \<and>
     (timers s' \<noteq> [] \<longrightarrow> twhen u \<ge> twhen (pq_top (timers s')) \<longrightarrow>
      armed (fst (addTimerInLoop True u clk' s')) = None)"
proof -
  define s1 where "s1 = s\<lparr>armed := None, timers := filter (\<lambda>u. twhen u > now) q,
    callingExpiredTimers := True\<rparr>"
  have "getExpired now (t # q) = (t # filter (\<lambda>u. twhen u \<le> now) q, filter (\<lambda>u. twhen u > now) q)"
    using getExpired_sorted [OF assms(2), of now] assms(3) by simp
  then have "handleRead True (do_cmds \<circ> prog) now clk s = (s1, Some e)"
    using assms by (simp add: handleRead_def readTimerfd_def Let_def s1_def andThen_def
        timer_run_def)
  then show ?thesis
    by (intro exI [of _ s1])
      (auto simp: s1_def addTimerInLoop_def insert_timer_def pq_empty_def timer_less_def Let_def)
qed

theorem callback_exception_stalls_queue_witness:
  "\<exists>s'. handleRead True (do_cmds \<circ> (\<lambda>c. if c = 0 then [Fail ThrowForeign] else [])) 200000 200001
       \<lparr>timers = [fst (mk_Timer (Some 0) 10 5 0), fst (mk_Timer (Some 1) 900000 5 1)],
        timerIdSet = {1, 2}, callingExpiredTimers = False, timersCreated = 2,
        armed = Some (0, 0, 100000)\<rparr> = (s', Some ThrowForeign) \<and>
     map tid (timers s') = [2] \<and> armed s' = None"
  using callback_exception_stalls_queue [where now = 200000 and clk = 200001 and e = ThrowForeign
      and prog = "\<lambda>c. if c = 0 then [Fail ThrowForeign] else []" and c = 0 and a = "(0, 0, 100000)"
      and t = "fst (mk_Timer (Some 0) 10 5 0)" and q = "[fst (mk_Timer (Some 1) 900000 5 1)]"
      and s = "\<lparr>timers = [fst (mk_Timer (Some 0) 10 5 0), fst (mk_Timer (Some 1) 900000 5 1)],
        timerIdSet = {1, 2}, callingExpiredTimers = False, timersCreated = 2,
        armed = Some (0, 0, 100000)\<rparr>"]
  by (fastforce simp: mk_Timer_def pq_sorted_def deadline_def)

section \<open>The descriptor of the queue\<close>

text \<open>
  The constructor registers a dispatcher for the timer descriptor, whose read callback \<open>hr\<close> is
  the closure that calls \<open>handleRead\<close>; the destructor, in the loop's thread, takes it out again; \<^verbatim>\<open>reset\<close> replaces
  descriptor and dispatcher and sets the new descriptor for the earliest timer.  A descriptor
  just created is not set.
\<close>

definition open_timerfd ::
  "'c \<Rightarrow> ('c, 'p) registrar \<Rightarrow> nat \<Rightarrow> int \<Rightarrow> 'p \<Rightarrow> fault + 'c dispatcher \<times> 'p" where
  "open_timerfd hr upd l timerfd p =
     enableReading upd (setReadCallback (Some hr) (mk_EventDispatcher l timerfd)) p"

definition close_timerfd ::
  "('cb, 'p) registrar \<Rightarrow> ('cb, 'p) registrar \<Rightarrow> ('cb, 'p) registrar" where
  "close_timerfd upd rem d p =
     obind (disableAll upd d p) (\<lambda>(d', p'). remove_dispatcher rem d' p')"

definition reset_timerq ::
  "'c \<Rightarrow> (addr \<Rightarrow> ('c, 'p) registrar) \<Rightarrow> (addr \<Rightarrow> ('c, 'p) registrar) \<Rightarrow> addr \<Rightarrow> addr \<Rightarrow>
   int \<Rightarrow> int \<Rightarrow> 'c dispatcher \<Rightarrow> ('cb, 'z) timerq_scheme \<Rightarrow> 'p \<Rightarrow>
   fault + 'c dispatcher \<times> ('cb, 'z) timerq_scheme \<times> 'p" where
  "reset_timerq hr upd rem old new newfd clk d s p =
     obind (close_timerfd (upd old) (rem old) d p) (\<lambda>(_, p1).
     obind (open_timerfd hr (upd new) (dloop d) newfd p1) (\<lambda>(d2, p2).
       let s1 = s\<lparr>armed := None\<rparr> in
       Inr (d2, if \<not> pq_empty (timers s1) then resetTimerfd (twhen (pq_top (timers s1))) clk s1
                else s1, p2)))"

text \<open>
  Replacing the timer descriptor of a queue whose dispatcher is watched succeeds; the new
  descriptor is watched for reading by the new dispatcher and set for the earliest timer, the
  old one is watched no more (unless the kernel handed out the same number again), and the
  timers are untouched.
\<close>

theorem reset_timerq_rearms:
  assumes "epoll_kernel ctl interest pollable" and "inloop l"
    and "watched interest pollable l old d p" and "newfd \<ge> 0" and "pollable newfd"
    and "newfd = fd d \<or> interest (kern p) newfd = None"
  shows "\<exists>d' s' p'. reset_timerq hr (loop_updateEventDispatcher inloop ctl l)
        (loop_removeEventDispatcher inloop ctl l) old new newfd clk d s p = Inr (d', s', p') \<and>
     interest (kern p') newfd = Some (kReadEvent, new) \<and>
     (newfd \<noteq> fd d \<longrightarrow> interest (kern p') (fd d) = None) \<and>
     readCallback d' = Some hr \<and> timers s' = timers s \<and> timerIdSet s' = timerIdSet s \<and>
     (if timers s = [] then armed s' = None
      else armed s' = Some (clk, howMuchTimeFromNow (twhen (pq_top (timers s))) clk))"
proof -
  have c: "epoll_client ctl interest pollable inloop l"
    using assms(1,2) by (simp add: epoll_client_def epoll_client_axioms_def)
  have l: "dloop d = l" "ploop p = Some l" using assms(3) by (simp_all add: watched_def known_by_def)
  obtain d1 p1 where r: "close_timerfd (loop_updateEventDispatcher inloop ctl l old)
        (loop_removeEventDispatcher inloop ctl l old) d p = Inr (d1, p1)"
      "unwatched interest pollable l old d1 p1" "fd d1 = fd d"
      "\<forall>f. f \<noteq> fd d \<longrightarrow> interest (kern p1) f = interest (kern p) f"
    using epoll_client.session_ok [OF c watched_known [OF assms(3)], of "[]"]
    by (auto simp: close_timerfd_def run_ops_single simp del: run_ops.simps)
  have n: "interest (kern p1) (fd d) = None" "ploop p1 = Some l"
    using r(2,3) by (auto simp: unwatched_def known_by_def poller_states)
  then have "interest (kern p1) newfd = None" using assms(6) r(4) by metis
  moreover define d0 where "d0 = (setReadCallback (Some hr) (mk_EventDispatcher l newfd))
      \<lparr>events := kReadEvent\<rparr>"
  ultimately have "known_by interest pollable l new d0 p1"
    using assms(4,5) n(2) by (simp add: known_by_def setReadCallback_def poller_states)
  moreover have d0: "fd d0 = newfd" "events d0 = kReadEvent" "readCallback d0 = Some hr"
    by (simp_all add: d0_def setReadCallback_def)
  ultimately obtain d2 p2 where u: "loop_updateEventDispatcher inloop ctl l new d0 p1 = Inr (d2, p2)"
      "watched interest pollable l new d2 p2" "events d2 = kReadEvent" "fd d2 = newfd"
      "\<forall>f. f \<noteq> newfd \<longrightarrow> interest (kern p2) f = interest (kern p1) f"
    using epoll_client.update_ok [OF c, of new d0 p1] by metis
  have rc: "readCallback d2 = readCallback d0"
    using u(1) by (auto simp: loop_updateEventDispatcher_def registerEventDispatcher_def setState_def
        Let_def outcome_simps split: if_splits)
  have o: "open_timerfd hr (loop_updateEventDispatcher inloop ctl l new) l newfd p1 = Inr (d2, p2)"
    using u(1) by (simp add: open_timerfd_def enableReading_def d0_def setReadCallback_def
        mk_EventDispatcher_def)
  have "kReadEvent \<noteq> kNoneEvent" by (simp add: event_bits)
  then have w: "interest (kern p2) newfd = Some (kReadEvent, new)"
    using u(2,3,4) by (auto simp: watched_def split: if_splits)
  show ?thesis using r(1) o u(5) w n(1) rc d0(3) l
    by (simp add: reset_timerq_def Let_def resetTimerfd_def pq_empty_def)
qed

theorem reset_timerq_rearms_witness:
  "\<exists>d' s' p'. reset_timerq (0::nat) (loop_updateEventDispatcher (\<lambda>x. x = 0) table_ctl 0)
      (loop_removeEventDispatcher (\<lambda>x. x = 0) table_ctl 0) 7 8 5 21
      ((mk_EventDispatcher 0 5)\<lparr>events := kReadEvent, dstate := kAdded\<rparr>) (mk_timerq 0 :: nat timerq)
      (mk_EpollPoller [5 \<mapsto> (kReadEvent, 7)] 0) = Inr (d', s', p') \<and>
   table_interest (kern p') 5 = Some (kReadEvent, 8) \<and> armed s' = None"
  using reset_timerq_rearms [OF table.epoll_kernel_axioms, where inloop = "\<lambda>x. x = 0" and l = 0
      and hr = "0::nat" and old = 7 and new = 8 and newfd = 5 and clk = 21 and s = "mk_timerq 0 :: nat timerq"
      and p = "mk_EpollPoller [5 \<mapsto> (kReadEvent, 7)] 0"
      and d = "(mk_EventDispatcher 0 5)\<lparr>events := kReadEvent, dstate := kAdded\<rparr>"]
  by (fastforce simp: table_interest_def table_pollable_def watched_def known_by_def poller_states
      mk_timerq_def)

theorem getExpired_now_bounds_witness:
  "\<exists>s :: nat timerq. \<exists>e s'. getExpired_now True (\<lambda>i. int i) s = Inr (e, s') \<and> length e = 1 \<and> timers s' = []"
proof -
  let ?t = "\<lparr>tcallback = Some (4 :: nat), twhen = 0, tinterval = 0, trepeat = False, tid = 1\<rparr>"
  let ?s = "(mk_timerq 1)\<lparr>timers := [?t]\<rparr> :: nat timerq"
  have g: "getExpired_now True (\<lambda>i. int i) ?s = Inr ([?t], ?s\<lparr>timers := []\<rparr>)"
    by (simp add: getExpired_now_def)
  have "mono int" by (simp add: mono_def)
  from getExpired_now_bounds [OF this _ g] g show ?thesis
    by (intro exI [of _ ?s] exI [of _ "[?t]"] exI [of _ "?s\<lparr>timers := []\<rparr>"]) (simp add: pq_sorted_def)
qed

end
