(* ===== verification/EventLoop.thy ===== *)
theory EventLoop
  imports TimerQueue MPSCQueue
begin

text \<open>
  The event loop of \<^verbatim>\<open>event/EventLoop.h\<close> and \<^verbatim>\<open>event/EventLoop.cpp\<close>: the queues of closures,
  the rounds of polling, dispatching and running what was queued, the way out of the loop, and
  the thread-local slot that ties a loop to its thread.

  User code is a program: a closure is a number, \<open>prog\<close> gives the calls on the loop that its
  body makes.  The operations of other threads are lists of such calls at the points where the
  loop waits.  The fuel \<open>n\<close> bounds the depth of closures that call closures, \<open>k\<close> the number of
  closures taken from a queue in one go; running out of either, or of the events that the
  environment supplies, is \<open>NotReturned\<close>.
\<close>

section \<open>State\<close>

datatype task = UserTask nat | AddTimerTask "nat timer" | InvalidateTask "64 word" | CloseTimerfdTask

datatype loop_cb = HandleRead | WakeupRead | UserCb nat

text \<open>
  The fields of the class (the timer queue is part of it), the counter of the wake-up
  descriptor, the thread-local slots, the clocks, the dispatchers on the heap and the objects
  they may be tied to, and the closures run so far.  An empty \<^verbatim>\<open>std::function\<close> is \<open>None\<close>.
\<close>

record eloop = "nat timerq" +
  self :: nat
  looping :: bool
  quitting :: bool
  threadId :: nat
  funcs :: "task option mpsc"
  funcsOnQuit :: "nat option mpsc"
  callingFuncs :: bool
  eventHandling :: bool
  wakeCount :: nat
  slots :: "nat \<Rightarrow> nat option"
  slotOf :: nat
  clock :: int
  wall :: int
  disps :: "loop_cb dstore"
  pollr :: "unit poller"
  liveObjs :: "nat set"
  trace :: "nat list"

text \<open>
  The constructor, called in thread \<open>th\<close> for the loop \<open>me\<close>, with the two descriptors that the
  system made: it registers the dispatchers of the timer queue and of the wake-up descriptor,
  and a second loop in a thread ends the process.  The interest table of the kernel is not
  part of this state (\<open>unit_ctl\<close>), its properties are those of the poller.
\<close>

definition unit_ctl :: "unit epoll_ctl" where
  "unit_ctl k opr f m a = ((), True)"

definition timer_addr :: addr where "timer_addr = 0"
definition wake_addr :: addr where "wake_addr = 1"

definition mk_EventLoop ::
  "nat \<Rightarrow> nat \<Rightarrow> (nat \<Rightarrow> nat option) \<Rightarrow> int \<Rightarrow> int \<Rightarrow> 64 word \<Rightarrow> int \<Rightarrow> int \<Rightarrow> fault + eloop" where
  "mk_EventLoop me th sl clk wl created timerfd wakefd =
     (let upd = loop_updateEventDispatcher (\<lambda>_. True) unit_ctl me in
      obind (open_timerfd HandleRead (upd timer_addr) me timerfd (mk_EpollPoller () me)) (\<lambda>(d0, p0).
      obind (guard_or ProcessExit (sl th = None)) (\<lambda>_.
      obind (enableReading (upd wake_addr)
               (setReadCallback (Some WakeupRead) (mk_EventDispatcher me wakefd)) p0) (\<lambda>(d1, p1).
        Inr (timerq.extend (mk_timerq created)
          \<lparr>self = me, looping = False, quitting = False, threadId = th, funcs = mk_MPSCQueue,
           funcsOnQuit = mk_MPSCQueue, callingFuncs = False, eventHandling = False, wakeCount = 0,
           slots = sl(th \<mapsto> me), slotOf = th, clock = clk, wall = wl,
           disps = [timer_addr \<mapsto> d0, wake_addr \<mapsto> d1], pollr = p1, liveObjs = {},
           trace = []\<rparr>)))))"

definition isInLoopThread :: "nat \<Rightarrow> eloop \<Rightarrow> bool" where
  "isInLoopThread th s \<longleftrightarrow> threadId s = th"

definition isRunning :: "eloop \<Rightarrow> bool" where
  "isRunning s \<longleftrightarrow> looping s \<and> \<not> quitting s"

definition assertInLoopThread :: "nat \<Rightarrow> (eloop, fault) act" where
  "assertInLoopThread th s = (if isInLoopThread th s then skip s else raise ProcessExit s)"

section \<open>Waking up\<close>

definition wakeup :: "eloop \<Rightarrow> eloop" where
  "wakeup s = s\<lparr>wakeCount := wakeCount s + 1\<rparr>"

text \<open>A read of an event descriptor takes the whole counter; an empty one is only logged.\<close>

definition wakeupRead :: "eloop \<Rightarrow> eloop" where
  "wakeupRead s = s\<lparr>wakeCount := 0\<rparr>"

definition loop_quit :: "nat \<Rightarrow> eloop \<Rightarrow> eloop" where
  "loop_quit th s =
     (let s1 = s\<lparr>quitting := True\<rparr> in if \<not> isInLoopThread th s1 then wakeup s1 else s1)"

section \<open>Queueing\<close>

definition queueInLoop :: "nat \<Rightarrow> task option \<Rightarrow> (eloop, fault) act" where
  "queueInLoop th cb s =
     (if cb = None then skip s
      else
        case enqueue cb (funcs s) of
          Inl e \<Rightarrow> raise e s
        | Inr q \<Rightarrow>
            (let s1 = s\<lparr>funcs := q\<rparr> in
             skip (if \<not> isInLoopThread th s1 \<or> \<not> looping s1 then wakeup s1 else s1)))"

definition runOnQuit :: "nat option \<Rightarrow> (eloop, fault) act" where
  "runOnQuit cb s =
     (case enqueue cb (funcsOnQuit s) of Inl e \<Rightarrow> raise e s | Inr q \<Rightarrow> skip (s\<lparr>funcsOnQuit := q\<rparr>))"

text \<open>\<^verbatim>\<open>runInLoop\<close>: \<open>run\<close> is the call of the functor itself.\<close>

definition runInLoop :: "(task \<Rightarrow> (eloop, fault) act) \<Rightarrow> nat \<Rightarrow> task \<Rightarrow> (eloop, fault) act" where
  "runInLoop run th f s =
     (if isInLoopThread th s then run f s else queueInLoop th (Some f) s)"

section \<open>Timers\<close>

text \<open>
  The closures that the timer queue hands to its loop; the last one, of its destructor, holds the
  dispatcher of the timer descriptor, takes it out of the poller and lets it go.
\<close>

definition close_timerfd_in_loop :: "nat \<Rightarrow> (eloop, fault) act" where
  "close_timerfd_in_loop th s =
     (let inl = (\<lambda>_. isInLoopThread th s) in
      case disps s timer_addr of
        None \<Rightarrow> raise NullDeref s
      | Some d \<Rightarrow>
          (case close_timerfd (loop_updateEventDispatcher inl unit_ctl (self s) timer_addr)
                  (loop_removeEventDispatcher inl unit_ctl (self s) timer_addr) d (pollr s) of
             Inl e \<Rightarrow> raise e s
           | Inr (_, p) \<Rightarrow> skip (s\<lparr>disps := (disps s)(timer_addr := None), pollr := p\<rparr>)))"

definition run_timer_task :: "nat \<Rightarrow> task \<Rightarrow> (eloop, fault) act" where
  "run_timer_task th f s =
     (case f of
        AddTimerTask t \<Rightarrow> addTimerInLoop (isInLoopThread th s) t (clock s) s
      | InvalidateTask i \<Rightarrow> skip (invalidate_in_loop i s)
      | CloseTimerfdTask \<Rightarrow> close_timerfd_in_loop th s
      | UserTask _ \<Rightarrow> skip s)"

definition addTimer :: "nat \<Rightarrow> nat option \<Rightarrow> int \<Rightarrow> int \<Rightarrow> (eloop, fault) act" where
  "addTimer th cb w iv s =
     (let (t, n) = mk_Timer cb w iv (timersCreated s) in
      runInLoop (run_timer_task th) th (AddTimerTask t) (s\<lparr>timersCreated := n\<rparr>))"

text \<open>Wall-clock times and delays are in microseconds.\<close>

definition runAt :: "nat \<Rightarrow> int \<Rightarrow> nat option \<Rightarrow> (eloop, fault) act" where
  "runAt th time cb s =
     (let us = time - wall s; tp = clock s + us * 1000 in addTimer th cb tp 0 s)"

definition runAfter :: "nat \<Rightarrow> int \<Rightarrow> nat option \<Rightarrow> (eloop, fault) act" where
  "runAfter th delay cb s = runAt th (wall s + delay) cb s"

definition runEvery :: "nat \<Rightarrow> int \<Rightarrow> nat option \<Rightarrow> (eloop, fault) act" where
  "runEvery th dur cb s = addTimer th cb (clock s + dur * 1000) dur s"

definition timerq_invalidateTimer :: "nat \<Rightarrow> 64 word \<Rightarrow> (eloop, fault) act" where
  "timerq_invalidateTimer th i s = runInLoop (run_timer_task th) th (InvalidateTask i) s"

definition invalidateTimer :: "nat \<Rightarrow> 64 word \<Rightarrow> (eloop, fault) act" where
  "invalidateTimer th i s = (if isRunning s then timerq_invalidateTimer th i s else skip s)"

section \<open>Closures\<close>

text \<open>The calls a closure can make; \<open>Destroy a\<close> deletes the dispatcher at \<open>a\<close>.\<close>

datatype cmd =
    QueueInLoop "nat option"
  | RunInLoop nat
  | RunOnQuit "nat option"
  | Quit
  | RunAt int "nat option"
  | RunAfter int "nat option"
  | RunEvery int "nat option"
  | InvalidateTimer "64 word"
  | Destroy addr
  | Raise fault

fun simple_cmd :: "nat \<Rightarrow> cmd \<Rightarrow> (eloop, fault) act" where
  "simple_cmd th (QueueInLoop cb) s = queueInLoop th (map_option UserTask cb) s"
| "simple_cmd th (RunInLoop f) s = queueInLoop th (Some (UserTask f)) s"
| "simple_cmd th (RunOnQuit cb) s = runOnQuit cb s"
| "simple_cmd th Quit s = skip (loop_quit th s)"
| "simple_cmd th (RunAt t cb) s = runAt th t cb s"
| "simple_cmd th (RunAfter t cb) s = runAfter th t cb s"
| "simple_cmd th (RunEvery t cb) s = runEvery th t cb s"
| "simple_cmd th (InvalidateTimer i) s = invalidateTimer th i s"
| "simple_cmd th (Destroy a) s = skip (s\<lparr>disps := (disps s)(a := None)\<rparr>)"
| "simple_cmd th (Raise e) s = raise e s"

type_synonym program = "nat \<Rightarrow> cmd list"

text \<open>
  The body of a closure in thread \<open>th\<close>.  A \<open>RunInLoop\<close> in the loop's thread calls the other
  closure on the spot, in any other thread it queues it.
\<close>

fun exec :: "program \<Rightarrow> nat \<Rightarrow> nat \<Rightarrow> cmd list \<Rightarrow> (eloop, fault) act" where
  "exec prog th n [] s = skip s"
| "exec prog th n (RunInLoop f # cs) s =
     andThen (\<lambda>s. if isInLoopThread th s then
                   (case n of 0 \<Rightarrow> raise NotReturned s
                    | Suc m \<Rightarrow> exec prog th m (prog f) (s\<lparr>trace := trace s @ [f]\<rparr>))
                 else queueInLoop th (Some (UserTask f)) s)
       (exec prog th n cs) s"
| "exec prog th n (c # cs) s = andThen (simple_cmd th c) (exec prog th n cs) s"

lemma exec_simple:
  "\<nexists>f. c = RunInLoop f \<Longrightarrow>
   exec prog th n (c # cs) s = andThen (simple_cmd th c) (exec prog th n cs) s"
  by (cases c) (simp_all only: exec.simps, blast)

definition run_func :: "program \<Rightarrow> nat \<Rightarrow> nat \<Rightarrow> nat \<Rightarrow> (eloop, fault) act" where
  "run_func prog th n f s = exec prog th n (prog f) (s\<lparr>trace := trace s @ [f]\<rparr>)"

definition run_task :: "program \<Rightarrow> nat \<Rightarrow> nat \<Rightarrow> task \<Rightarrow> (eloop, fault) act" where
  "run_task prog th n f s =
     (case f of UserTask g \<Rightarrow> run_func prog th n g s | _ \<Rightarrow> run_timer_task th f s)"

section \<open>Running what was queued\<close>

text \<open>
  The two nested loops of \<^verbatim>\<open>doRunInLoopFuncs\<close>: take a closure and run it; when there is none,
  look again whether the queue is empty.
\<close>

fun run_funcs :: "program \<Rightarrow> nat \<Rightarrow> nat \<Rightarrow> nat \<Rightarrow> (eloop, fault) act" where
  "run_funcs prog th n 0 s = raise NotReturned s"
| "run_funcs prog th n (Suc k) s =
     (case dequeue (funcs s) of
        Inl e \<Rightarrow> raise e s
      | Inr (None, q) \<Rightarrow>
          (case queue_empty q of
             Inl e \<Rightarrow> raise e s
           | Inr b \<Rightarrow> if b then skip (s\<lparr>funcs := q\<rparr>) else run_funcs prog th n k (s\<lparr>funcs := q\<rparr>))
      | Inr (Some None, q) \<Rightarrow> run_funcs prog th n k (s\<lparr>funcs := q\<rparr>)
      | Inr (Some (Some f), q) \<Rightarrow>
          andThen (run_task prog th n f) (run_funcs prog th n k) (s\<lparr>funcs := q\<rparr>))"

definition doRunInLoopFuncs :: "program \<Rightarrow> nat \<Rightarrow> nat \<Rightarrow> nat \<Rightarrow> (eloop, fault) act" where
  "doRunInLoopFuncs prog th n k s =
     scopeExit (\<lambda>s. s\<lparr>callingFuncs := False\<rparr>) (run_funcs prog th n k) (s\<lparr>callingFuncs := True\<rparr>)"

section \<open>A round of the loop\<close>

definition run_cb :: "program \<Rightarrow> nat \<Rightarrow> nat \<Rightarrow> loop_cb \<Rightarrow> (eloop, fault) act" where
  "run_cb prog th n cb s =
     (case cb of
        WakeupRead \<Rightarrow> skip (wakeupRead s)
      | HandleRead \<Rightarrow>
          handleRead (isInLoopThread th s) (run_func prog th n) (clock s) (clock s) s
      | UserCb f \<Rightarrow> run_func prog th n f s)"

definition disp_at :: "addr \<Rightarrow> eloop \<Rightarrow> loop_cb dispatcher" where
  "disp_at a s = (case disps s a of Some d \<Rightarrow> d | None \<Rightarrow> mk_EventDispatcher 0 0)"

text \<open>
  A deleted dispatcher in the list of active ones is an access to freed memory, and so is a
  callback that deletes its own dispatcher.
\<close>

fun handle_active :: "program \<Rightarrow> nat \<Rightarrow> nat \<Rightarrow> addr list \<Rightarrow> (eloop, fault) act" where
  "handle_active prog th n [] s = skip s"
| "handle_active prog th n (a # as) s =
     andThen
       (\<lambda>s. if disps s a = None then raise UseAfterFree s
            else handleEvent (disp_at a)
              (\<lambda>cb. andThen (run_cb prog th n cb)
                 (\<lambda>s. if disps s a = None then raise UseAfterFree s else skip s))
              (\<lambda>s obj. obj \<in> liveObjs s) s)
       (handle_active prog th n as) s"

text \<open>
  What the environment does while the loop waits: the calls of other threads, each with the time
  at which it is made, the time at which \<^verbatim>\<open>epoll_wait\<close> returns, and its answer.
\<close>

record round =
  others :: "(nat \<times> int \<times> cmd list) list"
  returns_at :: int
  answer :: wait_result

fun run_others :: "program \<Rightarrow> nat \<Rightarrow> (nat \<times> int \<times> cmd list) list \<Rightarrow> eloop \<Rightarrow> eloop" where
  "run_others prog n [] s = s"
| "run_others prog n ((t, c, cs) # os) s = run_others prog n os (fst (exec prog t n cs (s\<lparr>clock := c\<rparr>)))"

definition loop_body :: "program \<Rightarrow> nat \<Rightarrow> nat \<Rightarrow> nat \<Rightarrow> round \<Rightarrow> (eloop, fault) act" where
  "loop_body prog th n k r s =
     (let s1 = (run_others prog n (others r) s)\<lparr>clock := returns_at r\<rparr> in
      case poll (answer r) (pollr s1) (disps s1) [] of
        Inl e \<Rightarrow> raise e s1
      | Inr (p, h, active) \<Rightarrow>
          andThen (handle_active prog th n active)
            (\<lambda>s. doRunInLoopFuncs prog th n k (s\<lparr>eventHandling := False\<rparr>))
            (s1\<lparr>pollr := p, disps := h, eventHandling := True\<rparr>))"

fun loop_rounds :: "program \<Rightarrow> nat \<Rightarrow> nat \<Rightarrow> nat \<Rightarrow> round list \<Rightarrow> (eloop, fault) act" where
  "loop_rounds prog th n k [] s = (if quitting s then skip s else raise NotReturned s)"
| "loop_rounds prog th n k (r # rs) s =
     (if quitting s then skip s
      else andThen (loop_body prog th n k r) (loop_rounds prog th n k rs) s)"

text \<open>\<^verbatim>\<open>while (funcsOnQuit_.dequeue(f)) f();\<close> calling an empty function throws.\<close>

fun run_quit_funcs :: "program \<Rightarrow> nat \<Rightarrow> nat \<Rightarrow> nat \<Rightarrow> (eloop, fault) act" where
  "run_quit_funcs prog th n 0 s = raise NotReturned s"
| "run_quit_funcs prog th n (Suc k) s =
     (case dequeue (funcsOnQuit s) of
        Inl e \<Rightarrow> raise e s
      | Inr (None, q) \<Rightarrow> skip (s\<lparr>funcsOnQuit := q\<rparr>)
      | Inr (Some None, q) \<Rightarrow>
          raise (Throw (mk_exn StdException ''bad_function_call'')) (s\<lparr>funcsOnQuit := q\<rparr>)
      | Inr (Some (Some f), q) \<Rightarrow>
          andThen (run_func prog th n f) (run_quit_funcs prog th n k) (s\<lparr>funcsOnQuit := q\<rparr>))"

definition loop_end :: "program \<Rightarrow> nat \<Rightarrow> nat \<Rightarrow> nat \<Rightarrow> fault option \<Rightarrow> (eloop, fault) act" where
  "loop_end prog th n k exc s =
     andThen (run_quit_funcs prog th n k)
       (\<lambda>s. (s\<lparr>slots := (slots s)(th := None)\<rparr>, exc)) s"

definition loop :: "program \<Rightarrow> nat \<Rightarrow> nat \<Rightarrow> nat \<Rightarrow> round list \<Rightarrow> (eloop, fault) act" where
  "loop prog th n k rs s =
     (if looping s then raise AssertFail s
      else if \<not> isInLoopThread th s then raise ProcessExit s
      else
        case scopeExit (\<lambda>s. s\<lparr>looping := False\<rparr>) (loop_rounds prog th n k rs)
               (s\<lparr>looping := True, quitting := False\<rparr>) of
          (s1, None) \<Rightarrow> loop_end prog th n k None s1
        | (s1, Some (Throw x)) \<Rightarrow>
            if catches StdException (cls x) then loop_end prog th n k (Some (Throw x)) s1
            else (s1, Some (Throw x))
        | (s1, Some e) \<Rightarrow> (s1, Some e))"

section \<open>What closures and rounds preserve\<close>

text \<open>
  A predicate that each call of a closure in thread \<open>th\<close> preserves is preserved by every
  closure there; one that in addition survives the bookkeeping of a round is preserved by
  rounds, here for the outcomes \<open>ok\<close> of the timer events.
\<close>

locale closure_invariant =
  fixes P :: "eloop \<Rightarrow> bool" and th :: nat
  assumes queue_kept: "kept any_outcome P (queueInLoop th cb)"
    and on_quit_kept: "kept any_outcome P (runOnQuit qf)"
    and quit_kept: "P s \<Longrightarrow> P (loop_quit th s)"
    and created_kept: "P s \<Longrightarrow> P (s\<lparr>timersCreated := c\<rparr>)"
    and timer_task_kept: "kept any_outcome P (run_timer_task th f)"
    and disps_kept: "P s \<Longrightarrow> P (s\<lparr>disps := h\<rparr>)"
    and trace_kept: "P s \<Longrightarrow> P (s\<lparr>trace := t\<rparr>)"
begin

lemma runInLoop_kept: "kept any_outcome P (runInLoop (run_timer_task th) th f)"
  unfolding runInLoop_def [abs_def] by (intro kept_intros timer_task_kept queue_kept)

lemma addTimer_kept: "kept any_outcome P (addTimer th cb w iv)"
  by (rule kept_anyI)
    (simp add: addTimer_def mk_Timer_def Let_def kept_anyD [OF runInLoop_kept] created_kept)

lemma simple_cmd_kept: "kept any_outcome P (simple_cmd th c)"
proof (cases c)
  case (InvalidateTimer i)
  have "kept any_outcome P (invalidateTimer th i)"
    unfolding invalidateTimer_def [abs_def] timerq_invalidateTimer_def
    by (intro kept_intros runInLoop_kept)
  then show ?thesis by (simp add: InvalidateTimer kept_def)
next
  case (RunAt t cb)
  then show ?thesis using addTimer_kept by (simp add: kept_def runAt_def Let_def)
next
  case (RunAfter t cb)
  then show ?thesis using addTimer_kept by (simp add: kept_def runAfter_def runAt_def Let_def)
next
  case (RunEvery t cb)
  then show ?thesis using addTimer_kept by (simp add: kept_def runEvery_def)
qed (use queue_kept on_quit_kept quit_kept disps_kept in \<open>simp_all add: kept_def\<close>)

lemma exec_body_kept:
  assumes callee: "\<And>m f. n = Suc m \<Longrightarrow> kept any_outcome P (exec prog th m (prog f))"
  shows "kept any_outcome P (exec prog th n cs)"
proof (induction cs)
  case Nil
  then show ?case by (simp add: kept_def)
next
  case (Cons c cs)
  show ?case
  proof (cases "\<exists>f. c = RunInLoop f")
    case True
    then obtain f where f: "c = RunInLoop f" by blast
    have "kept any_outcome P (\<lambda>s. case n of 0 \<Rightarrow> raise NotReturned s
        | Suc m \<Rightarrow> exec prog th m (prog f) (s\<lparr>trace := trace s @ [f]\<rparr>))"
      using callee trace_kept by (cases n) (simp_all add: kept_def)
    then have "kept any_outcome P (andThen
        (\<lambda>s. if isInLoopThread th s then
               (case n of 0 \<Rightarrow> raise NotReturned s
                | Suc m \<Rightarrow> exec prog th m (prog f) (s\<lparr>trace := trace s @ [f]\<rparr>))
             else queueInLoop th (Some (UserTask f)) s) (exec prog th n cs))"
      by (intro kept_andThen kept_if any_outcomeI queue_kept Cons.IH)
    then show ?thesis by (simp add: f kept_def)
  next
    case False
    then have "exec prog th n (c # cs) = andThen (simple_cmd th c) (exec prog th n cs)"
      by (intro ext exec_simple)
    then show ?thesis using kept_andThen [OF any_outcomeI simple_cmd_kept Cons.IH] by simp
  qed
qed

lemma exec_kept: "kept any_outcome P (exec prog th n cs)"
proof (induction n arbitrary: cs)
  case 0
  show ?case by (rule exec_body_kept) blast
next
  case (Suc n)
  show ?case by (rule exec_body_kept) (use Suc.IH in blast)
qed

lemma run_func_kept: "kept any_outcome P (run_func prog th n f)"
  by (rule kept_anyI) (simp add: run_func_def kept_anyD [OF exec_kept] trace_kept)

lemma run_task_kept: "kept any_outcome P (run_task prog th n f)"
  using run_func_kept timer_task_kept by (cases f) (simp_all add: run_task_def kept_def)

end

locale loop_invariant = closure_invariant P th
  for P :: "eloop \<Rightarrow> bool" and th :: nat +
  fixes prog :: program and ok
  assumes ok_None: "ok None"
    and others_kept: "closure_invariant P th'"
    and funcs_taken: "P s \<Longrightarrow> dequeue (funcs s) = Inr (x, q) \<Longrightarrow> P (s\<lparr>funcs := q\<rparr>)"
    and flags_kept: "P s \<Longrightarrow> P (s\<lparr>callingFuncs := b\<rparr>)" "P s \<Longrightarrow> P (s\<lparr>eventHandling := b\<rparr>)"
      "P s \<Longrightarrow> P (s\<lparr>clock := c\<rparr>)" "P s \<Longrightarrow> P (s\<lparr>pollr := p\<rparr>)" "P s \<Longrightarrow> P (wakeupRead s)"
    and tick_kept: "kept ok P (handleRead True (run_func prog th n) now clk)"
begin

lemma run_others_kept: "P s \<Longrightarrow> P (run_others prog n os s)"
proof (induction os arbitrary: s)
  case (Cons o1 os)
  obtain t c cs where o1: "o1 = (t, c, cs)" by (cases o1)
  have "P (fst (exec prog t n cs (s\<lparr>clock := c\<rparr>)))"
    by (rule kept_anyD [OF closure_invariant.exec_kept [OF others_kept] flags_kept(3) [OF Cons.prems]])
  then show ?case using Cons.IH by (simp add: o1)
qed simp

lemma run_funcs_kept: "kept ok P (run_funcs prog th n k)"
proof (induction k)
  case 0
  then show ?case by (simp add: kept_def)
next
  case (Suc k)
  show ?case
  proof (rule keptI)
    fix s s' e
    assume h: "P s" "run_funcs prog th n (Suc k) s = (s', e)" "ok e"
    note taken = funcs_taken [OF h(1)]
    consider (e) x where "dequeue (funcs s) = Inl x"
      | (none) q where "dequeue (funcs s) = Inr (None, q)"
      | (null) q where "dequeue (funcs s) = Inr (Some None, q)"
      | (some) f q where "dequeue (funcs s) = Inr (Some (Some f), q)"
      by (metis old.sum.exhaust option.exhaust prod.exhaust)
    then show "P s'"
    proof cases
      case e
      then show ?thesis using h by simp
    next
      case none
      note P = taken [OF none]
      show ?thesis using h none P keptD [OF Suc.IH P]
        by (cases "queue_empty q") (auto split: if_splits)
    next
      case null
      then show ?thesis using h keptD [OF Suc.IH taken [OF null]] by simp
    next
      case some
      note k = kept_andThen [OF ok_None kept_any [OF run_task_kept] Suc.IH]
      show ?thesis using h some keptD [OF k taken [OF some]] by simp
    qed
  qed
qed

lemma doRunInLoopFuncs_kept: "kept ok P (doRunInLoopFuncs prog th n k)"
  unfolding doRunInLoopFuncs_def [abs_def]
  by (rule kept_after [OF flags_kept(1) kept_scopeExit [OF flags_kept(1) run_funcs_kept]])

lemma run_cb_kept: "kept ok P (run_cb prog th n cb)"
proof (cases cb)
  case HandleRead
  have "kept ok P (\<lambda>s. handleRead (isInLoopThread th s) (run_func prog th n) (clock s) (clock s) s)"
  proof (rule keptI)
    fix s s' e
    assume h: "P s" "handleRead (isInLoopThread th s) (run_func prog th n) (clock s) (clock s) s = (s', e)"
      "ok e"
    show "P s'"
    proof (cases "isInLoopThread th s")
      case True
      then show ?thesis using keptD [OF tick_kept h(1)] h by simp
    next
      case False
      then show ?thesis using h by (simp add: handleRead_def)
    qed
  qed
  then show ?thesis by (simp add: HandleRead run_cb_def kept_def)
next
  case WakeupRead
  then show ?thesis using flags_kept(5) by (simp add: run_cb_def kept_def)
next
  case (UserCb f)
  then show ?thesis using kept_any [OF run_func_kept] by (simp add: run_cb_def [abs_def])
qed

lemma handleEvent_kept:
  assumes "\<And>cb. kept ok P (run cb)"
  shows "kept ok P (handleEvent dsp run alive)"
proof -
  have o: "kept ok P (run_opt run cb)" for cb
    using assms by (cases cb) (simp_all add: run_opt_def kept_def)
  have rw: "kept ok P (andThen
      (\<lambda>s. if realEvents (dsp s) AND (POLLIN OR POLLPRI OR POLLRDHUP) \<noteq> 0
           then run_opt run (readCallback (dsp s)) s else skip s)
      (\<lambda>s. if realEvents (dsp s) AND POLLOUT \<noteq> 0
           then run_opt run (writeCallback (dsp s)) s else skip s))"
    using o by (intro kept_andThen kept_if ok_None kept_skip) (simp_all add: kept_def)
  have "kept ok P (handleEventSafely dsp run)"
    using o assms rw by (simp add: kept_def handleEventSafely_def Let_def split: option.split)
  then show ?thesis by (simp add: kept_def handleEvent_def Let_def split: option.split)
qed

lemma handle_active_kept: "kept ok P (handle_active prog th n as)"
proof (induction as)
  case Nil
  then show ?case by (simp add: kept_def)
next
  case (Cons a as)
  have "kept ok P (handleEvent (disp_at a)
      (\<lambda>cb. andThen (run_cb prog th n cb)
         (\<lambda>s. if disps s a = None then raise UseAfterFree s else skip s))
      (\<lambda>s obj. obj \<in> liveObjs s))"
    by (rule handleEvent_kept) (intro kept_intros ok_None run_cb_kept)
  then have "kept ok P (andThen
      (\<lambda>s. if disps s a = None then raise UseAfterFree s
            else handleEvent (disp_at a)
              (\<lambda>cb. andThen (run_cb prog th n cb)
                 (\<lambda>s. if disps s a = None then raise UseAfterFree s else skip s))
              (\<lambda>s obj. obj \<in> liveObjs s) s) (handle_active prog th n as))"
    by (intro kept_intros ok_None Cons.IH)
  then show ?case by (simp add: kept_def)
qed

lemma loop_body_kept: "kept ok P (loop_body prog th n k r)"
proof (rule keptI)
  fix s s' e
  assume h: "P s" "loop_body prog th n k r s = (s', e)" "ok e"
  define s1 where "s1 = (run_others prog n (others r) s)\<lparr>clock := returns_at r\<rparr>"
  have P1: "P s1" unfolding s1_def by (intro flags_kept(3) run_others_kept h(1))
  show "P s'"
  proof (cases "poll (answer r) (pollr s1) (disps s1) []")
    case (Inl x)
    then show ?thesis using h P1 by (simp add: loop_body_def s1_def)
  next
    case (Inr t)
    obtain p d act where t: "t = (p, d, act)" by (cases t) blast
    define s2 where "s2 = s1\<lparr>pollr := p, disps := d, eventHandling := True\<rparr>"
    have P2: "P s2" unfolding s2_def by (intro flags_kept(2,4) disps_kept P1)
    have "kept ok P (\<lambda>s. doRunInLoopFuncs prog th n k (s\<lparr>eventHandling := False\<rparr>))"
      by (rule kept_after [OF flags_kept(2) doRunInLoopFuncs_kept])
    note k = kept_andThen [OF ok_None handle_active_kept [of n act] this]
    have "loop_body prog th n k r s = andThen (handle_active prog th n act)
        (\<lambda>s. doRunInLoopFuncs prog th n k (s\<lparr>eventHandling := False\<rparr>)) s2"
      using Inr by (simp add: loop_body_def s1_def [symmetric] t s2_def)
    then show ?thesis using keptD [OF k P2, of s' e] h by simp
  qed
qed

lemma loop_rounds_kept: "kept ok P (loop_rounds prog th n k rs)"
proof (induction rs)
  case Nil
  then show ?case by (simp add: kept_def)
next
  case (Cons r rs)
  have "kept ok P (\<lambda>s. if quitting s then skip s
      else andThen (loop_body prog th n k r) (loop_rounds prog th n k rs) s)"
    by (intro kept_intros ok_None loop_body_kept Cons.IH)
  then show ?case by (simp add: kept_def)
qed

end

section \<open>Instances\<close>

lemma handleRead_insensitive:
  assumes run: "\<And>c. kept ok P (run c)" and ok: "ok None"
    and upd: "\<And>s t. P s \<Longrightarrow> P (s\<lparr>timers := t\<rparr>)" "\<And>s x. P s \<Longrightarrow> P (s\<lparr>timerIdSet := x\<rparr>)"
      "\<And>s b. P s \<Longrightarrow> P (s\<lparr>callingExpiredTimers := b\<rparr>)" "\<And>s a. P s \<Longrightarrow> P (s\<lparr>armed := a\<rparr>)"
  shows "kept ok P (handleRead b run now clk)"
proof -
  have timer: "kept ok P (timer_run run t)" for t
    using run by (cases "tcallback t") (simp_all add: timer_run_def kept_def)
  have ex: "kept ok P (run_expired run ts)" for ts
  proof (induction ts)
    case Nil
    then show ?case by (simp add: kept_def)
  next
    case (Cons t ts)
    have "kept ok P (andThen (\<lambda>s. if tid t \<in> timerIdSet s then timer_run run t s else skip s)
        (run_expired run ts))"
      by (intro kept_andThen kept_if ok timer kept_skip Cons.IH)
    then show ?case by (simp add: kept_def)
  qed
  have rl: "P s \<Longrightarrow> P (reset_loop ts now clk s)" for ts s
    by (induction ts arbitrary: s) (simp_all add: insert_timer_def Let_def upd)
  have re: "P s \<Longrightarrow> P (reset_expired ts now clk s)" for ts s
    using rl upd(4) by (simp add: reset_expired_def resetTimerfd_def Let_def)
  have rd: "P s \<Longrightarrow> P (readTimerfd now s)" for s
    using upd(4) by (simp add: readTimerfd_def split: option.split)
  show ?thesis
  proof (rule keptI)
    fix s s' e
    assume h: "P s" "handleRead b run now clk s = (s', e)" "ok e"
    define g where "g = getExpired now (timers (readTimerfd now s))"
    define s0 where "s0 = readTimerfd now s\<lparr>timers := snd g, callingExpiredTimers := True\<rparr>"
    have P0: "P s0" unfolding s0_def by (intro upd rd h(1))
    have "kept ok P (\<lambda>s. skip (reset_expired (fst g) now clk (s\<lparr>callingExpiredTimers := False\<rparr>)))"
      using re upd(3) by (simp add: kept_def)
    note k = kept_andThen [OF ok ex [of "fst g"] this]
    show "P s'"
    proof (cases b)
      case True
      then have "andThen (run_expired run (fst g))
          (\<lambda>s. skip (reset_expired (fst g) now clk (s\<lparr>callingExpiredTimers := False\<rparr>))) s0 = (s', e)"
        using h(2) by (simp add: handleRead_def Let_def g_def s0_def case_prod_beta)
      then show ?thesis by (rule keptD [OF k P0 _ h(3)])
    next
      case False
      then show ?thesis using h by (simp add: handleRead_def)
    qed
  qed
qed

lemmas loop_step_defs = queueInLoop_def runOnQuit_def loop_quit_def wakeup_def wakeupRead_def
  run_timer_task_def addTimerInLoop_def insert_timer_def resetTimerfd_def invalidate_in_loop_def
  close_timerfd_in_loop_def

text \<open>Once asked to quit, the loop stays so.\<close>

interpretation quits: closure_invariant quitting th for th
  by unfold_locales
    (auto simp: kept_def loop_step_defs Let_def split: sum.splits task.splits option.splits)

interpretation quits_loop: loop_invariant quitting th prog any_outcome for th prog
proof unfold_locales
  fix n now clk
  show "kept any_outcome quitting (handleRead True (run_func prog th n) now clk)"
    by (rule handleRead_insensitive) (simp_all add: quits.run_func_kept any_outcomeI)
qed (simp_all add: wakeupRead_def any_outcomeI)

text \<open>The two queues stay well formed, so that no operation on them faults.\<close>

definition wf_queues :: "eloop \<Rightarrow> bool" where
  "wf_queues s \<longleftrightarrow> wf_mpsc (funcs s) \<and> wf_mpsc (funcsOnQuit s)"

lemma dequeue_wf:
  assumes "wf_mpsc q" "dequeue q = Inr (x, q')"
  shows "wf_mpsc q'"
  using assms(1)
proof (cases rule: mpsc.deq_cases)
  case empty
  then show ?thesis using assms by simp
next
  case (item y ys q2)
  then show ?thesis using assms(2) by simp
qed

lemma enqueue_wf:
  assumes "wf_mpsc q" "enqueue x q = Inr q'"
  shows "wf_mpsc q'" and "items q' = items q @ [x]"
  using mpsc.enq_ok [OF assms(1), of x] assms(2) by auto

lemma enqueue_total: "wf_mpsc q \<Longrightarrow> \<exists>q'. enqueue x q = Inr q'"
  using mpsc.enq_ok [of q x] by blast

interpretation queues: closure_invariant wf_queues th for th
proof unfold_locales
  show "kept any_outcome wf_queues (queueInLoop th cb)" for cb
    by (rule kept_anyI) (auto simp: queueInLoop_def wakeup_def wf_queues_def Let_def
        dest: enqueue_wf(1) split: sum.split)
  show "kept any_outcome wf_queues (runOnQuit qf)" for qf
    by (rule kept_anyI) (auto simp: runOnQuit_def wf_queues_def dest: enqueue_wf(1) split: sum.split)
  show "kept any_outcome wf_queues (run_timer_task th f)" for f
    by (rule kept_anyI) (auto simp: loop_step_defs wf_queues_def Let_def split: task.split option.split sum.split)
qed (simp_all add: wf_queues_def loop_quit_def wakeup_def Let_def)

interpretation queues_loop: loop_invariant wf_queues th prog any_outcome for th prog
proof unfold_locales
  fix n now clk
  show "kept any_outcome wf_queues (handleRead True (run_func prog th n) now clk)"
    by (rule handleRead_insensitive) (simp_all add: queues.run_func_kept any_outcomeI wf_queues_def)
next
  fix s x q
  assume "wf_queues s" "dequeue (funcs s) = Inr (x, q)"
  then show "wf_queues (s\<lparr>funcs := q\<rparr>)" using dequeue_wf by (auto simp: wf_queues_def)
qed (simp_all add: wakeupRead_def any_outcomeI wf_queues_def)

text \<open>
  In another thread than the loop's: whatever it does, a closure in the queue, or a request to
  quit, leaves the wake-up descriptor readable.
\<close>

definition awake :: "nat \<Rightarrow> eloop \<Rightarrow> bool" where
  "awake l s \<longleftrightarrow> wf_queues s \<and> threadId s = l \<and>
     (items (funcs s) \<noteq> [] \<or> quitting s \<longrightarrow> wakeCount s > 0)"

definition awake_from :: "nat \<Rightarrow> nat \<Rightarrow> eloop \<Rightarrow> bool" where
  "awake_from l th s \<longleftrightarrow> awake l s \<and> l \<noteq> th"

interpretation awake: closure_invariant "awake_from l th" th for l th
proof unfold_locales
  show "kept any_outcome (awake_from l th) (queueInLoop th cb)" for cb
    by (rule kept_anyI) (auto simp: queueInLoop_def wakeup_def awake_from_def awake_def wf_queues_def
        isInLoopThread_def Let_def dest: enqueue_wf(1) split: sum.split)
  show "kept any_outcome (awake_from l th) (runOnQuit qf)" for qf
    by (rule kept_anyI) (auto simp: runOnQuit_def awake_from_def awake_def wf_queues_def
        dest: enqueue_wf(1) split: sum.split)
  show "kept any_outcome (awake_from l th) (run_timer_task th f)" for f
    by (rule kept_anyI) (auto simp: loop_step_defs awake_from_def awake_def wf_queues_def Let_def
        split: task.split option.split sum.split)
qed (simp_all add: awake_from_def awake_def wf_queues_def loop_quit_def wakeup_def
      isInLoopThread_def Let_def)

lemma others_awake:
  "awake l s \<Longrightarrow> \<forall>(t, c, cs) \<in> set os. t \<noteq> l \<Longrightarrow> awake l (run_others prog n os s)"
proof (induction os arbitrary: s)
  case (Cons o1 os)
  obtain t c cs where o1: "o1 = (t, c, cs)" by (cases o1)
  have "awake_from l t (fst (exec prog t n cs (s\<lparr>clock := c\<rparr>)))"
    using Cons.prems by (intro kept_anyD [OF awake.exec_kept]) (auto simp: awake_from_def awake_def wf_queues_def o1)
  then show ?case using Cons by (simp add: awake_from_def o1)
qed simp

text \<open>The timers: sorted, valid identifiers queued, and the descriptor set.\<close>

interpretation frame: closure_invariant "tq_frame X" th for X th
proof unfold_locales
  show "kept any_outcome (tq_frame X) (run_timer_task th f)" for f
    by (rule kept_anyI) (auto simp: loop_step_defs tq_frame_def Let_def pq_sorted_push split: task.split option.split sum.split)
qed (auto simp: kept_def queueInLoop_def runOnQuit_def loop_quit_def wakeup_def tq_frame_def Let_def
    split: sum.splits)

lemma run_func_keeps: "keeps (run_func prog th n)"
  unfolding keeps_def using keptD [OF frame.run_func_kept _ _ any_outcomeI] by blast

definition timers_ok :: "eloop \<Rightarrow> bool" where
  "timers_ok s \<longleftrightarrow> tq_frame {} s \<and> tq_armed s"

interpretation timers: closure_invariant timers_ok th for th
proof unfold_locales
  show "kept any_outcome timers_ok (run_timer_task th f)" for f
  proof (rule kept_anyI)
    fix s
    assume h: "timers_ok s"
    show "timers_ok (fst (run_timer_task th f s))"
    proof (cases f)
      case (AddTimerTask t)
      then show ?thesis using h frame_add armed_add
        by (cases "isInLoopThread th s"; cases "addTimerInLoop True t (clock s) s")
          (auto simp: run_timer_task_def timers_ok_def addTimerInLoop_def [of False])
    qed (use h in \<open>auto simp: run_timer_task_def invalidate_in_loop_def close_timerfd_in_loop_def
          timers_ok_def tq_frame_def tq_armed_def Let_def split: option.split sum.split\<close>)
  qed
qed (auto simp: kept_def queueInLoop_def runOnQuit_def loop_quit_def wakeup_def timers_ok_def
    tq_frame_def tq_armed_def Let_def split: sum.splits)

interpretation timers_loop: loop_invariant timers_ok th prog returned for th prog
proof unfold_locales
  fix n now clk
  show "kept returned timers_ok (handleRead True (run_func prog th n) now clk)"
    by (rule keptI) (use handleRead_ok [OF run_func_keeps] in \<open>auto simp: timers_ok_def returned_def\<close>)
qed (auto simp: wakeupRead_def timers_ok_def tq_frame_def tq_armed_def)

section \<open>Nothing queued is forgotten\<close>

lemma run_funcs_empties:
  "run_funcs prog th n k s = (s', None) \<Longrightarrow> wf_queues s \<Longrightarrow> items (funcs s') = []"
proof (induction k arbitrary: s)
  case (Suc k)
  have w: "wf_mpsc (funcs s)" using Suc.prems(2) by (simp add: wf_queues_def)
  from w show ?case
  proof (cases rule: mpsc.deq_cases)
    case empty
    moreover have "queue_empty (funcs s) = Inr True" using mpsc.empty_iff [OF w] empty(1) by simp
    ultimately show ?thesis using Suc.prems(1) by auto
  next
    case (item x xs q)
    then have wq: "wf_queues (s\<lparr>funcs := q\<rparr>)" using Suc.prems(2) by (simp add: wf_queues_def)
    show ?thesis
    proof (cases x)
      case None
      then show ?thesis using Suc item(2) wq by simp
    next
      case (Some f)
      obtain t e where t: "run_task prog th n f (s\<lparr>funcs := q\<rparr>) = (t, e)" by fastforce
      have "wf_queues t" by (rule keptD [OF queues.run_task_kept wq t any_outcomeI])
      moreover have "e = None" "run_funcs prog th n k t = (s', None)"
        using Suc.prems(1) item(2) Some t by (cases e; simp)+
      ultimately show ?thesis using Suc.IH by blast
    qed
  qed
qed simp

text \<open>A round whose environment does nothing more, in the state after its other threads.\<close>

lemma loop_body_split:
  "loop_body prog th n k r s = loop_body prog th n k (r\<lparr>others := []\<rparr>) (run_others prog n (others r) s)"
  by (simp add: loop_body_def)

lemma loop_body_empties:
  assumes "loop_body prog th n k r s = (s', None)" "wf_queues s"
  shows "items (funcs s') = [] \<and> wf_queues s'"
proof -
  define s1 where "s1 = (run_others prog n (others r) s)\<lparr>clock := returns_at r\<rparr>"
  have w1: "wf_queues s1"
    unfolding s1_def by (intro queues_loop.flags_kept(3) queues_loop.run_others_kept assms(2))
  obtain p h act where po: "poll (answer r) (pollr s1) (disps s1) [] = Inr (p, h, act)"
    using assms(1) by (auto simp: loop_body_def s1_def [symmetric] split: sum.splits)
  define s2 where "s2 = s1\<lparr>pollr := p, disps := h, eventHandling := True\<rparr>"
  have w2: "wf_queues s2" using w1 by (simp add: s2_def wf_queues_def)
  obtain t e where t: "handle_active prog th n act s2 = (t, e)" by fastforce
  have e: "e = None" using assms(1) po t
    by (cases e) (simp_all add: loop_body_def s1_def [symmetric] s2_def)
  define t1 where "t1 = t\<lparr>eventHandling := False, callingFuncs := True\<rparr>"
  obtain u x where u: "run_funcs prog th n k t1 = (u, x)" by fastforce
  have "wf_queues t" by (rule keptD [OF queues_loop.handle_active_kept w2 t any_outcomeI])
  then have w3: "wf_queues t1" by (simp add: t1_def wf_queues_def)
  have "scopeExit (\<lambda>s. s\<lparr>callingFuncs := False\<rparr>) (run_funcs prog th n k) t1 = (s', None)"
    using assms(1) po t e by (simp add: loop_body_def s1_def [symmetric] s2_def doRunInLoopFuncs_def t1_def)
  then have s': "x = None" "s' = u\<lparr>callingFuncs := False\<rparr>"
    using u by (cases x; simp)+
  have "items (funcs u) = []" using run_funcs_empties u w3 s'(1) by blast
  moreover have "wf_queues u" by (rule keptD [OF queues_loop.run_funcs_kept w3 u any_outcomeI])
  ultimately show ?thesis by (simp add: s' wf_queues_def)
qed


section \<open>The order in which closures run\<close>

text \<open>The worklist that closures which queue others amount to.\<close>

fun worklist :: "nat \<Rightarrow> (nat \<Rightarrow> nat list) \<Rightarrow> nat list \<Rightarrow> nat list option" where
  "worklist 0 g fs = None"
| "worklist (Suc k) g [] = Some []"
| "worklist (Suc k) g (f # fs) = map_option ((#) f) (worklist k g (fs @ g f))"

lemma worklist_prefix: "worklist k g fs = Some ys \<Longrightarrow> \<exists>zs. ys = fs @ zs"
proof (induction k g fs arbitrary: ys rule: worklist.induct)
  case (3 k g f fs)
  then obtain ys' where "worklist k g (fs @ g f) = Some ys'" "ys = f # ys'" by auto
  then show ?case using "3.IH" by fastforce
qed simp_all

lemma worklist_terminates:
  assumes "\<And>f. Suc (sum_list (map w (g f))) \<le> w f"
  shows "sum_list (map w fs) < k \<Longrightarrow> worklist k g fs \<noteq> None"
proof (induction k arbitrary: fs)
  case (Suc k)
  show ?case
  proof (cases fs)
    case (Cons f fs')
    then have "w f + sum_list (map w fs') < Suc k" using Suc.prems by simp
    moreover have "sum_list (map w (g f)) < w f" using assms [of f] by simp
    moreover have "sum_list (map w (fs' @ g f)) = sum_list (map w fs') + sum_list (map w (g f))" by simp
    ultimately have "sum_list (map w (fs' @ g f)) < k" by linarith
    then show ?thesis using Suc.IH Cons by simp
  qed simp
qed simp

lemma queueInLoop_ok:
  assumes "wf_queues s"
  shows "\<exists>q w. queueInLoop th (Some f) s = (s\<lparr>funcs := q, wakeCount := w\<rparr>, None) \<and> wf_mpsc q \<and>
           items q = items (funcs s) @ [Some f]"
proof -
  have wm: "wf_mpsc (funcs s)" using assms by (simp add: wf_queues_def)
  obtain q where q: "enqueue (Some f) (funcs s) = Inr q" using enqueue_total [OF wm] by blast
  show ?thesis using enqueue_wf [OF wm q] q
    by (intro exI [of _ q] exI [of _ "if \<not> isInLoopThread th s \<or> \<not> looping s then wakeCount s + 1
        else wakeCount s"]) (simp add: queueInLoop_def Let_def wakeup_def isInLoopThread_def)
qed

lemma exec_queue:
  assumes "wf_queues s"
  shows "\<exists>q w. exec prog th n (map (QueueInLoop \<circ> Some) gs) s = (s\<lparr>funcs := q, wakeCount := w\<rparr>, None) \<and>
           wf_mpsc q \<and> items q = items (funcs s) @ map (Some \<circ> UserTask) gs"
  using assms
proof (induction gs arbitrary: s)
  case Nil
  then show ?case
    by (intro exI [of _ "funcs s"] exI [of _ "wakeCount s"]) (simp add: wf_queues_def)
next
  case (Cons g gs)
  obtain q w where q: "queueInLoop th (Some (UserTask g)) s = (s\<lparr>funcs := q, wakeCount := w\<rparr>, None)"
      "wf_mpsc q" "items q = items (funcs s) @ [Some (UserTask g)]"
    using queueInLoop_ok [OF Cons.prems] by blast
  then have "wf_queues (s\<lparr>funcs := q, wakeCount := w\<rparr>)" using Cons.prems by (simp add: wf_queues_def)
  from Cons.IH [OF this] q show ?case by (auto simp: exec_simple)
qed

lemma run_funcs_worklist:
  assumes "\<And>f. prog f = map (QueueInLoop \<circ> Some) (g f)"
  shows "wf_queues s \<Longrightarrow> items (funcs s) = map (Some \<circ> UserTask) fs \<Longrightarrow>
    (case worklist k g fs of
       None \<Rightarrow> snd (run_funcs prog th n k s) = Some NotReturned
     | Some ys \<Rightarrow> \<exists>s'. run_funcs prog th n k s = (s', None) \<and> trace s' = trace s @ ys)"
proof (induction k arbitrary: fs s)
  case (Suc k)
  have w: "wf_mpsc (funcs s)" using Suc.prems(1) by (simp add: wf_queues_def)
  from w show ?case
  proof (cases rule: mpsc.deq_cases)
    case empty
    moreover have "queue_empty (funcs s) = Inr True" using mpsc.empty_iff [OF w] empty(1) by simp
    moreover have "fs = []" using Suc.prems(2) empty(1) by simp
    ultimately show ?thesis by simp
  next
    case (item x xs q)
    then obtain f fs' where f: "fs = f # fs'" "x = Some (UserTask f)" "xs = map (Some \<circ> UserTask) fs'"
      using Suc.prems(2) item(1) by (cases fs) (auto simp: comp_def)
    define s1 where "s1 = s\<lparr>funcs := q, trace := trace s @ [f]\<rparr>"
    have w1: "wf_queues s1" using Suc.prems(1) item(3) by (simp add: wf_queues_def s1_def)
    obtain q2 c where q2: "exec prog th n (prog f) s1 = (s1\<lparr>funcs := q2, wakeCount := c\<rparr>, None)"
        "wf_mpsc q2" "items q2 = items (funcs s1) @ map (Some \<circ> UserTask) (g f)"
      using exec_queue [OF w1, of prog th n "g f"] assms [of f] by auto
    define s2 where "s2 = s1\<lparr>funcs := q2, wakeCount := c\<rparr>"
    have w2: "wf_queues s2" using w1 q2(2) by (simp add: wf_queues_def s2_def)
    have i2: "items (funcs s2) = map (Some \<circ> UserTask) (fs' @ g f)"
      using q2(3) item(4) f(3) by (simp add: s2_def s1_def)
    have "run_funcs prog th n (Suc k) s = run_funcs prog th n k s2"
      using item(2) f(2) q2(1) by (simp add: andThen_def run_task_def run_func_def s1_def s2_def)
    moreover have "trace s2 = trace s @ [f]" by (simp add: s2_def s1_def)
    ultimately show ?thesis using Suc.IH [OF w2 i2] f(1)
      by (cases "worklist k g (fs' @ g f)") auto
  qed
qed simp

text \<open>
  C13: closures that queue others.  When every closure has a weight greater than the weights of
  those it queues together, running the queue ends, with as many closures as the queued weight
  as a bound; what was queued runs first and in order, what it queued follows in the order of a
  worklist, in the same call; and at the end the queue is empty.
\<close>

theorem queued_closures_run_in_order:
  assumes "wf_queues s" and "items (funcs s) = map (Some \<circ> UserTask) fs"
    and "\<And>f. prog f = map (QueueInLoop \<circ> Some) (g f)"
    and "\<And>f. Suc (sum_list (map w (g f))) \<le> w f" and "sum_list (map w fs) < k"
  shows "\<exists>s' zs. doRunInLoopFuncs prog th n k s = (s', None) \<and>
    worklist k g fs = Some (fs @ zs) \<and> trace s' = trace s @ fs @ zs \<and>
    items (funcs s') = [] \<and> \<not> callingFuncs s'"
proof -
  define s1 where "s1 = s\<lparr>callingFuncs := True\<rparr>"
  have s1: "wf_queues s1" "items (funcs s1) = map (Some \<circ> UserTask) fs" "trace s1 = trace s"
    using assms(1,2) by (simp_all add: s1_def wf_queues_def)
  obtain ys where ys: "worklist k g fs = Some ys"
    using worklist_terminates [OF assms(4,5)] by blast
  then obtain zs where zs: "ys = fs @ zs" using worklist_prefix by blast
  obtain s' where s': "run_funcs prog th n k s1 = (s', None)" "trace s' = trace s @ ys"
    using run_funcs_worklist [where prog = prog and g = g and k = k and th = th and n = n, OF assms(3) s1(1,2)] ys s1(3) by auto
  have "items (funcs s') = []" by (rule run_funcs_empties [OF s'(1) s1(1)])
  with s' ys zs show ?thesis by (simp add: doRunInLoopFuncs_def s1_def)
qed

text \<open>
  A closure that queues itself again, the way one would poll for something, is run for ever:
  the call never returns, however much fuel it has, so that the loop does not wait for events
  again and a request to quit is not looked at.
\<close>

theorem self_queueing_never_returns:
  assumes "wf_queues s" and "items (funcs s) = [Some (UserTask f)]"
    and "prog f = [QueueInLoop (Some f)]"
  shows "snd (doRunInLoopFuncs prog th n k s) = Some NotReturned \<and>
    (quitting s \<longrightarrow> quitting (fst (doRunInLoopFuncs prog th n k s)))"
proof -
  have "snd (run_funcs prog th n k s) = Some NotReturned"
    if "wf_queues s" "items (funcs s) = [Some (UserTask f)]" for s
    using that
  proof (induction k arbitrary: s)
    case (Suc k)
    have w: "wf_mpsc (funcs s)" using Suc.prems(1) by (simp add: wf_queues_def)
    obtain q where q: "dequeue (funcs s) = Inr (Some (Some (UserTask f)), q)" "wf_mpsc q" "items q = []"
      using mpsc.deq_Cons [OF w Suc.prems(2)] by blast
    define s1 where "s1 = s\<lparr>funcs := q, trace := trace s @ [f]\<rparr>"
    have w1: "wf_queues s1" using Suc.prems(1) q(2) by (simp add: wf_queues_def s1_def)
    obtain q2 c where q2: "queueInLoop th (Some (UserTask f)) s1 = (s1\<lparr>funcs := q2, wakeCount := c\<rparr>, None)"
        "wf_mpsc q2" "items q2 = items (funcs s1) @ [Some (UserTask f)]"
      using queueInLoop_ok [OF w1] by blast
    define s2 where "s2 = s1\<lparr>funcs := q2, wakeCount := c\<rparr>"
    have "wf_queues s2" "items (funcs s2) = [Some (UserTask f)]"
      using w1 q2(2,3) q(3) by (simp_all add: wf_queues_def s2_def s1_def)
    moreover have "run_funcs prog th n (Suc k) s = run_funcs prog th n k s2"
      using q(1) q2(1) assms(3)
      by (simp add: andThen_def run_task_def run_func_def s1_def s2_def)
    ultimately show ?case using Suc.IH by simp
  qed simp
  then have "snd (doRunInLoopFuncs prog th n k s) = Some NotReturned"
    using assms(1,2) by (simp add: doRunInLoopFuncs_def wf_queues_def case_prod_beta)
  moreover have "quitting (fst (doRunInLoopFuncs prog th n k s))" if "quitting s"
    using kept_anyD [OF quits_loop.doRunInLoopFuncs_kept that] .
  ultimately show ?thesis by blast
qed

lemma run_funcs_prefix:
  assumes "\<forall>p \<in> set pre. prog p = []"
  shows "wf_queues s \<Longrightarrow> items (funcs s) = map (Some \<circ> UserTask) pre @ rest \<Longrightarrow>
    \<exists>q. run_funcs prog th n (length pre + k) s = run_funcs prog th n k (s\<lparr>funcs := q, trace := trace s @ pre\<rparr>)
      \<and> wf_mpsc q \<and> items q = rest"
  using assms
proof (induction pre arbitrary: s)
  case Nil
  then show ?case by (intro exI [of _ "funcs s"]) (simp add: wf_queues_def)
next
  case (Cons p pre)
  have w: "wf_mpsc (funcs s)" using Cons.prems(1) by (simp add: wf_queues_def)
  obtain q where q: "dequeue (funcs s) = Inr (Some (Some (UserTask p)), q)" "wf_mpsc q"
      "items q = map (Some \<circ> UserTask) pre @ rest"
    using mpsc.deq_Cons [OF w, of "Some (UserTask p)"] Cons.prems(2) by auto
  define s1 where "s1 = s\<lparr>funcs := q, trace := trace s @ [p]\<rparr>"
  have "wf_queues s1" "items (funcs s1) = map (Some \<circ> UserTask) pre @ rest"
    using Cons.prems(1) q by (simp_all add: s1_def wf_queues_def)
  from Cons.IH [OF this] Cons.prems(3) obtain q2 where
    q2: "run_funcs prog th n (length pre + k) s1 =
        run_funcs prog th n k (s1\<lparr>funcs := q2, trace := trace s1 @ pre\<rparr>)" "wf_mpsc q2" "items q2 = rest"
    by auto
  have "run_funcs prog th n (length (p # pre) + k) s = run_funcs prog th n (length pre + k) s1"
    using q(1) Cons.prems(3) by (simp add: andThen_def run_task_def run_func_def s1_def)
  with q2 show ?case by (intro exI [of _ q2]) (simp add: s1_def)
qed

text \<open>
  When a closure throws, those before it have run, in order; the exception leaves the call
  with the flag cleared; and those behind it stay queued, in order, for the next round.
\<close>

theorem throwing_closure_keeps_rest:
  assumes "wf_queues s" and "items (funcs s) = map (Some \<circ> UserTask) (pre @ [f]) @ rest"
    and "\<forall>p \<in> set pre. prog p = []" and "prog f = [Raise e]" and "unwinds e"
  shows "\<exists>s'. doRunInLoopFuncs prog th n (length pre + Suc k) s = (s', Some e) \<and>
    trace s' = trace s @ pre @ [f] \<and> items (funcs s') = rest \<and> wf_queues s' \<and> \<not> callingFuncs s'"
proof -
  define s1 where "s1 = s\<lparr>callingFuncs := True\<rparr>"
  have "wf_queues s1" "items (funcs s1) = map (Some \<circ> UserTask) pre @ Some (UserTask f) # rest"
    using assms(1,2) by (simp_all add: s1_def wf_queues_def)
  from run_funcs_prefix [OF assms(3) this] obtain q where
    q: "run_funcs prog th n (length pre + Suc k) s1 =
        run_funcs prog th n (Suc k) (s1\<lparr>funcs := q, trace := trace s1 @ pre\<rparr>)"
      "wf_mpsc q" "items q = Some (UserTask f) # rest"
    by blast
  obtain q2 where "dequeue q = Inr (Some (Some (UserTask f)), q2)" "wf_mpsc q2" "items q2 = rest"
    using mpsc.deq_Cons [OF q(2,3)] by blast
  then show ?thesis using assms(1,4,5) q(1)
    by (simp add: doRunInLoopFuncs_def s1_def andThen_def run_task_def run_func_def wf_queues_def
        exec_simple)
qed

section \<open>Leaving the loop\<close>

lemma run_quit_funcs_all:
  "wf_queues s \<Longrightarrow> items (funcsOnQuit s) = map Some qs \<Longrightarrow> \<forall>q \<in> set qs. prog q = [] \<Longrightarrow>
   length qs < k \<Longrightarrow>
   \<exists>q. run_quit_funcs prog th n k s = (s\<lparr>funcsOnQuit := q, trace := trace s @ qs\<rparr>, None)"
proof (induction k arbitrary: s qs)
  case (Suc k)
  have w: "wf_mpsc (funcsOnQuit s)" using Suc.prems(1) by (simp add: wf_queues_def)
  show ?case
  proof (cases qs)
    case Nil
    then have "dequeue (funcsOnQuit s) = Inr (None, funcsOnQuit s)"
      using mpsc.deq_Nil [OF w] Suc.prems(2) by simp
    then show ?thesis using Nil by (intro exI [of _ "funcsOnQuit s"]) simp
  next
    case (Cons f fs)
    obtain q where q: "dequeue (funcsOnQuit s) = Inr (Some (Some f), q)" "wf_mpsc q"
        "items q = map Some fs"
      using mpsc.deq_Cons [OF w, of "Some f"] Suc.prems(2) Cons by auto
    define s1 where "s1 = s\<lparr>funcsOnQuit := q, trace := trace s @ [f]\<rparr>"
    have "wf_queues s1" "items (funcsOnQuit s1) = map Some fs"
      using Suc.prems(1) q by (simp_all add: s1_def wf_queues_def)
    from Suc.IH [OF this] Suc.prems(3,4) Cons obtain q2 where
      q2: "run_quit_funcs prog th n k s1 = (s1\<lparr>funcsOnQuit := q2, trace := trace s1 @ fs\<rparr>, None)"
      by auto
    have "run_quit_funcs prog th n (Suc k) s = run_quit_funcs prog th n k s1"
      using q(1) Suc.prems(3) Cons by (simp add: andThen_def run_func_def s1_def)
    then show ?thesis using q2 Cons by (intro exI [of _ q2]) (simp add: s1_def)
  qed
qed simp

text \<open>
  C20: the ways out of the loop.  After a request to quit, and after an exception derived from
  \<^verbatim>\<open>std::exception\<close>, the functions registered for quitting have all run, in order, the loop is
  not running and its thread is free for another loop; the exception then goes on to the
  caller.  After any other exception none of those functions runs and the thread stays taken.
\<close>

theorem loop_exit:
  assumes "\<not> looping s" and "threadId s = th"
    and "loop_rounds prog th n k rs (s\<lparr>looping := True, quitting := False\<rparr>) = (s1, x)"
    and "wf_queues s" and "items (funcsOnQuit s1) = map Some qs"
    and "\<forall>q \<in> set qs. prog q = []" and "length qs < k"
  shows "(x = None \<or> (\<exists>e. x = Some (Throw e) \<and> catches StdException (cls e)) \<longrightarrow>
      (\<exists>s'. loop prog th n k rs s = (s', x) \<and> trace s' = trace s1 @ qs \<and> \<not> looping s' \<and>
        slots s' = (slots s1)(th := None))) \<and>
    (x = Some ThrowForeign \<longrightarrow>
      (\<exists>s'. loop prog th n k rs s = (s', x) \<and> trace s' = trace s1 \<and> \<not> looping s' \<and>
        slots s' = slots s1 \<and> items (funcsOnQuit s') = map Some qs))"
proof -
  define s2 where "s2 = s1\<lparr>looping := False\<rparr>"
  have "wf_queues (s\<lparr>looping := True, quitting := False\<rparr>)" using assms(4) by (simp add: wf_queues_def)
  then have "wf_queues s1"
    using keptD [OF queues_loop.loop_rounds_kept _ assms(3) any_outcomeI] by blast
  then have w: "wf_queues s2" "items (funcsOnQuit s2) = map Some qs" "trace s2 = trace s1"
    using assms(5) by (simp_all add: s2_def wf_queues_def)
  obtain q where q: "run_quit_funcs prog th n k s2 =
      (s2\<lparr>funcsOnQuit := q, trace := trace s1 @ qs\<rparr>, None)"
    using run_quit_funcs_all [OF w(1,2) assms(6,7)] w(3) by metis
  have e: "loop_end prog th n k y s2 =
      (s2\<lparr>funcsOnQuit := q, trace := trace s1 @ qs, slots := (slots s1)(th := None)\<rparr>, y)" for y
    using q by (simp add: loop_end_def s2_def)
  show ?thesis using assms(1,2,3) e w(2)
    by (auto simp: loop_def isInLoopThread_def Let_def s2_def)
qed

text \<open>
  C33: a request to quit that another thread makes while the loop waits takes effect at the end
  of the round in which it arrives: no further round is started, and the events of later rounds
  are not looked at.
\<close>

theorem quit_ends_round:
  assumes "\<not> quitting s" and "(t, c, [Quit]) \<in> set (others r)"
    and "loop_body prog th n k r s = (s', None)"
  shows "loop_rounds prog th n k (r # rs) s = (s', None)"
proof -
  have q: "quitting (run_others prog n os s)" if "(t, c, [Quit]) \<in> set os" for os s
    using that
  proof (induction os arbitrary: s)
    case (Cons o1 os)
    show ?case
    proof (cases "o1 = (t, c, [Quit])")
      case True
      have "quitting (fst (exec prog t n [Quit] (s\<lparr>clock := c\<rparr>)))"
        by (simp add: exec_simple andThen_def loop_quit_def Let_def wakeup_def)
      then show ?thesis using quits_loop.run_others_kept by (simp add: True)
    next
      case False
      then show ?thesis using Cons by (cases o1) auto
    qed
  qed simp
  have "loop_body prog th n k (r\<lparr>others := []\<rparr>) (run_others prog n (others r) s) = (s', None)"
    using assms(3) loop_body_split by metis
  then have "quitting s'"
    using keptD [OF quits_loop.loop_body_kept q [OF assms(2)] _ any_outcomeI] by blast
  then show ?thesis using assms(1,3) by (cases rs) simp_all
qed

text \<open>
  A request to quit that is made before the loop starts is lost: starting the loop withdraws
  it, and without a further request the loop does not return.
\<close>

theorem quit_before_loop_lost:
  assumes "\<not> looping s" and "threadId s = th"
  shows "\<exists>s'. loop prog th n k [] (loop_quit th' s) = (s', Some NotReturned) \<and> isRunning s'"
  using assms
  by (simp add: loop_def loop_quit_def wakeup_def isInLoopThread_def isRunning_def Let_def)

section \<open>Timers in the loop\<close>


text \<open>
  A timer that is invalidated before the loop runs fires all the same: the call has no
  effect, the identifier stays valid and the timer queued.
\<close>

theorem invalidate_before_loop_ignored:
  assumes "\<not> isRunning s" and "threadId s = th"
  shows "\<exists>s'. exec prog th n [RunAfter d (Some f), InvalidateTimer (timersCreated s + 1)] s = (s', None) \<and>
    timersCreated s + 1 \<in> timerIdSet s' \<and> timersCreated s + 1 \<in> tid ` set (timers s')"
  using assms
  by (cases "looping s"; cases "quitting s")
    (simp_all add: exec_simple andThen_def runAfter_def runAt_def addTimer_def runInLoop_def mk_Timer_def
      run_timer_task_def isInLoopThread_def addTimerInLoop_def insert_timer_def resetTimerfd_def
      invalidateTimer_def isRunning_def Let_def)

section \<open>Loops and threads\<close>

definition moveToCurrentThread :: "nat \<Rightarrow> (eloop, fault) act" where
  "moveToCurrentThread th s =
     (if isRunning s then raise ProcessExit s
      else if isInLoopThread th s then skip s
      else if slots s th \<noteq> None then raise ProcessExit s
      else skip (s\<lparr>slots := (slots s)(slotOf s := None, th \<mapsto> self s), slotOf := th, threadId := th\<rparr>))"

text \<open>The destructor asks the loop to quit and spins while it is in \<^verbatim>\<open>loop\<close>.\<close>

definition destroy_EventLoop :: "nat \<Rightarrow> (eloop, fault) act" where
  "destroy_EventLoop th s =
     (let s1 = loop_quit th s in if looping s1 then raise NotReturned s1 else skip s1)"

lemma mk_EventLoop_eq:
  assumes "timerfd \<ge> 0" and "wakefd \<ge> 0" and "sl th = None"
  shows "\<exists>s. mk_EventLoop me th sl clk wl created timerfd wakefd = Inr s \<and> wf_queues s \<and>
    items (funcs s) = [] \<and> items (funcsOnQuit s) = [] \<and> threadId s = th \<and> self s = me \<and>
    slots s = sl(th \<mapsto> me) \<and> slotOf s = th \<and> \<not> looping s \<and> \<not> quitting s \<and> wakeCount s = 0 \<and>
    timers s = [] \<and> timerIdSet s = {} \<and> timersCreated s = created \<and>
    (\<exists>d0 d1. disps s timer_addr = Some d0 \<and> disps s wake_addr = Some d1 \<and>
       readCallback d0 = Some HandleRead \<and> readCallback d1 = Some WakeupRead \<and>
       fd d0 = timerfd \<and> fd d1 = wakefd \<and>
       events d0 = kReadEvent \<and> events d1 = kReadEvent \<and> dstate d0 = kAdded \<and> dstate d1 = kAdded)"
  using assms
  by (simp add: mpsc.wf_new mpsc.contents_new timer_addr_def wake_addr_def mk_EventLoop_def open_timerfd_def enableReading_def loop_updateEventDispatcher_def
      registerEventDispatcher_def poller_assertInLoopThread_def updateEventDispatcher_def
      unit_ctl_def setReadCallback_def setState_def mk_EventDispatcher_def mk_EpollPoller_def
      poller_states Let_def wf_queues_def timerq.defs mk_timerq_def)

text \<open>
  A loop that is destroyed without having run keeps its thread: a second loop there ends the
  process.  After it has run and returned, the thread is free.
\<close>

theorem destroyed_loop_keeps_thread:
  assumes "mk_EventLoop me th sl clk wl c tfd wfd = Inr s" and "destroy_EventLoop th s = (s', None)"
    and "tfd' \<ge> 0"
  shows "mk_EventLoop me' th (slots s') clk' wl' c' tfd' wfd' = Inl ProcessExit"
proof -
  have "slots s th = Some me"
    using assms(1) by (auto simp: mk_EventLoop_def Let_def outcome_simps timerq.defs)
  then have "slots s' th = Some me"
    using assms(2) by (auto simp: destroy_EventLoop_def loop_quit_def wakeup_def Let_def split: if_splits)
  then show ?thesis using assms(3)
    by (simp add: mk_EventLoop_def open_timerfd_def enableReading_def loop_updateEventDispatcher_def
        registerEventDispatcher_def poller_assertInLoopThread_def setReadCallback_def
        mk_EventDispatcher_def mk_EpollPoller_def poller_states Let_def)
qed

text \<open>
  Moving a loop out of a thread clears the slot it was made in, even when that slot by now
  belongs to another loop: a third loop can then be made in the thread in which that other
  loop lives.
\<close>

theorem move_clears_foreign_slot:
  assumes "\<not> isRunning s" and "threadId s \<noteq> th" and "slots s th = None"
    and "slots s (slotOf s) = Some b" and "b \<noteq> self s" and "tfd \<ge> 0" and "wfd \<ge> 0"
  shows "\<exists>s' s''. moveToCurrentThread th s = (s', None) \<and> slots s' th = Some (self s) \<and>
    slots s' (slotOf s) = None \<and>
    mk_EventLoop c (slotOf s) (slots s') clk' wl created tfd wfd = Inr s''"
proof -
  have ne: "slotOf s \<noteq> th" using assms(3,4) by auto
  define s' where "s' = s\<lparr>slots := (slots s)(slotOf s := None, th \<mapsto> self s), slotOf := th, threadId := th\<rparr>"
  have "slots s' (slotOf s) = None" using ne by (simp add: s'_def)
  then obtain s'' where "mk_EventLoop c (slotOf s) (slots s') clk' wl created tfd wfd = Inr s''"
    using mk_EventLoop_eq [OF assms(6,7)] by blast
  moreover have "moveToCurrentThread th s = (s', None)"
    using assms(1-3) by (simp add: moveToCurrentThread_def isInLoopThread_def s'_def)
  ultimately show ?thesis using ne by (simp add: s'_def)
qed

section \<open>Concrete runs\<close>

lemma fresh_loop:
  obtains s where "mk_EventLoop 1 0 Map.empty 0 0 0 5 6 = Inr s" "wf_queues s" "items (funcs s) = []"
    "items (funcsOnQuit s) = []" "threadId s = 0" "self s = 1" "slots s = [0 \<mapsto> 1]" "slotOf s = 0"
    "\<not> looping s" "\<not> quitting s" "timers s = []" "timerIdSet s = {}" "timersCreated s = 0"
  using mk_EventLoop_eq [of 5 6 Map.empty 0 1 0 0 0] by auto

lemma mpsc_of_list: "\<exists>q. wf_mpsc q \<and> items q = xs"
proof (induction xs rule: rev_induct)
  case Nil
  then show ?case using mpsc.wf_new mpsc.contents_new by blast
next
  case (snoc x xs)
  then obtain q where q: "wf_mpsc q" "items q = xs" by blast
  then show ?case using mpsc.enq_ok [OF q(1), of x] by auto
qed

lemma loop_with_queue:
  obtains s where "wf_queues s" "items (funcs s) = fs" "items (funcsOnQuit s) = map Some qs"
    "threadId s = 0" "\<not> looping s" "\<not> quitting s" "trace s = []"
proof -
  obtain s :: eloop where s: "wf_queues s" "threadId s = 0" "\<not> looping s" "\<not> quitting s"
    using fresh_loop by blast
  obtain q where "wf_mpsc q" "items q = fs" using mpsc_of_list by blast
  moreover obtain q' where "wf_mpsc q'" "items q' = map Some qs" using mpsc_of_list by blast
  ultimately show ?thesis
    using s by (intro that [of "s\<lparr>funcs := q, funcsOnQuit := q', trace := []\<rparr>"])
      (simp_all add: wf_queues_def)
qed

definition idle_round :: round where
  "idle_round = \<lparr>others = [], returns_at = 7, answer = WaitEvents []\<rparr>"

definition quit_round :: round where
  "quit_round = \<lparr>others = [(3, 5, [Quit])], returns_at = 7, answer = WaitEvents []\<rparr>"

lemma quiet_round:
  assumes "answer r = WaitEvents []" "wf_queues (run_others prog n (others r) s)"
    "items (funcs (run_others prog n (others r) s)) = []"
  shows "\<exists>s'. loop_body prog th n 1 r s = (s', None) \<and> threadId s' = threadId (run_others prog n (others r) s)
    \<and> quitting s' = quitting (run_others prog n (others r) s)"
proof -
  have w: "wf_mpsc (funcs (run_others prog n (others r) s))" using assms(2) by (simp add: wf_queues_def)
  show ?thesis using assms mpsc.deq_Nil [OF w] mpsc.empty_iff [OF w]
    by (simp add: loop_body_def poll_def doRunInLoopFuncs_def andThen_def Let_def)
qed


theorem queued_closures_run_in_order_witness:
  "\<exists>s s'. items (funcs s) = [Some (UserTask 1), Some (UserTask 2)] \<and>
     doRunInLoopFuncs (\<lambda>f. if f = 1 then [QueueInLoop (Some 3)] else []) 0 0 5 s = (s', None) \<and>
     trace s' = [1, 2, 3]"
proof -
  obtain s :: eloop where s: "wf_queues s" "items (funcs s) = map (Some \<circ> UserTask) [1, 2]" "trace s = []"
    using loop_with_queue [where qs = "[]"] by metis
  let ?g = "\<lambda>f::nat. if f = 1 then [3] else [] :: nat list"
  let ?w = "\<lambda>f::nat. if f = 1 then 2 else 1 :: nat"
  have "\<exists>s' zs. doRunInLoopFuncs (\<lambda>f. if f = 1 then [QueueInLoop (Some 3)] else []) 0 0 5 s = (s', None) \<and>
      worklist 5 ?g [1, 2] = Some ([1, 2] @ zs) \<and> trace s' = trace s @ [1, 2] @ zs \<and>
      items (funcs s') = [] \<and> \<not> callingFuncs s'"
    by (rule queued_closures_run_in_order [OF s(1,2), where w = ?w]) (simp_all split: if_splits)
  then show ?thesis using s(2,3) by (auto simp: numeral_eq_Suc)
qed

theorem self_queueing_never_returns_witness:
  "\<exists>s. items (funcs s) = [Some (UserTask 1)] \<and>
     snd (doRunInLoopFuncs (\<lambda>f. [QueueInLoop (Some f)]) 0 0 1000 s) = Some NotReturned"
proof -
  obtain s :: eloop where s: "wf_queues s" "items (funcs s) = [Some (UserTask 1)]"
    using loop_with_queue [where qs = "[]"] by metis
  then show ?thesis
    using self_queueing_never_returns [OF s, of "\<lambda>f. [QueueInLoop (Some f)]" 0 0 1000] by blast
qed

theorem throwing_closure_keeps_rest_witness:
  "\<exists>s s'. items (funcs s) = [Some (UserTask 1), Some (UserTask 2), Some (UserTask 3)] \<and>
     doRunInLoopFuncs (\<lambda>f. if f = 2 then [Raise ThrowForeign] else []) 0 0 9 s = (s', Some ThrowForeign) \<and>
     trace s' = [1, 2] \<and> items (funcs s') = [Some (UserTask 3)]"
proof -
  obtain s :: eloop where s: "wf_queues s" "trace s = []"
      "items (funcs s) = map (Some \<circ> UserTask) ([1] @ [2]) @ [Some (UserTask 3)]"
    using loop_with_queue [where qs = "[]"] by metis
  from throwing_closure_keeps_rest [OF s(1,3), of "\<lambda>f. if f = 2 then [Raise ThrowForeign] else []"
      ThrowForeign 0 0 7] s(2,3)
  show ?thesis by (auto simp: numeral_eq_Suc)
qed

theorem loop_exit_witness:
  "\<exists>s s'. loop (\<lambda>_. []) 0 0 2 [quit_round] s = (s', None) \<and> trace s' = [8] \<and> \<not> looping s' \<and>
     slots s' 0 = None"
proof -
  obtain s :: eloop where s: "wf_queues s" "items (funcs s) = []" "items (funcsOnQuit s) = map Some [8]"
      "threadId s = 0" "\<not> looping s" "trace s = []"
    using loop_with_queue by metis
  have w: "wf_mpsc (funcs s)" using s(1) by (simp add: wf_queues_def)
  define s1 where "s1 = fst (loop_rounds (\<lambda>_. []) 0 0 2 [quit_round] (s\<lparr>looping := True, quitting := False\<rparr>))"
  have r: "loop_rounds (\<lambda>_. []) 0 0 2 [quit_round] (s\<lparr>looping := True, quitting := False\<rparr>) = (s1, None) \<and>
      funcsOnQuit s1 = funcsOnQuit s \<and> trace s1 = []"
    unfolding s1_def using s mpsc.deq_Nil [OF w] mpsc.empty_iff [OF w]
    by (simp add: loop_body_def poll_def doRunInLoopFuncs_def andThen_def Let_def quit_round_def
        exec_simple loop_quit_def wakeup_def isInLoopThread_def numeral_eq_Suc)
  then obtain s' where "loop (\<lambda>_. []) 0 0 2 [quit_round] s = (s', None)" "trace s' = [8]"
      "\<not> looping s'" "slots s' = (slots s1)(0 := None)"
    using loop_exit [OF s(5,4) conjunct1 [OF r] s(1), of "[8]"] s(3) by auto
  then show ?thesis by (intro exI [of _ s] exI [of _ s']) simp
qed

theorem quit_ends_round_witness:
  "\<exists>s s'. \<not> quitting s \<and>
     loop_rounds (\<lambda>_. []) 0 0 1 [quit_round, idle_round] s = (s', None)"
proof -
  obtain s :: eloop where s: "wf_queues s" "items (funcs s) = []" "threadId s = 0" "\<not> quitting s"
    using fresh_loop by blast
  define s1 where "s1 = run_others (\<lambda>_. []) 0 (others quit_round) s"
  have "wf_queues s1" "items (funcs s1) = []"
    using s by (simp_all add: s1_def quit_round_def exec_simple andThen_def loop_quit_def wakeup_def
        isInLoopThread_def wf_queues_def Let_def)
  then obtain s' where "loop_body (\<lambda>_. []) 0 0 1 quit_round s = (s', None)"
    using quiet_round [of quit_round "\<lambda>_. []" 0 s 0] by (auto simp: s1_def quit_round_def)
  then show ?thesis using quit_ends_round [OF s(4), of 3 5 quit_round] s(4)
    by (fastforce simp: quit_round_def)
qed

theorem quit_before_loop_lost_witness:
  "\<exists>s s'. loop (\<lambda>_. []) 0 0 0 [] (loop_quit 0 s) = (s', Some NotReturned) \<and> isRunning s'"
proof -
  obtain s :: eloop where "\<not> looping s" "threadId s = 0" using fresh_loop by blast
  then show ?thesis using quit_before_loop_lost by blast
qed


theorem invalidate_before_loop_ignored_witness:
  "\<exists>s s'. exec (\<lambda>_. []) 0 0 [RunAfter 9 (Some 4), InvalidateTimer 1] s = (s', None) \<and> 1 \<in> timerIdSet s'"
proof -
  obtain s :: eloop where s: "\<not> looping s" "threadId s = 0" "timersCreated s = 0" using fresh_loop by blast
  then have "\<not> isRunning s" by (simp add: isRunning_def)
  then show ?thesis using invalidate_before_loop_ignored [OF _ s(2), of "\<lambda>_. []" 0 9 4] s(3) by auto
qed

theorem destroyed_loop_keeps_thread_witness:
  "\<exists>s s'. destroy_EventLoop 0 s = (s', None) \<and>
     mk_EventLoop 2 0 (slots s') 0 0 0 7 8 = Inl ProcessExit"
proof -
  obtain s :: eloop where s: "mk_EventLoop 1 0 Map.empty 0 0 0 5 6 = Inr s" "\<not> looping s" using fresh_loop by blast
  then have d: "destroy_EventLoop 0 s = (loop_quit 0 s, None)"
    by (simp add: destroy_EventLoop_def loop_quit_def wakeup_def Let_def)
  then show ?thesis using destroyed_loop_keeps_thread [OF s(1) d] by fastforce
qed

theorem move_clears_foreign_slot_witness:
  "\<exists>s s' s''. slots s 0 = Some 2 \<and> moveToCurrentThread 1 s = (s', None) \<and> slots s' 0 = None \<and>
     mk_EventLoop 3 0 (slots s') 0 0 0 7 8 = Inr s''"
proof -
  obtain s :: eloop where s: "\<not> looping s" "threadId s = 0" "self s = 1" "slotOf s = 0" using fresh_loop by blast
  define s1 where "s1 = s\<lparr>slots := [0 \<mapsto> 2]\<rparr>"
  have "\<not> isRunning s1" "threadId s1 \<noteq> 1" "slots s1 1 = None" "slots s1 (slotOf s1) = Some 2" "2 \<noteq> self s1"
    using s by (simp_all add: s1_def isRunning_def)
  from move_clears_foreign_slot [OF this, of 7 8 3 0 0 0] obtain s' s'' where
    "moveToCurrentThread 1 s1 = (s', None)" "slots s' (slotOf s1) = None"
    "mk_EventLoop 3 (slotOf s1) (slots s') 0 0 0 7 8 = Inr s''"
    by auto
  moreover have "slotOf s1 = 0" "slots s1 0 = Some 2" using s(4) by (simp_all add: s1_def)
  ultimately show ?thesis by (intro exI [of _ s1] exI [of _ s'] exI [of _ s'']) simp
qed

end
