(* ===== verification/TimedLoop.thy ===== *)
theory TimedLoop
  imports EventLoop
begin

text \<open>
  The parts of the event loop together: poller, dispatchers, wake-up descriptor, closure queue and
  timer queue in a round of \<^verbatim>\<open>EventLoop::loop\<close>, and the way of a timer from the thread that asks
  for it to its callback.
\<close>

section \<open>A round with one event\<close>

text \<open>A dispatcher that is watched and has nothing but a read callback.\<close>

definition reads :: "loop_cb \<Rightarrow> addr \<Rightarrow> eloop \<Rightarrow> bool" where
  "reads cb a s \<longleftrightarrow>
     (\<exists>d. disps s a = Some d \<and> events d \<noteq> kNoneEvent \<and> \<not> tied d \<and> eventCallback d = None \<and>
          readCallback d = Some cb)"

text \<open>The state in which the dispatching of one readable descriptor begins.\<close>

definition polled :: "addr \<Rightarrow> int \<Rightarrow> eloop \<Rightarrow> eloop" where
  "polled a c s =
     s\<lparr>clock := c, disps := (disps s)(a := map_option (setRealEvents POLLIN) (disps s a)),
       pollr := (if nevents (pollr s) = 1 then (pollr s)\<lparr>nevents := 2\<rparr> else pollr s), eventHandling := True\<rparr>"

lemma one_event_round:
  assumes "reads cb a (run_others prog n (others r) s)" and "nevents (pollr (run_others prog n (others r) s)) \<ge> 1"
    and "answer r = WaitEvents [(POLLIN, a)]"
    and "run_cb prog th n cb (polled a (returns_at r) (run_others prog n (others r) s)) = (s', None)"
    and "disps s' = disps (polled a (returns_at r) (run_others prog n (others r) s))"
  shows "loop_body prog th n k r s = doRunInLoopFuncs prog th n k (s'\<lparr>eventHandling := False\<rparr>)"
proof -
  define s0 where "s0 = run_others prog n (others r) s"
  obtain d where d: "disps s0 a = Some d" "events d \<noteq> kNoneEvent" "\<not> tied d" "eventCallback d = None"
      "readCallback d = Some cb"
    using assms(1) by (auto simp: reads_def s0_def)
  define d' where "d' = setRealEvents POLLIN d"
  have d': "realEvents d' = POLLIN" "events d' \<noteq> kNoneEvent" "\<not> tied d'" "eventCallback d' = None"
      "readCallback d' = Some cb"
    using d by (simp_all add: d'_def setRealEvents_def)
  let ?p = "polled a (returns_at r) s0"
  have dp: "disps ?p a = Some d'" by (simp add: polled_def d(1) d'_def)
  then have ds: "disps s' a = Some d'" using assms(5) by (simp add: s0_def)
  have bits: "POLLIN AND POLLHUP = 0" "POLLIN AND (POLLNVAL OR POLLERR) = 0" "POLLIN AND POLLOUT = 0"
      "POLLIN AND (POLLIN OR POLLPRI OR POLLRDHUP) \<noteq> 0" "POLLIN \<noteq> 0"
    by (simp_all add: poll_bits)
  have "run_cb prog th n cb ?p = (s', None)" using assms(4) by (simp add: s0_def)
  then have h: "handle_active prog th n [a] ?p = (s', None)"
    by (simp add: dp ds d' bits handleEvent_def handleEventSafely_def disp_at_def run_opt_def andThen_def Let_def)
  have "poll (answer r) (pollr (s0\<lparr>clock := returns_at r\<rparr>)) (disps (s0\<lparr>clock := returns_at r\<rparr>)) [] =
      Inr (pollr ?p, disps ?p, [a])"
    using assms(2,3) d(1) by (auto simp: poll_def fillActiveDispatchers_def guard_or_def polled_def s0_def fun_upd_def)
  moreover have "s0\<lparr>clock := returns_at r, pollr := pollr ?p, disps := disps ?p, eventHandling := True\<rparr> = ?p"
    by (simp add: polled_def)
  ultimately show ?thesis using h
    by (simp add: loop_body_def Let_def s0_def [symmetric] andThen_def)
qed

lemma run_funcs_none:
  "wf_queues s \<Longrightarrow> items (funcs s) = [] \<Longrightarrow> run_funcs prog th n (Suc k) s = (s, None)"
  using mpsc.deq_Nil [of "funcs s"] mpsc.empty_iff [of "funcs s"] by (simp add: wf_queues_def)


section \<open>Silent callbacks\<close>

text \<open>Callbacks of timers that are set and make no calls on the loop.\<close>

definition silent :: "program \<Rightarrow> nat timer list \<Rightarrow> bool" where
  "silent prog ts \<longleftrightarrow> (\<forall>u \<in> set ts. \<exists>f. tcallback u = Some f \<and> prog f = [])"

lemma run_expired_silent:
  "silent prog ts \<Longrightarrow>
   run_expired (run_func prog th n) ts s =
     (s\<lparr>trace := trace s @ map (the \<circ> tcallback) (filter (\<lambda>u. tid u \<in> timerIdSet s) ts)\<rparr>, None)"
  by (induction ts arbitrary: s) (auto simp: silent_def andThen_def timer_run_def run_func_def)

lemma reset_loop_others:
  fixes s :: eloop
  shows "trace (reset_loop ts now clk s) = trace s \<and> disps (reset_loop ts now clk s) = disps s \<and>
    funcs (reset_loop ts now clk s) = funcs s \<and> funcsOnQuit (reset_loop ts now clk s) = funcsOnQuit s"
  by (induction ts arbitrary: s) (auto simp: insert_timer_def Let_def)

text \<open>One expiry with silent callbacks: what runs, and what it leaves of the loop's state.\<close>

lemma handleRead_silent:
  fixes s :: eloop
  assumes "silent prog (timers s)" and "pq_sorted (timers s)"
  shows "\<exists>s'. handleRead True (run_func prog th n) now clk s = (s', None) \<and>
    trace s' = trace s @ map (the \<circ> tcallback)
      (filter (\<lambda>u. twhen u \<le> now \<and> tid u \<in> timerIdSet s) (timers s)) \<and>
    disps s' = disps s \<and> funcs s' = funcs s \<and> funcsOnQuit s' = funcsOnQuit s"
proof -
  define a where "a = armed (readTimerfd now s)"
  have rd: "readTimerfd now s = s\<lparr>armed := a\<rparr>"
    by (simp add: a_def readTimerfd_def split: option.split)
  define ex where "ex = filter (\<lambda>u. twhen u \<le> now) (timers s)"
  have ge: "getExpired now (timers s) = (ex, filter (\<lambda>u. twhen u > now) (timers s))"
    using getExpired_sorted [OF assms(2)] by (simp add: ex_def)
  have "silent prog ex" using assms(1) by (simp add: silent_def ex_def)
  note run = run_expired_silent [OF this]
  define s1 where "s1 = s\<lparr>armed := a, timers := filter (\<lambda>u. twhen u > now) (timers s),
    trace := trace s @ map (the \<circ> tcallback) (filter (\<lambda>u. tid u \<in> timerIdSet s) ex),
    callingExpiredTimers := False\<rparr>"
  have "handleRead True (run_func prog th n) now clk s = (reset_expired ex now clk s1, None)"
    by (simp add: handleRead_def rd ge Let_def andThen_def run s1_def)
  moreover have "trace (reset_expired ex now clk s1) = trace s1 \<and> disps (reset_expired ex now clk s1) = disps s1 \<and>
      funcs (reset_expired ex now clk s1) = funcs s1 \<and> funcsOnQuit (reset_expired ex now clk s1) = funcsOnQuit s1"
    using reset_loop_others [of ex now clk s1] by (simp add: reset_expired_def Let_def resetTimerfd_def)
  moreover have "filter (\<lambda>u. tid u \<in> timerIdSet s) ex =
      filter (\<lambda>u. twhen u \<le> now \<and> tid u \<in> timerIdSet s) (timers s)"
    by (simp add: ex_def conj_commute)
  ultimately show ?thesis by (simp add: s1_def)
qed

section \<open>The way of a timer\<close>

text \<open>
  A loop that waits: nothing queued, its timers in order and its two dispatchers watched.
\<close>

definition waiting :: "eloop \<Rightarrow> bool" where
  "waiting s \<longleftrightarrow> wf_queues s \<and> items (funcs s) = [] \<and> timers_ok s \<and> nevents (pollr s) \<ge> 1 \<and>
     reads HandleRead timer_addr s \<and> reads WakeupRead wake_addr s"

text \<open>What a round does in which the timer descriptor is reported and nobody else does anything.\<close>

lemma timer_round:
  assumes "waiting s" and "silent prog (timers s)" and "others r = []"
    and "answer r = WaitEvents [(POLLIN, timer_addr)]"
  shows "\<exists>s'. loop_body prog (threadId s) n (Suc k) r s = (s', None) \<and>
    trace s' = trace s @ map (the \<circ> tcallback)
      (filter (\<lambda>u. twhen u \<le> returns_at r \<and> tid u \<in> timerIdSet s) (timers s))"
proof -
  let ?th = "threadId s" and ?p = "polled timer_addr (returns_at r) s"
  have p: "timers ?p = timers s" "timerIdSet ?p = timerIdSet s" "trace ?p = trace s" "clock ?p = returns_at r"
      "isInLoopThread ?th ?p" "funcs ?p = funcs s" "funcsOnQuit ?p = funcsOnQuit s"
    by (simp_all add: polled_def isInLoopThread_def)
  have "pq_sorted (timers s)" using assms(1) by (simp add: waiting_def timers_ok_def tq_frame_def)
  then obtain s1 where s1: "run_cb prog ?th n HandleRead ?p = (s1, None)" "disps s1 = disps ?p"
      "trace s1 = trace s @ map (the \<circ> tcallback)
         (filter (\<lambda>u. twhen u \<le> returns_at r \<and> tid u \<in> timerIdSet s) (timers s))"
      "funcs s1 = funcs s" "funcsOnQuit s1 = funcsOnQuit s"
    using handleRead_silent [of prog ?p ?th n "returns_at r" "returns_at r"] assms(2) p
    by (auto simp: run_cb_def)
  define s2 where "s2 = s1\<lparr>eventHandling := False, callingFuncs := True\<rparr>"
  have "wf_queues s2" "items (funcs s2) = []"
    using assms(1) s1(4,5) by (simp_all add: waiting_def wf_queues_def s2_def)
  then have "run_funcs prog ?th n (Suc k) s2 = (s2, None)" by (rule run_funcs_none)
  moreover have "loop_body prog ?th n (Suc k) r s = doRunInLoopFuncs prog ?th n (Suc k) (s1\<lparr>eventHandling := False\<rparr>)"
    using one_event_round [OF _ _ assms(4), of HandleRead prog n s ?th] s1(1,2) assms(1,3)
    by (simp add: waiting_def)
  ultimately show ?thesis using s1(3)
    by (simp add: doRunInLoopFuncs_def s2_def [symmetric] del: run_funcs.simps) (simp add: s2_def)
qed


text \<open>The timer that \<^verbatim>\<open>runAfter\<close> makes at time \<open>c\<close>.\<close>

definition asked_timer :: "int \<Rightarrow> int \<Rightarrow> nat \<Rightarrow> eloop \<Rightarrow> nat timer" where
  "asked_timer c d f s = fst (mk_Timer (Some f) (c + d * 1000) 0 (timersCreated s))"

lemma run_after_elsewhere:
  assumes "wf_queues s" and "t \<noteq> threadId s"
  shows "\<exists>q w. run_others prog n [(t, c, [RunAfter d (Some f)])] s =
      s\<lparr>clock := c, timersCreated := timersCreated s + 1, funcs := q, wakeCount := w\<rparr> \<and> wf_mpsc q \<and>
      items q = items (funcs s) @ [Some (AddTimerTask (asked_timer c d f s))]"
proof -
  let ?s = "s\<lparr>clock := c, timersCreated := timersCreated s + 1\<rparr>"
  have "wf_queues ?s" using assms(1) by (simp add: wf_queues_def)
  then obtain q w where q: "queueInLoop t (Some (AddTimerTask (asked_timer c d f s))) ?s = (?s\<lparr>funcs := q, wakeCount := w\<rparr>, None)"
      "wf_mpsc q" "items q = items (funcs ?s) @ [Some (AddTimerTask (asked_timer c d f s))]"
    using queueInLoop_ok by blast
  have "exec prog t n [RunAfter d (Some f)] (s\<lparr>clock := c\<rparr>) = (?s\<lparr>funcs := q, wakeCount := w\<rparr>, None)"
    using q(1) assms(2)
    by (simp add: exec_simple runAfter_def runAt_def addTimer_def mk_Timer_def Let_def runInLoop_def isInLoopThread_def
        asked_timer_def andThen_def)
  with q(2,3) show ?thesis by (intro exI [of _ q] exI [of _ w]) simp
qed

lemma run_funcs_add_timer:
  assumes "wf_queues s" and "items (funcs s) = [Some (AddTimerTask t)]" and "threadId s = th"
  shows "\<exists>q a. run_funcs prog th n (Suc (Suc k)) s =
      (s\<lparr>funcs := q, timerIdSet := insert (tid t) (timerIdSet s), timers := pq_push t (timers s), armed := a\<rparr>, None)"
proof -
  have "wf_mpsc (funcs s)" using assms(1) by (simp add: wf_queues_def)
  then obtain q where q: "dequeue (funcs s) = Inr (Some (Some (AddTimerTask t)), q)" "wf_mpsc q" "items q = []"
    using mpsc.deq_Cons assms(2) by metis
  define s1 where "s1 = fst (addTimerInLoop True t (clock s) (s\<lparr>funcs := q\<rparr>))"
  have "\<exists>a. s1 = s\<lparr>funcs := q, timerIdSet := insert (tid t) (timerIdSet s), timers := pq_push t (timers s), armed := a\<rparr>"
    by (intro exI [of _ "armed s1"]) (simp add: s1_def addTimerInLoop_def insert_timer_def resetTimerfd_def Let_def)
  then obtain a where s1: "s1 = s\<lparr>funcs := q, timerIdSet := insert (tid t) (timerIdSet s), timers := pq_push t (timers s), armed := a\<rparr>"
    by blast
  then have "wf_queues s1" "items (funcs s1) = []" using assms(1) q(2,3) by (simp_all add: wf_queues_def)
  then have "run_funcs prog th n (Suc k) s1 = (s1, None)" by (rule run_funcs_none)
  moreover have "run_task prog th n (AddTimerTask t) (s\<lparr>funcs := q\<rparr>) = (s1, None)"
    using assms(3) by (simp add: run_task_def run_timer_task_def isInLoopThread_def s1_def addTimerInLoop_def Let_def
        split: prod.split)
  ultimately have "run_funcs prog th n (Suc (Suc k)) s = (s1, None)"
    using q(1) by (simp only: run_funcs.simps(2) [of prog th n "Suc k" s]) (simp add: andThen_def del: run_funcs.simps)
  then show ?thesis using s1 by blast
qed

lemma adding_round:
  assumes "waiting s" and "t \<noteq> threadId s" and "others r = [(t, c, [RunAfter d (Some f)])]"
    and "answer r = WaitEvents [(POLLIN, wake_addr)]"
  shows "\<exists>s'. loop_body prog (threadId s) n (Suc (Suc k)) r s = (s', None) \<and> waiting s' \<and>
    threadId s' = threadId s \<and> trace s' = trace s \<and> timers s' = pq_push (asked_timer c d f s) (timers s) \<and>
    timerIdSet s' = insert (tid (asked_timer c d f s)) (timerIdSet s)"
proof -
  let ?th = "threadId s" and ?t = "asked_timer c d f s"
  have wq: "wf_queues s" "items (funcs s) = []" "timers_ok s" using assms(1) by (simp_all add: waiting_def)
  obtain q w where o: "run_others prog n (others r) s = s\<lparr>clock := c, timersCreated := timersCreated s + 1, funcs := q, wakeCount := w\<rparr>"
      "wf_mpsc q" "items q = [Some (AddTimerTask ?t)]"
    using run_after_elsewhere [OF wq(1) assms(2), of prog n c d f] wq(2) assms(3) by auto
  define s0 where "s0 = s\<lparr>clock := c, timersCreated := timersCreated s + 1, funcs := q, wakeCount := w\<rparr>"
  define p where "p = polled wake_addr (returns_at r) s0"
  define s1 where "s1 = p\<lparr>wakeCount := 0, eventHandling := False, callingFuncs := True\<rparr>"
  have "reads WakeupRead wake_addr s0" "nevents (pollr s0) \<ge> 1"
    using assms(1) by (simp_all add: waiting_def reads_def s0_def)
  moreover have "run_cb prog ?th n WakeupRead p = (p\<lparr>wakeCount := 0\<rparr>, None)" by (simp add: run_cb_def wakeupRead_def)
  ultimately have body: "loop_body prog ?th n (Suc (Suc k)) r s =
      doRunInLoopFuncs prog ?th n (Suc (Suc k)) (p\<lparr>wakeCount := 0, eventHandling := False\<rparr>)"
    using one_event_round [OF _ _ assms(4), of WakeupRead prog n s ?th "p\<lparr>wakeCount := 0\<rparr>" "Suc (Suc k)"] o(1)
    by (simp add: s0_def [symmetric] p_def)
  have "wf_queues s1" "items (funcs s1) = [Some (AddTimerTask ?t)]" "threadId s1 = ?th"
    using wq(1) o(2,3) by (simp_all add: s1_def p_def polled_def s0_def wf_queues_def)
  then obtain q2 a where run: "run_funcs prog ?th n (Suc (Suc k)) s1 =
      (s1\<lparr>funcs := q2, timerIdSet := insert (tid ?t) (timerIdSet s1), timers := pq_push ?t (timers s1), armed := a\<rparr>, None)"
    using run_funcs_add_timer by blast
  define s2 where "s2 = s1\<lparr>funcs := q2, timerIdSet := insert (tid ?t) (timerIdSet s1), timers := pq_push ?t (timers s1),
      armed := a, callingFuncs := False\<rparr>"
  have b: "loop_body prog ?th n (Suc (Suc k)) r s = (s2, None)"
    using body run by (simp add: doRunInLoopFuncs_def s1_def s2_def del: run_funcs.simps)
  have "wf_queues s2" "items (funcs s2) = []" using loop_body_empties [OF b wq(1)] by simp_all
  moreover have "timers_ok s2" using keptD [OF timers_loop.loop_body_kept wq(3) b] by simp
  moreover have "reads HandleRead timer_addr s2" "reads WakeupRead wake_addr s2" "nevents (pollr s2) \<ge> 1"
    using assms(1) by (auto simp: waiting_def reads_def s2_def s1_def p_def polled_def s0_def setRealEvents_def
        timer_addr_def wake_addr_def)
  ultimately have "waiting s2" by (simp add: waiting_def)
  then show ?thesis using b by (intro exI [of _ s2]) (simp add: s2_def s1_def p_def polled_def s0_def)
qed

text \<open>
  A timer that another thread asks for while the loop waits.  The request wakes the loop up
  and the round puts the timer in the queue, with the descriptor set for it or an earlier one;
  and the next round, when the descriptor ends its wait at the timer's time or after, runs the
  timer's callback.
\<close>

theorem timer_from_other_thread_runs:
  assumes "waiting s" and "t \<noteq> threadId s" and "prog f = []" and "silent prog (timers s)"
    and "others r1 = [(t, c, [RunAfter d (Some f)])]" and "answer r1 = WaitEvents [(POLLIN, wake_addr)]"
    and "others r2 = []" and "answer r2 = WaitEvents [(POLLIN, timer_addr)]"
    and "c + d * 1000 \<le> returns_at r2"
  shows "\<exists>s1 s2 c1 ran. loop_body prog (threadId s) n (Suc (Suc k)) r1 s = (s1, None) \<and> trace s1 = trace s \<and>
    armed s1 = Some (c1, howMuchTimeFromNow (twhen (pq_top (timers s1))) c1) \<and>
    twhen (pq_top (timers s1)) \<le> c + d * 1000 \<and>
    loop_body prog (threadId s) n (Suc (Suc k)) r2 s1 = (s2, None) \<and> trace s2 = trace s @ ran \<and> f \<in> set ran"
proof -
  let ?t = "asked_timer c d f s"
  obtain s1 where s1: "loop_body prog (threadId s) n (Suc (Suc k)) r1 s = (s1, None)" "waiting s1"
      "threadId s1 = threadId s" "trace s1 = trace s" "timers s1 = pq_push ?t (timers s)"
      "timerIdSet s1 = insert (tid ?t) (timerIdSet s)"
    using adding_round [OF assms(1,2,5,6), of prog n k] by auto
  have t: "tcallback ?t = Some f" "twhen ?t = c + d * 1000" by (simp_all add: asked_timer_def mk_Timer_def Let_def)
  have m: "set (timers s1) = insert ?t (set (timers s))"
    using arg_cong [OF mset_pq_push, of set_mset ?t "timers s"] s1(5) by simp
  then have "silent prog (timers s1)" using assms(3,4) t(1) by (simp add: silent_def)
  then obtain s2 where s2: "loop_body prog (threadId s) n (Suc (Suc k)) r2 s1 = (s2, None)"
      "trace s2 = trace s1 @ map (the \<circ> tcallback)
         (filter (\<lambda>u. twhen u \<le> returns_at r2 \<and> tid u \<in> timerIdSet s1) (timers s1))"
    using timer_round [OF s1(2) _ assms(7,8), of prog n "Suc k"] s1(3) by auto
  have "?t \<in> set (filter (\<lambda>u. twhen u \<le> returns_at r2 \<and> tid u \<in> timerIdSet s1) (timers s1))"
    using m t(2) assms(9) s1(6) by simp
  then have ran: "f \<in> set (map (the \<circ> tcallback)
         (filter (\<lambda>u. twhen u \<le> returns_at r2 \<and> tid u \<in> timerIdSet s1) (timers s1)))"
    using t(1) by (force simp: image_iff)
  have ok: "pq_sorted (timers s1)" "tq_armed s1" using s1(2) by (simp_all add: waiting_def timers_ok_def tq_frame_def)
  obtain u q where u: "timers s1 = u # q" using m by (cases "timers s1") auto
  then have "twhen (pq_top (timers s1)) \<le> twhen ?t"
    using ok(1) m by (auto simp: pq_sorted_def pq_top_def)
  moreover obtain c1 where "armed s1 = Some (c1, howMuchTimeFromNow (twhen (pq_top (timers s1))) c1)"
    using ok(2) u by (auto simp: tq_armed_def)
  ultimately show ?thesis using s1(1,4) s2 ran t(2)
    by (intro exI [of _ s1] exI [of _ s2] exI [of _ c1] exI [of _ "map (the \<circ> tcallback)
         (filter (\<lambda>u. twhen u \<le> returns_at r2 \<and> tid u \<in> timerIdSet s1) (timers s1))"] conjI) simp_all
qed


text \<open>A loop that was just made waits.\<close>

lemma new_loop_waits:
  assumes "mk_EventLoop me th sl clk wl created timerfd wakefd = Inr s"
  shows "waiting s" and "threadId s = th" and "timers s = []" and "clock s = clk"
  using assms
  by (auto simp: mpsc.wf_new mpsc.contents_new timer_addr_def wake_addr_def mk_EventLoop_def open_timerfd_def
      enableReading_def loop_updateEventDispatcher_def registerEventDispatcher_def poller_assertInLoopThread_def
      setReadCallback_def setState_def mk_EventDispatcher_def mk_EpollPoller_def updateEventDispatcher_def
      poller_states Let_def wf_queues_def timerq.defs mk_timerq_def waiting_def timers_ok_def tq_frame_def tq_armed_def
      reads_def outcome_simps pq_sorted_def event_bits kInitEventListSize_def split: if_splits)

theorem timer_from_other_thread_runs_witness:
  "\<exists>s s1 s2. mk_EventLoop 1 0 Map.empty 0 0 0 5 6 = Inr s \<and>
     loop_body (\<lambda>_. []) 0 0 2 \<lparr>others = [(3, 4, [RunAfter 500 (Some 4)])], returns_at = 7,
       answer = WaitEvents [(POLLIN, wake_addr)]\<rparr> s = (s1, None) \<and>
     loop_body (\<lambda>_. []) 0 0 2 \<lparr>others = [], returns_at = 500004, answer = WaitEvents [(POLLIN, timer_addr)]\<rparr> s1 =
       (s2, None) \<and> 4 \<in> set (trace s2)"
proof -
  obtain s :: eloop where s: "mk_EventLoop 1 0 Map.empty 0 0 0 5 6 = Inr s" using fresh_loop by blast
  note n = new_loop_waits [OF s]
  show ?thesis
    using timer_from_other_thread_runs [OF n(1), of 3 "\<lambda>_. []" 4
        "\<lparr>others = [(3, 4, [RunAfter 500 (Some 4)])], returns_at = 7, answer = WaitEvents [(POLLIN, wake_addr)]\<rparr>" 4 500
        "\<lparr>others = [], returns_at = 500004, answer = WaitEvents [(POLLIN, timer_addr)]\<rparr>" 0 0] n(2-4) s
    by (fastforce simp: silent_def numeral_2_eq_2)
qed

section \<open>The end of a loop\<close>

text \<open>
  \<^verbatim>\<open>resetTimerQueue\<close>: the new dispatcher takes the place of the old one in the loop's state.
\<close>

definition resetTimerQueue :: "nat \<Rightarrow> int \<Rightarrow> (eloop, fault) act" where
  "resetTimerQueue th newfd =
     andThen (assertInLoopThread th)
       (\<lambda>s. if looping s then raise AssertFail s
            else
              case disps s timer_addr of
                None \<Rightarrow> raise NullDeref s
              | Some d \<Rightarrow>
                  (case reset_timerq HandleRead (loop_updateEventDispatcher (\<lambda>_. isInLoopThread th s) unit_ctl (self s))
                          (loop_removeEventDispatcher (\<lambda>_. isInLoopThread th s) unit_ctl (self s))
                          timer_addr timer_addr newfd (clock s) d s (pollr s) of
                     Inl e \<Rightarrow> raise e s
                   | Inr (d', s', p) \<Rightarrow> skip (s'\<lparr>disps := (disps s')(timer_addr \<mapsto> d'), pollr := p\<rparr>)))"

text \<open>
  The destructor of the timer queue hands a closure to the loop.  Behind the body of
  \<^verbatim>\<open>~EventLoop\<close> the members go in the opposite order of their declaration: the wake-up
  dispatcher, the functions for quitting, the timer queue, the queued closures.
\<close>

definition destroy_timerq :: "nat \<Rightarrow> (eloop, fault) act" where
  "destroy_timerq th s = runInLoop (run_timer_task th) th CloseTimerfdTask s"

definition destroy_funcsOnQuit :: "(eloop, fault) act" where
  "destroy_funcsOnQuit s =
     (case destroy_queue (funcsOnQuit s) of
        None \<Rightarrow> raise NotReturned s
      | Some (Inl e) \<Rightarrow> raise e s
      | Some (Inr q) \<Rightarrow> skip (s\<lparr>funcsOnQuit := q\<rparr>))"

definition destroy_funcs :: "(eloop, fault) act" where
  "destroy_funcs s =
     (case destroy_queue (funcs s) of
        None \<Rightarrow> raise NotReturned s
      | Some (Inl e) \<Rightarrow> raise e s
      | Some (Inr q) \<Rightarrow> skip (s\<lparr>funcs := q\<rparr>))"

definition delete_EventLoop :: "nat \<Rightarrow> (eloop, fault) act" where
  "delete_EventLoop th =
     andThen (destroy_EventLoop th)
    (andThen (\<lambda>s. skip (s\<lparr>disps := (disps s)(wake_addr := None)\<rparr>))
    (andThen destroy_funcsOnQuit
    (andThen (destroy_timerq th) destroy_funcs)))"

lemma destroy_queue_wf: "wf_mpsc q \<Longrightarrow> \<exists>q'. destroy_queue q = Some (Inr q') \<and> nodes q' = Map.empty"
  using destroy_queue_frees [of q "items q"] by (simp add: wf_mpsc_def)

text \<open>The dispatcher of the timer descriptor, watched in the poller of its loop.\<close>

definition timerfd_watched :: "eloop \<Rightarrow> bool" where
  "timerfd_watched s \<longleftrightarrow>
     (\<exists>d. disps s timer_addr = Some d \<and> dloop d = self s \<and> fd d \<ge> 0 \<and> dstate d = kAdded \<and> ploop (pollr s) = Some (self s))"

lemma close_watched:
  assumes "timerfd_watched s" and "threadId s = th"
  shows "\<exists>p. close_timerfd_in_loop th s = (s\<lparr>disps := (disps s)(timer_addr := None), pollr := p\<rparr>, None)"
proof -
  obtain d where d: "disps s timer_addr = Some d" "dloop d = self s" "fd d \<ge> 0" "dstate d = kAdded"
      "ploop (pollr s) = Some (self s)"
    using assms(1) by (auto simp: timerfd_watched_def)
  have "\<exists>d' p. close_timerfd (loop_updateEventDispatcher (\<lambda>_. isInLoopThread th s) unit_ctl (self s) timer_addr)
      (loop_removeEventDispatcher (\<lambda>_. isInLoopThread th s) unit_ctl (self s) timer_addr) d (pollr s) = Inr (d', p)"
    using d assms(2)
    by (simp add: close_timerfd_def disableAll_def loop_updateEventDispatcher_def registerEventDispatcher_def
        poller_assertInLoopThread_def isInLoopThread_def updateEventDispatcher_def unit_ctl_def poller_states isNoneEvent_def
        setState_def remove_dispatcher_def loop_removeEventDispatcher_def removeEventDispatcher_def Let_def)
  then show ?thesis using d(1) by (auto simp: close_timerfd_in_loop_def Let_def)
qed

lemma delete_result:
  assumes "wf_queues s" and "\<not> looping s" and "timerfd_watched s"
  shows "\<exists>s'. delete_EventLoop th s = (s', None) \<and> nodes (funcs s') = Map.empty \<and>
    nodes (funcsOnQuit s') = Map.empty \<and> disps s' wake_addr = None \<and>
    (if threadId s = th then disps s' timer_addr = None else timerfd_watched s') \<and> trace s' = trace s \<and>
    slots s' = slots s"
proof -
  define w where "w = (if isInLoopThread th s then wakeCount s else wakeCount s + 1)"
  have q: "destroy_EventLoop th s = (s\<lparr>quitting := True, wakeCount := w\<rparr>, None)"
    using assms(2) by (simp add: w_def destroy_EventLoop_def loop_quit_def wakeup_def isInLoopThread_def Let_def)
  obtain q1 where q1: "destroy_queue (funcsOnQuit s) = Some (Inr q1)" "nodes q1 = Map.empty"
    using destroy_queue_wf assms(1) by (auto simp: wf_queues_def)
  define s1 where "s1 = s\<lparr>quitting := True, wakeCount := w, disps := (disps s)(wake_addr := None), funcsOnQuit := q1\<rparr>"
  have first: "delete_EventLoop th s = andThen (destroy_timerq th) destroy_funcs s1"
    using q q1(1) by (simp add: delete_EventLoop_def andThen_def destroy_funcsOnQuit_def s1_def)
  have w1: "timerfd_watched s1" using assms(3)
    by (simp add: timerfd_watched_def s1_def timer_addr_def wake_addr_def)
  have rest: "\<exists>s'. destroy_funcs t = (s', None) \<and> nodes (funcs s') = Map.empty \<and> nodes (funcsOnQuit s') = Map.empty \<and>
      disps s' = disps t \<and> pollr s' = pollr t \<and> self s' = self t \<and> trace s' = trace t \<and> slots s' = slots t"
    if "wf_mpsc (funcs t)" "funcsOnQuit t = q1" for t
    using destroy_queue_wf [OF that(1)] that(2) q1(2) by (auto simp: destroy_funcs_def)
  show ?thesis
  proof (cases "threadId s = th")
    case True
    obtain p where p: "close_timerfd_in_loop th s1 = (s1\<lparr>disps := (disps s1)(timer_addr := None), pollr := p\<rparr>, None)"
      using close_watched [OF w1, of th] True by (auto simp: s1_def)
    define s2 where "s2 = s1\<lparr>disps := (disps s1)(timer_addr := None), pollr := p\<rparr>"
    have "destroy_timerq th s1 = (s2, None)"
      using p True by (simp add: destroy_timerq_def runInLoop_def isInLoopThread_def run_timer_task_def s2_def s1_def)
    moreover obtain s' where "destroy_funcs s2 = (s', None)" "nodes (funcs s') = Map.empty"
        "nodes (funcsOnQuit s') = Map.empty" "disps s' = disps s2" "trace s' = trace s2" "slots s' = slots s2"
      using rest [of s2] assms(1) by (auto simp: s2_def s1_def wf_queues_def)
    ultimately show ?thesis using True
      by (intro exI [of _ s']) (simp add: first andThen_def s2_def s1_def timer_addr_def wake_addr_def)
  next
    case False
    have "wf_queues (s1\<lparr>funcsOnQuit := funcsOnQuit s\<rparr>)" using assms(1) by (simp add: s1_def wf_queues_def)
    then obtain q c where c: "queueInLoop th (Some CloseTimerfdTask) s1 = (s1\<lparr>funcs := q, wakeCount := c\<rparr>, None)" "wf_mpsc q"
      using enqueue_total [of "funcs s" "Some CloseTimerfdTask"] enqueue_wf(1) [of "funcs s"] assms(1,2) False
      by (auto simp: queueInLoop_def s1_def wf_queues_def isInLoopThread_def wakeup_def Let_def)
    define s2 where "s2 = s1\<lparr>funcs := q, wakeCount := c\<rparr>"
    have "destroy_timerq th s1 = (s2, None)"
      using c(1) False by (simp add: destroy_timerq_def runInLoop_def isInLoopThread_def s2_def s1_def)
    moreover obtain s' where s': "destroy_funcs s2 = (s', None)" "nodes (funcs s') = Map.empty"
        "nodes (funcsOnQuit s') = Map.empty" "disps s' = disps s2" "trace s' = trace s2" "pollr s' = pollr s2" "self s' = self s2"
        "slots s' = slots s2"
      using rest [of s2] c(2) by (auto simp: s2_def s1_def)
    moreover have "timerfd_watched s'" using w1 s'(4,6,7) by (simp add: timerfd_watched_def s2_def)
    ultimately show ?thesis using False
      by (intro exI [of _ s']) (simp add: first andThen_def s2_def s1_def)
  qed
qed


lemma new_loop_watched:
  assumes "mk_EventLoop me th sl clk wl created timerfd wakefd = Inr s"
  shows "timerfd_watched s"
  using assms
  by (auto simp: timer_addr_def wake_addr_def mk_EventLoop_def open_timerfd_def
      enableReading_def loop_updateEventDispatcher_def registerEventDispatcher_def poller_assertInLoopThread_def
      setReadCallback_def setState_def mk_EventDispatcher_def mk_EpollPoller_def updateEventDispatcher_def
      poller_states Let_def timerq.defs timerfd_watched_def outcome_simps split: if_splits)


end
