(* ===== verification/Scheduler.thy ===== *)
theory Scheduler
  imports TimedLoop
begin

text \<open>
  What \<^verbatim>\<open>EventLoop\<close> promises to its clients, as an abstract scheduler: a bag of pending timers, a list of closures to run, a log of those that ran.  It has no linked queue, no ordered
  queue of timers beside a set of valid identifiers, no poller, no dispatchers and no wake-up
  descriptor.  The loop refines it for any closures, any calls from other threads and any events,
  with the outcomes and the fuel of both the same; the timers due at one moment run in the order of
  their times, those with equal times in any order.
\<close>

section \<open>The abstract scheduler\<close>

record sched =
  alarms :: "nat timer multiset"
  todo :: "task list"
  todoOnQuit :: "nat option list"
  made :: nat
  stopped :: bool
  stime :: int
  swall :: int
  didRun :: "nat list"

type_synonym sact = "(sched, fault) act"

text \<open>
  A new timer; \<open>inl\<close> tells whether the call comes from the loop's own thread, any other thread
  leaves the rest to a closure of the loop.
\<close>

definition new_timer :: "nat option \<Rightarrow> int \<Rightarrow> int \<Rightarrow> sched \<Rightarrow> nat timer" where
  "new_timer cb w iv a =
     \<lparr>tcallback = cb, twhen = w, tinterval = iv, trepeat = (iv > 0), tid = word_of_nat (Suc (made a))\<rparr>"

definition s_timer :: "bool \<Rightarrow> nat option \<Rightarrow> int \<Rightarrow> int \<Rightarrow> sched \<Rightarrow> sched" where
  "s_timer inl cb w iv a =
     (let t = new_timer cb w iv a in
      if inl then a\<lparr>made := Suc (made a), alarms := add_mset t (alarms a)\<rparr>
      else a\<lparr>made := Suc (made a), todo := todo a @ [AddTimerTask t]\<rparr>)"

definition s_cancel :: "64 word \<Rightarrow> sched \<Rightarrow> sched" where
  "s_cancel i a = a\<lparr>alarms := {#t \<in># alarms a. tid t \<noteq> i#}\<rparr>"

definition s_queue :: "task \<Rightarrow> sched \<Rightarrow> sched" where
  "s_queue t a = a\<lparr>todo := todo a @ [t]\<rparr>"

fun s_cmd :: "bool \<Rightarrow> cmd \<Rightarrow> sact" where
  "s_cmd inl (QueueInLoop cb) a = skip (case cb of None \<Rightarrow> a | Some f \<Rightarrow> s_queue (UserTask f) a)"
| "s_cmd inl (RunInLoop f) a = skip (s_queue (UserTask f) a)"
| "s_cmd inl (RunOnQuit cb) a = skip (a\<lparr>todoOnQuit := todoOnQuit a @ [cb]\<rparr>)"
| "s_cmd inl Quit a = skip (a\<lparr>stopped := True\<rparr>)"
| "s_cmd inl (RunAt t cb) a = skip (s_timer inl cb (stime a + (t - swall a) * 1000) 0 a)"
| "s_cmd inl (RunAfter d cb) a = skip (s_timer inl cb (stime a + d * 1000) 0 a)"
| "s_cmd inl (RunEvery d cb) a = skip (s_timer inl cb (stime a + d * 1000) d a)"
| "s_cmd inl (InvalidateTimer i) a =
     skip (if stopped a then a else if inl then s_cancel i a else s_queue (InvalidateTask i) a)"
| "s_cmd inl (Destroy x) a = skip a"
| "s_cmd inl (Raise e) a = raise e a"

fun s_exec :: "program \<Rightarrow> bool \<Rightarrow> nat \<Rightarrow> cmd list \<Rightarrow> sact" where
  "s_exec prog inl n [] a = skip a"
| "s_exec prog inl n (RunInLoop f # cs) a =
     andThen (\<lambda>a. if inl then
                   (case n of 0 \<Rightarrow> raise NotReturned a
                    | Suc m \<Rightarrow> s_exec prog inl m (prog f) (a\<lparr>didRun := didRun a @ [f]\<rparr>))
                 else s_cmd inl (RunInLoop f) a)
       (s_exec prog inl n cs) a"
| "s_exec prog inl n (c # cs) a = andThen (s_cmd inl c) (s_exec prog inl n cs) a"

lemma s_exec_simple:
  "\<nexists>f. c = RunInLoop f \<Longrightarrow>
   s_exec prog inl n (c # cs) a = andThen (s_cmd inl c) (s_exec prog inl n cs) a"
  by (cases c) (simp_all only: s_exec.simps, blast)

definition s_func :: "program \<Rightarrow> nat \<Rightarrow> nat \<Rightarrow> sact" where
  "s_func prog n f a = s_exec prog True n (prog f) (a\<lparr>didRun := didRun a @ [f]\<rparr>)"

definition s_task :: "program \<Rightarrow> nat \<Rightarrow> task \<Rightarrow> sact" where
  "s_task prog n t a =
     (case t of
        UserTask f \<Rightarrow> s_func prog n f a
      | AddTimerTask u \<Rightarrow> skip (a\<lparr>alarms := add_mset u (alarms a)\<rparr>)
      | InvalidateTask i \<Rightarrow> skip (s_cancel i a)
      | CloseTimerfdTask \<Rightarrow> skip a)"

fun s_funcs :: "program \<Rightarrow> nat \<Rightarrow> nat \<Rightarrow> sact" where
  "s_funcs prog n 0 a = raise NotReturned a"
| "s_funcs prog n (Suc k) a =
     (case todo a of
        [] \<Rightarrow> skip a
      | t # ts \<Rightarrow> andThen (s_task prog n t) (s_funcs prog n k) (a\<lparr>todo := ts\<rparr>))"

text \<open>
  The firing of the timers \<open>ds\<close>, in this order.  One that an earlier callback has cancelled is
  passed over.  Afterwards the repeating ones among those still alarms start again and the others
  are gone; when a callback throws all of \<open>ds\<close> are gone.
\<close>

fun s_fire :: "program \<Rightarrow> nat \<Rightarrow> nat timer list \<Rightarrow> sact" where
  "s_fire prog n [] a = skip a"
| "s_fire prog n (t # ts) a =
     andThen (\<lambda>a. if t \<in># alarms a then timer_run (s_func prog n) t a else skip a) (s_fire prog n ts) a"

definition s_drop :: "nat timer list \<Rightarrow> sched \<Rightarrow> sched" where
  "s_drop ds a = a\<lparr>alarms := {#t \<in># alarms a. t \<notin> set ds#}\<rparr>"

definition s_renew :: "nat timer list \<Rightarrow> int \<Rightarrow> sched \<Rightarrow> sched" where
  "s_renew ds now a =
     a\<lparr>alarms := {#t \<in># alarms a. t \<notin> set ds#} +
        image_mset (restart now now) {#t \<in># alarms a. t \<in> set ds \<and> trepeat t#}\<rparr>"

definition s_expire :: "program \<Rightarrow> nat \<Rightarrow> nat timer list \<Rightarrow> sact" where
  "s_expire prog n ds a =
     (case s_fire prog n ds a of
        (b, None) \<Rightarrow> skip (s_renew ds (stime a) b)
      | (b, Some e) \<Rightarrow> raise e (s_drop ds b))"

text \<open>The timers that are due, in the order of their times.\<close>

definition due_order :: "sched \<Rightarrow> nat timer list \<Rightarrow> bool" where
  "due_order a ds \<longleftrightarrow> mset ds = {#t \<in># alarms a. twhen t \<le> stime a#} \<and> pq_sorted ds"

inductive s_event :: "program \<Rightarrow> nat \<Rightarrow> loop_cb \<Rightarrow> sched \<Rightarrow> sched \<times> fault option \<Rightarrow> bool" for prog n where
  wake: "s_event prog n WakeupRead a (skip a)"
| user: "s_event prog n (UserCb f) a (s_func prog n f a)"
| expiry: "due_order a ds \<Longrightarrow> s_event prog n HandleRead a (s_expire prog n ds a)"

inductive s_events :: "program \<Rightarrow> nat \<Rightarrow> loop_cb list \<Rightarrow> sched \<Rightarrow> sched \<times> fault option \<Rightarrow> bool" for prog n where
  none: "s_events prog n [] a (skip a)"
| next_one: "s_event prog n cb a (b, None) \<Longrightarrow> s_events prog n cbs b r \<Longrightarrow> s_events prog n (cb # cbs) a r"
| thrown: "s_event prog n cb a (b, Some e) \<Longrightarrow> s_events prog n (cb # cbs) a (b, Some e)"

text \<open>
  One turn: other threads make calls, then at time \<open>mtime\<close> the events \<open>mevents\<close> are handled
  and everything queued is run.
\<close>

record moment =
  mcalls :: "(nat \<times> int \<times> cmd list) list"
  mtime :: int
  mevents :: "loop_cb list"

fun s_others :: "program \<Rightarrow> nat \<Rightarrow> (nat \<times> int \<times> cmd list) list \<Rightarrow> sched \<Rightarrow> sched" where
  "s_others prog n [] a = a"
| "s_others prog n ((t, c, cs) # os) a = s_others prog n os (fst (s_exec prog False n cs (a\<lparr>stime := c\<rparr>)))"

definition s_at :: "program \<Rightarrow> nat \<Rightarrow> moment \<Rightarrow> sched \<Rightarrow> sched" where
  "s_at prog n m a = (s_others prog n (mcalls m) a)\<lparr>stime := mtime m\<rparr>"

inductive s_turn :: "program \<Rightarrow> nat \<Rightarrow> nat \<Rightarrow> moment \<Rightarrow> sched \<Rightarrow> sched \<times> fault option \<Rightarrow> bool" for prog n k where
  handled: "s_events prog n (mevents m) (s_at prog n m a) (b, None) \<Longrightarrow> s_turn prog n k m a (s_funcs prog n k b)"
| thrown: "s_events prog n (mevents m) (s_at prog n m a) (b, Some e) \<Longrightarrow> s_turn prog n k m a (b, Some e)"

inductive s_turns :: "program \<Rightarrow> nat \<Rightarrow> nat \<Rightarrow> moment list \<Rightarrow> sched \<Rightarrow> sched \<times> fault option \<Rightarrow> bool" for prog n k where
  stop: "stopped a \<Longrightarrow> s_turns prog n k ms a (a, None)"
| wait: "\<not> stopped a \<Longrightarrow> s_turns prog n k [] a (a, Some NotReturned)"
| turn: "\<not> stopped a \<Longrightarrow> s_turn prog n k m a (b, None) \<Longrightarrow> s_turns prog n k ms b r \<Longrightarrow> s_turns prog n k (m # ms) a r"
| thrown: "\<not> stopped a \<Longrightarrow> s_turn prog n k m a (b, Some e) \<Longrightarrow> s_turns prog n k (m # ms) a (b, Some e)"

section \<open>The abstraction\<close>

text \<open>The timers that wait in closures for the loop to add them.\<close>

fun asked :: "task list \<Rightarrow> nat timer list" where
  "asked [] = []"
| "asked (AddTimerTask t # ts) = t # asked ts"
| "asked (_ # ts) = asked ts"

lemma asked_append [simp]: "asked (xs @ ys) = asked xs @ asked ys"
  by (induction xs rule: asked.induct) simp_all

lemma asked_simps [simp]:
  "(\<And>t. x \<noteq> AddTimerTask t) \<Longrightarrow> asked (x # xs) = asked xs"
  by (cases x) auto

definition sched_of :: "eloop \<Rightarrow> sched" where
  "sched_of s =
     \<lparr>alarms = {#t \<in># mset (timers s). tid t \<in> timerIdSet s#}, todo = map the (items (funcs s)),
      todoOnQuit = items (funcsOnQuit s), made = unat (timersCreated s), stopped = quitting s,
      stime = clock s, swall = wall s, didRun = trace s\<rparr>"

text \<open>
  The relation of a loop in thread \<open>th\<close> and a scheduler.  \<open>D\<close> is the part of the loop that
  closures do not change, the dispatchers and the poller.  While timers fire, \<open>X\<close> are those taken
  out of the queue and \<open>Z\<close> the identifiers of those among them that had been cancelled before.
  Identifiers are unique as long as fewer than \<open>2 ^ 64\<close> timers have been made.
\<close>

definition ids_ok :: "nat timer list \<Rightarrow> 64 word set \<Rightarrow> eloop \<Rightarrow> sched \<Rightarrow> bool" where
  "ids_ok X Z s a \<longleftrightarrow>
     distinct (map tid (X @ timers s @ asked (todo a))) \<and>
     (\<forall>t \<in> set (X @ timers s @ asked (todo a)). unat (tid t) \<le> made a) \<and>
     (\<forall>i \<in> timerIdSet s \<union> Z. unat i \<le> made a) \<and>
     (timerIdSet s \<union> Z) \<inter> tid ` set (asked (todo a)) = {} \<and> timerIdSet s \<inter> Z = {}"

definition sim ::
  "loop_cb dstore \<times> unit poller \<Rightarrow> nat \<Rightarrow> nat timer list \<Rightarrow> 64 word set \<Rightarrow> eloop \<Rightarrow> sched \<Rightarrow> bool"
where
  "sim D th X Z s a \<longleftrightarrow>
     wf_queues s \<and> threadId s = th \<and> looping s \<and> D = (disps s, pollr s) \<and>
     items (funcs s) = map Some (todo a) \<and> CloseTimerfdTask \<notin> set (todo a) \<and>
     items (funcsOnQuit s) = todoOnQuit a \<and> timersCreated s = word_of_nat (made a) \<and>
     stopped a = quitting s \<and> stime a = clock s \<and> swall a = wall s \<and> didRun a = trace s \<and>
     pq_sorted (timers s) \<and>
     alarms a = {#t \<in># mset X + mset (timers s). tid t \<in> timerIdSet s#} \<and> ids_ok X Z s a"

text \<open>
  \<open>p\<close> simulates \<open>q\<close>: from related states the two end in related states and with the same
  outcome, as long as the identifiers last; the number of timers made does not fall.
\<close>

definition simulates ::
  "(eloop \<Rightarrow> sched \<Rightarrow> bool) \<Rightarrow> (eloop, fault) act \<Rightarrow> sact \<Rightarrow> bool" where
  "simulates R p q \<longleftrightarrow>
     (\<forall>a. made a \<le> made (fst (q a))) \<and>
     (\<forall>s a. R s a \<longrightarrow> made (fst (q a)) < 2 ^ 64 \<longrightarrow> (\<exists>s'. p s = (s', snd (q a)) \<and> R s' (fst (q a))))"

lemma simulatesI:
  assumes "\<And>a. made a \<le> made (fst (q a))"
    and "\<And>s a a' e. R s a \<Longrightarrow> q a = (a', e) \<Longrightarrow> made a' < 2 ^ 64 \<Longrightarrow> \<exists>s'. p s = (s', e) \<and> R s' a'"
  shows "simulates R p q"
  unfolding simulates_def using assms by (metis prod.collapse)

lemma simulatesD:
  assumes "simulates R p q" and "R s a" and "q a = (a', e)" and "made a' < 2 ^ 64"
  obtains s' where "p s = (s', e)" and "R s' a'"
  using assms unfolding simulates_def by force

lemma simulates_made: "simulates R p q \<Longrightarrow> made a \<le> made (fst (q a))"
  by (simp add: simulates_def)

named_theorems sim_intros "rules that take apart related steps"

lemma simulates_skip [sim_intros]: "simulates R skip skip"
  by (simp add: simulates_def)

lemma simulates_raise [sim_intros]: "simulates R (raise e) (raise e)"
  by (simp add: simulates_def)

lemma simulates_andThen [sim_intros]:
  assumes "simulates R p q" and "simulates R p' q'"
  shows "simulates R (andThen p p') (andThen q q')"
proof (rule simulatesI)
  fix a
  show "made a \<le> made (fst (andThen q q' a))"
    using simulates_made [OF assms(1), of a] simulates_made [OF assms(2)]
    by (cases "q a"; cases "snd (q a)") (auto simp: andThen_def intro: order_trans)
next
  fix s a a' e
  assume h: "R s a" "andThen q q' a = (a', e)" "made a' < 2 ^ 64"
  obtain b x where b: "q a = (b, x)" by fastforce
  show "\<exists>s'. andThen p p' s = (s', e) \<and> R s' a'"
  proof (cases x)
    case None
    then have q': "q' b = (a', e)" using h(2) b by simp
    then have "made b < 2 ^ 64" using simulates_made [OF assms(2), of b] h(3) by simp
    then obtain t where t: "p s = (t, None)" "R t b" using simulatesD [OF assms(1) h(1) b] None by blast
    show ?thesis using simulatesD [OF assms(2) t(2) q' h(3)] t(1) by (metis andThen_ok)
  next
    case (Some y)
    then have "a' = b" "e = Some y" using h(2) b by auto
    then show ?thesis using simulatesD [OF assms(1) h(1) b] h(3) Some by (metis andThen_fail)
  qed
qed

lemma simulates_if [sim_intros]:
  assumes "\<And>s a. R s a \<Longrightarrow> c s \<longleftrightarrow> d a" and "simulates R p q" and "simulates R p' q'"
  shows "simulates R (\<lambda>s. if c s then p s else p' s) (\<lambda>a. if d a then q a else q' a)"
  using assms by (auto simp: simulates_def)

lemma simulates_const_if:
  assumes "\<And>s a. R s a \<Longrightarrow> c s \<longleftrightarrow> d" and "d \<Longrightarrow> simulates R p q" and "\<not> d \<Longrightarrow> simulates R p' q'"
  shows "simulates R (\<lambda>s. if c s then p s else p' s) (\<lambda>a. if d then q a else q' a)"
  using assms by (cases d) (auto simp: simulates_def)

lemma simulates_update:
  assumes "\<And>a. made a \<le> made (g a)" and "\<And>s a. R s a \<Longrightarrow> made (g a) < 2 ^ 64 \<Longrightarrow> R (f s) (g a)"
    and "simulates R p q"
  shows "simulates R (\<lambda>s. p (f s)) (\<lambda>a. q (g a))"
proof (rule simulatesI)
  show "made a \<le> made (fst (q (g a)))" for a
    using assms(1) [of a] simulates_made [OF assms(3), of "g a"] by linarith
next
  fix s a a' e
  assume h: "R s a" "q (g a) = (a', e)" "made a' < 2 ^ 64"
  then have "made (g a) < 2 ^ 64" using simulates_made [OF assms(3), of "g a"] by simp
  then show "\<exists>s'. p (f s) = (s', e) \<and> R s' a'"
    using simulatesD [OF assms(3) assms(2) [OF h(1)] h(2,3)] by metis
qed

section \<open>Closures\<close>

lemma mk_Timer_new:
  "timersCreated s = word_of_nat (made a) \<Longrightarrow>
   mk_Timer cb w iv (timersCreated s) = (new_timer cb w iv a, word_of_nat (Suc (made a)))"
  by (simp add: mk_Timer_def new_timer_def Let_def add.commute)

lemma new_timer_id: "Suc (made a) < 2 ^ 64 \<Longrightarrow> unat (tid (new_timer cb w iv a)) = Suc (made a)"
  by (simp add: new_timer_def unat_of_nat del: of_nat_Suc)

lemma sim_queued:
  assumes "sim D th X Z s a" and "t \<noteq> CloseTimerfdTask" and "asked [t] = []"
  shows "\<exists>s'. queueInLoop th' (Some t) s = (s', None) \<and> sim D th X Z s' (s_queue t a)"
proof -
  obtain q w where q: "queueInLoop th' (Some t) s = (s\<lparr>funcs := q, wakeCount := w\<rparr>, None)" "wf_mpsc q"
      "items q = items (funcs s) @ [Some t]"
    using queueInLoop_ok assms(1) unfolding sim_def by blast
  have "sim D th X Z (s\<lparr>funcs := q, wakeCount := w\<rparr>) (s_queue t a)"
    using assms q(2,3) by (auto simp: sim_def s_queue_def wf_queues_def ids_ok_def)
  with q(1) show ?thesis by blast
qed

lemma fresh_id:
  assumes "ids_ok X Z s a" and "Suc (made a) < 2 ^ 64"
  shows "tid (new_timer cb w iv a) \<notin> tid ` set (X @ timers s @ asked (todo a)) \<union> timerIdSet s \<union> Z"
proof -
  have "\<forall>i \<in> tid ` set (X @ timers s @ asked (todo a)) \<union> timerIdSet s \<union> Z. unat i \<le> made a"
    using assms(1) unfolding ids_ok_def by blast
  then show ?thesis using new_timer_id [OF assms(2), of cb w iv] by (metis Suc_n_not_le_n)
qed

lemma ids_ok_added:
  assumes "ids_ok X Z s a" and "timerIdSet s' = insert (tid t) (timerIdSet s)"
    and "mset (timers s') = add_mset t (mset (timers s))" and "made a \<le> made a'" and "unat (tid t) \<le> made a'"
    and "todo a' = todo a"
    and "tid t \<notin> tid ` set X" "tid t \<notin> tid ` set (timers s)" "tid t \<notin> tid ` set (asked (todo a))" "tid t \<notin> Z"
  shows "ids_ok X Z s' a'"
proof -
  have set: "set (timers s') = insert t (set (timers s))"
    using assms(3) by (metis set_mset_add_mset_insert set_mset_mset)
  have "mset (map tid (timers s')) = mset (tid t # map tid (timers s))"
    using assms(3) by simp
  then have "distinct (map tid (timers s')) = distinct (tid t # map tid (timers s))"
    by (rule mset_eq_imp_distinct_iff)
  then have "distinct (map tid (X @ timers s' @ asked (todo a')))"
    using assms(1,6-9) by (simp add: ids_ok_def set)
  moreover have "\<forall>u \<in> set (X @ timers s' @ asked (todo a')). unat (tid u) \<le> made a'"
    using assms(1,4,5,6) unfolding ids_ok_def set set_append by (metis Un_iff insert_iff le_trans)
  moreover have "\<forall>i \<in> timerIdSet s' \<union> Z. unat i \<le> made a'"
    using assms(1,2,4,5) unfolding ids_ok_def by (metis Un_iff insert_iff le_trans)
  moreover have "(timerIdSet s' \<union> Z) \<inter> tid ` set (asked (todo a')) = {}"
    using assms(1,2,6,9) by (simp add: ids_ok_def)
  moreover have "timerIdSet s' \<inter> Z = {}"
    using assms(1,2,10) by (simp add: ids_ok_def)
  ultimately show ?thesis by (simp add: ids_ok_def)
qed

lemma sim_addTimer:
  assumes "sim D th X Z s a" and "Suc (made a) < 2 ^ 64"
  shows "\<exists>s'. addTimer th' cb w iv s = (s', None) \<and> sim D th X Z s' (s_timer (th' = th) cb w iv a)"
proof -
  define t where "t = new_timer cb w iv a"
  define s1 where "s1 = s\<lparr>timersCreated := word_of_nat (Suc (made a))\<rparr>"
  have m: "mk_Timer cb w iv (timersCreated s) = (t, word_of_nat (Suc (made a)))"
    using mk_Timer_new assms(1) unfolding sim_def t_def by blast
  have fresh: "tid t \<notin> tid ` set X" "tid t \<notin> tid ` set (timers s)" "tid t \<notin> tid ` set (asked (todo a))"
      "tid t \<notin> timerIdSet s" "tid t \<notin> Z"
    using fresh_id [of X Z s a] assms unfolding sim_def t_def by auto
  have le: "unat (tid t) = Suc (made a)" unfolding t_def by (rule new_timer_id [OF assms(2)])
  have ids: "ids_ok X Z s a" using assms(1) unfolding sim_def by blast
  have add: "addTimer th' cb w iv s = runInLoop (run_timer_task th') th' (AddTimerTask t) s1"
    by (simp add: addTimer_def m s1_def)
  have t1: "threadId s1 = th" using assms(1) by (simp add: sim_def s1_def)
  show ?thesis
  proof (cases "th' = th")
    case True
    define s2 where "s2 = fst (addTimerInLoop True t (clock s1) s1)"
    have s2: "timers s2 = pq_push t (timers s)" "timerIdSet s2 = insert (tid t) (timerIdSet s)"
        "timersCreated s2 = word_of_nat (Suc (made a))" "funcs s2 = funcs s" "funcsOnQuit s2 = funcsOnQuit s"
        "threadId s2 = threadId s" "looping s2 = looping s" "quitting s2 = quitting s" "clock s2 = clock s"
        "wall s2 = wall s" "disps s2 = disps s" "pollr s2 = pollr s" "trace s2 = trace s"
      by (auto simp: s2_def s1_def addTimerInLoop_def insert_timer_def resetTimerfd_def Let_def)
    have "addTimer th' cb w iv s = (s2, None)"
      unfolding add by (simp add: True t1 runInLoop_def isInLoopThread_def run_timer_task_def s2_def
          addTimerInLoop_def Let_def split: prod.split)
    moreover have "ids_ok X Z s2 (s_timer True cb w iv a)"
      by (rule ids_ok_added [OF ids, where t = t]) (use fresh le in \<open>simp_all add: s2 s_timer_def Let_def\<close>)
    moreover have "{#u \<in># mset X + mset (timers s). tid u \<in> insert (tid t) (timerIdSet s)#} =
        {#u \<in># mset X + mset (timers s). tid u \<in> timerIdSet s#}"
      using fresh(1,2) by (intro filter_mset_cong) (auto simp: image_iff)
    ultimately show ?thesis using assms(1) True pq_sorted_push
      by (intro exI [of _ s2]) (auto simp: sim_def s2 s_timer_def t_def [symmetric] Let_def wf_queues_def)
  next
    case False
    have "wf_queues s1" using assms(1) by (simp add: sim_def s1_def wf_queues_def)
    then obtain q c where q: "queueInLoop th' (Some (AddTimerTask t)) s1 = (s1\<lparr>funcs := q, wakeCount := c\<rparr>, None)"
        "wf_mpsc q" "items q = items (funcs s1) @ [Some (AddTimerTask t)]"
      using queueInLoop_ok by blast
    define s2 where "s2 = s1\<lparr>funcs := q, wakeCount := c\<rparr>"
    have "addTimer th' cb w iv s = (s2, None)"
      using False t1 q(1) by (simp add: add runInLoop_def isInLoopThread_def s2_def)
    moreover have "ids_ok X Z s2 (s_timer False cb w iv a)"
      using ids fresh le unfolding ids_ok_def
      by (auto simp: s_timer_def s2_def s1_def t_def [symmetric] Let_def intro: le_SucI)
    ultimately show ?thesis using assms(1) False q(2,3)
      by (intro exI [of _ s2]) (auto simp: sim_def s2_def s1_def s_timer_def t_def [symmetric] Let_def wf_queues_def)
  qed
qed

definition plain_cmd :: "cmd \<Rightarrow> bool" where
  "plain_cmd c = (case c of Destroy x \<Rightarrow> False | _ \<Rightarrow> True)"

definition plain :: "program \<Rightarrow> bool" where
  "plain prog \<longleftrightarrow> (\<forall>f. list_all plain_cmd (prog f))"

lemma made_s_cmd: "made a \<le> made (fst (s_cmd inl c a))"
  by (cases c) (auto simp: s_queue_def s_timer_def s_cancel_def Let_def split: option.split)

lemma sim_cancelled:
  assumes "sim D th X Z s a"
  shows "sim D th X Z (invalidate_in_loop i s) (s_cancel i a)"
  using assms
  by (auto simp: sim_def invalidate_in_loop_def s_cancel_def wf_queues_def ids_ok_def filter_filter_mset
      intro!: filter_mset_cong)

lemma sim_invalidate:
  assumes "sim D th X Z s a"
  shows "\<exists>s'. invalidateTimer th' i s = (s', None) \<and>
    sim D th X Z s' (if stopped a then a else if th' = th then s_cancel i a else s_queue (InvalidateTask i) a)"
proof -
  have f: "looping s" "quitting s = stopped a" "threadId s = th" using assms by (simp_all add: sim_def)
  have c: "sim D th X Z (invalidate_in_loop i s) (s_cancel i a)" by (rule sim_cancelled [OF assms])
  have q: "\<exists>s'. queueInLoop th' (Some (InvalidateTask i)) s = (s', None) \<and> sim D th X Z s' (s_queue (InvalidateTask i) a)"
    by (rule sim_queued [OF assms]) simp_all
  show ?thesis using assms c q f
    by (auto simp: invalidateTimer_def isRunning_def timerq_invalidateTimer_def runInLoop_def isInLoopThread_def
        run_timer_task_def)
qed

lemma sim_cmd:
  assumes "plain_cmd c" and "th' = th \<longrightarrow> (\<nexists>f. c = RunInLoop f)"
  shows "simulates (sim D th X Z) (simple_cmd th' c) (s_cmd (th' = th) c)"
proof (rule simulatesI)
  show "made a \<le> made (fst (s_cmd (th' = th) c a))" for a by (rule made_s_cmd)
next
  fix s a a' e
  assume h: "sim D th X Z s a" "s_cmd (th' = th) c a = (a', e)" "made a' < 2 ^ 64"
  have cl: "stime a = clock s" "swall a = wall s" using h(1) by (simp_all add: sim_def)
  note add = sim_addTimer [OF h(1), of th']
  have run_at: "runAt th' t cb s = addTimer th' cb (stime a + (t - swall a) * 1000) 0 s" for t cb
    by (simp add: runAt_def cl Let_def)
  have ma: "made (s_timer b cb w iv a) = Suc (made a)" for b cb w iv by (simp add: s_timer_def Let_def)
  show "\<exists>s'. simple_cmd th' c s = (s', e) \<and> sim D th X Z s' a'"
  proof (cases c)
    case (QueueInLoop cb)
    show ?thesis
    proof (cases cb)
      case None
      then show ?thesis using h by (simp add: QueueInLoop queueInLoop_def)
    next
      case (Some f)
      then show ?thesis using h sim_queued [OF h(1), of "UserTask f" th'] by (simp add: QueueInLoop)
    qed
  next
    case (RunInLoop f)
    then show ?thesis using h sim_queued [OF h(1), of "UserTask f" th'] by simp
  next
    case (RunOnQuit cb)
    have "wf_mpsc (funcsOnQuit s)" using h(1) by (simp add: sim_def wf_queues_def)
    then obtain q where q: "enqueue cb (funcsOnQuit s) = Inr q" "wf_mpsc q" "items q = items (funcsOnQuit s) @ [cb]"
      using enqueue_total enqueue_wf by metis
    then show ?thesis using h
      by (intro exI [of _ "s\<lparr>funcsOnQuit := q\<rparr>"])
        (auto simp: RunOnQuit runOnQuit_def sim_def wf_queues_def ids_ok_def)
  next
    case Quit
    define s1 where "s1 = loop_quit th' s"
    have s1: "timers s1 = timers s" "timerIdSet s1 = timerIdSet s" "timersCreated s1 = timersCreated s"
        "funcs s1 = funcs s" "funcsOnQuit s1 = funcsOnQuit s" "threadId s1 = threadId s" "looping s1 = looping s"
        "quitting s1" "clock s1 = clock s" "wall s1 = wall s" "disps s1 = disps s" "pollr s1 = pollr s"
        "trace s1 = trace s" "wf_queues s1 = wf_queues s"
      by (simp_all add: s1_def loop_quit_def wakeup_def Let_def wf_queues_def)
    have "ids_ok X Z s1 (a\<lparr>stopped := True\<rparr>) = ids_ok X Z s a" by (simp add: ids_ok_def s1)
    then have "sim D th X Z s1 (a\<lparr>stopped := True\<rparr>)" using h(1) by (simp add: sim_def s1)
    then show ?thesis using h Quit by (simp add: s1_def)
  next
    case (RunAt t cb)
    then show ?thesis using h ma add by (auto simp: run_at)
  next
    case (RunAfter d cb)
    then show ?thesis using h ma add by (auto simp: runAfter_def run_at cl)
  next
    case (RunEvery d cb)
    then show ?thesis using h ma add by (auto simp: runEvery_def cl)
  next
    case (InvalidateTimer i)
    then have "a' = (if stopped a then a else if th' = th then s_cancel i a else s_queue (InvalidateTask i) a)"
        "e = None"
      using h(2) by simp_all
    then show ?thesis using InvalidateTimer sim_invalidate [OF h(1), of th' i] by (simp only: simple_cmd.simps)
  next
    case (Destroy x)
    then show ?thesis using assms(1) by (simp add: plain_cmd_def)
  next
    case (Raise e')
    then show ?thesis using h by simp
  qed
qed

lemma sim_trace: "sim D th X Z s a \<Longrightarrow> sim D th X Z (s\<lparr>trace := trace s @ [f]\<rparr>) (a\<lparr>didRun := didRun a @ [f]\<rparr>)"
  by (auto simp: sim_def wf_queues_def ids_ok_def)

lemma sim_exec_body:
  assumes "list_all plain_cmd cs"
    and callee: "\<And>m f. th' = th \<Longrightarrow> n = Suc m \<Longrightarrow>
      simulates (sim D th X Z) (exec prog th' m (prog f)) (s_exec prog (th' = th) m (prog f))"
  shows "simulates (sim D th X Z) (exec prog th' n cs) (s_exec prog (th' = th) n cs)"
  using assms(1)
proof (induction cs)
  case Nil
  then show ?case by (simp add: simulates_def)
next
  case (Cons c cs)
  then have IH: "simulates (sim D th X Z) (exec prog th' n cs) (s_exec prog (th' = th) n cs)" by simp
  show ?case
  proof (cases "th' = th \<and> (\<exists>f. c = RunInLoop f)")
    case True
    then obtain f where f: "c = RunInLoop f" "th' = th" by blast
    define p where "p = (\<lambda>s. if isInLoopThread th' s then
                   (case n of 0 \<Rightarrow> raise NotReturned s
                    | Suc m \<Rightarrow> exec prog th' m (prog f) (s\<lparr>trace := trace s @ [f]\<rparr>))
                 else queueInLoop th' (Some (UserTask f)) s)"
    define q where "q = (\<lambda>a. case n of 0 \<Rightarrow> raise NotReturned a
                    | Suc m \<Rightarrow> s_exec prog True m (prog f) (a\<lparr>didRun := didRun a @ [f]\<rparr>))"
    have "simulates (sim D th X Z) p q"
    proof (cases n)
      case 0
      then show ?thesis using f(2) by (auto simp: p_def q_def simulates_def isInLoopThread_def sim_def)
    next
      case (Suc m)
      have "simulates (sim D th X Z) (\<lambda>s. exec prog th' m (prog f) (s\<lparr>trace := trace s @ [f]\<rparr>))
          (\<lambda>a. s_exec prog (th' = th) m (prog f) (a\<lparr>didRun := didRun a @ [f]\<rparr>))"
        by (rule simulates_update [OF _ _ callee [OF f(2) Suc]]) (simp_all add: sim_trace)
      then show ?thesis using f(2) by (auto simp: p_def q_def Suc simulates_def isInLoopThread_def sim_def)
    qed
    then have "simulates (sim D th X Z) (andThen p (exec prog th' n cs)) (andThen q (s_exec prog (th' = th) n cs))"
      using IH by (rule simulates_andThen)
    moreover have "exec prog th' n (c # cs) = andThen p (exec prog th' n cs)"
      by (rule ext) (simp add: f(1) p_def)
    moreover have "s_exec prog (th' = th) n (c # cs) = andThen q (s_exec prog (th' = th) n cs)"
      by (rule ext) (simp add: f q_def)
    ultimately show ?thesis by simp
  next
    case False
    have "exec prog th' n (c # cs) s = andThen (simple_cmd th' c) (exec prog th' n cs) s"
      if "threadId s = th" for s
    proof (cases "\<exists>f. c = RunInLoop f")
      case True
      then show ?thesis using False that by (auto simp: andThen_def isInLoopThread_def)
    qed (rule exec_simple)
    moreover have "s_exec prog (th' = th) n (c # cs) = andThen (s_cmd (th' = th) c) (s_exec prog (th' = th) n cs)"
    proof (cases "\<exists>f. c = RunInLoop f")
      case True
      then show ?thesis using False by (intro ext) (auto simp: andThen_def)
    qed (intro ext s_exec_simple)
    moreover have "simulates (sim D th X Z) (andThen (simple_cmd th' c) (exec prog th' n cs))
        (andThen (s_cmd (th' = th) c) (s_exec prog (th' = th) n cs))"
      by (intro simulates_andThen sim_cmd IH) (use Cons.prems False in auto)
    ultimately show ?thesis by (auto simp: simulates_def sim_def)
  qed
qed

lemma sim_exec:
  assumes "plain prog" and "list_all plain_cmd cs"
  shows "simulates (sim D th X Z) (exec prog th' n cs) (s_exec prog (th' = th) n cs)"
  using assms(2)
proof (induction n arbitrary: cs)
  case 0
  then show ?case by (rule sim_exec_body) simp
next
  case (Suc n)
  show ?case by (rule sim_exec_body [OF Suc.prems]) (use Suc.IH assms(1) in \<open>simp add: plain_def\<close>)
qed

lemma sim_func:
  assumes "plain prog"
  shows "simulates (sim D th X Z) (run_func prog th n f) (s_func prog n f)"
proof -
  have "simulates (sim D th X Z) (\<lambda>s. exec prog th n (prog f) (s\<lparr>trace := trace s @ [f]\<rparr>))
      (\<lambda>a. s_exec prog (th = th) n (prog f) (a\<lparr>didRun := didRun a @ [f]\<rparr>))"
    by (rule simulates_update [OF _ _ sim_exec]) (use assms in \<open>auto simp: sim_trace plain_def\<close>)
  then show ?thesis by (simp add: run_func_def [abs_def] s_func_def [abs_def])
qed

section \<open>Queued closures\<close>

lemma ids_ok_shrink:
  assumes "asked (todo a) = us @ asked (todo a')" and "ids_ok X Z s a" and "made a' = made a"
    and "timers s' = timers s" and "timerIdSet s' = timerIdSet s"
  shows "ids_ok X Z s' a'"
proof -
  have "distinct (map tid (X @ timers s' @ asked (todo a')))"
    using assms(1,2,4) by (auto simp: ids_ok_def)
  moreover have "\<forall>u \<in> set (X @ timers s' @ asked (todo a')). unat (tid u) \<le> made a'"
    using assms(1-4) by (auto simp: ids_ok_def)
  moreover have "(timerIdSet s' \<union> Z) \<inter> tid ` set (asked (todo a')) = {}"
    using assms(1,2,5) unfolding ids_ok_def set_append by auto
  ultimately show ?thesis using assms(2,3,5) by (simp add: ids_ok_def)
qed

lemma sim_dequeued:
  assumes "sim D th X Z s a" and "todo a = t # ts"
  obtains q where "dequeue (funcs s) = Inr (Some (Some t), q)"
    and "sim D th X Z (s\<lparr>funcs := q\<rparr>) (a\<lparr>todo := ts\<rparr>)"
proof -
  have w: "wf_mpsc (funcs s)" "items (funcs s) = Some t # map Some ts"
    using assms by (simp_all add: sim_def wf_queues_def)
  obtain q where q: "dequeue (funcs s) = Inr (Some (Some t), q)" "wf_mpsc q" "items q = map Some ts"
    using mpsc.deq_Cons [OF w] by blast
  have "asked (todo a) = asked [t] @ asked ts" unfolding assms(2) using asked_append [of "[t]" ts] by simp
  moreover have "ids_ok X Z s a" using assms(1) by (simp add: sim_def)
  ultimately have "ids_ok X Z (s\<lparr>funcs := q\<rparr>) (a\<lparr>todo := ts\<rparr>)"
    by (intro ids_ok_shrink [of a "asked [t]" "a\<lparr>todo := ts\<rparr>" X Z s]) simp_all
  then show ?thesis using q assms by (intro that) (auto simp: sim_def wf_queues_def)
qed

lemma sim_task:
  assumes "plain prog" and "sim D th X Z s a" and "todo a = t # ts"
    and "sim D th X Z s0 (a\<lparr>todo := ts\<rparr>)" and "timers s0 = timers s" and "timerIdSet s0 = timerIdSet s"
    and "s_task prog n t (a\<lparr>todo := ts\<rparr>) = (a', e)" and "made a' < 2 ^ 64"
  shows "\<exists>s'. run_task prog th n t s0 = (s', e) \<and> sim D th X Z s' a'"
proof (cases t)
  case (UserTask f)
  then show ?thesis
    using simulatesD [OF sim_func [OF assms(1)] assms(4), of n f a' e] assms(7,8)
    by (auto simp: run_task_def s_task_def)
next
  case (AddTimerTask u)
  have th: "threadId s0 = th" using assms(4) by (simp add: sim_def)
  have ids: "ids_ok X Z s0 (a\<lparr>todo := ts\<rparr>)" using assms(4) by (simp add: sim_def)
  have fresh: "tid u \<notin> tid ` set X" "tid u \<notin> tid ` set (timers s)" "tid u \<notin> tid ` set (asked ts)" "tid u \<notin> timerIdSet s"
      "tid u \<notin> Z" "unat (tid u) \<le> made a"
    using assms(2) unfolding sim_def ids_ok_def by (auto simp: assms(3) AddTimerTask)
  define s2 where "s2 = fst (addTimerInLoop True u (clock s0) s0)"
  have s2: "timers s2 = pq_push u (timers s0)" "timerIdSet s2 = insert (tid u) (timerIdSet s0)"
      "timersCreated s2 = timersCreated s0" "funcs s2 = funcs s0" "funcsOnQuit s2 = funcsOnQuit s0"
      "threadId s2 = threadId s0" "looping s2 = looping s0" "quitting s2 = quitting s0" "clock s2 = clock s0"
      "wall s2 = wall s0" "disps s2 = disps s0" "pollr s2 = pollr s0" "trace s2 = trace s0"
    by (auto simp: s2_def addTimerInLoop_def insert_timer_def resetTimerfd_def Let_def)
  have a': "a' = a\<lparr>todo := ts, alarms := add_mset u (alarms a)\<rparr>" "e = None"
    using assms(7) by (simp_all add: s_task_def AddTimerTask)
  have "run_task prog th n t s0 = (s2, None)"
    by (simp add: run_task_def AddTimerTask run_timer_task_def isInLoopThread_def th s2_def addTimerInLoop_def Let_def
        split: prod.split)
  moreover have "ids_ok X Z s2 a'"
    by (rule ids_ok_added [OF ids, where t = u]) (use fresh in \<open>simp_all add: s2 a' assms(5,6)\<close>)
  moreover have "{#v \<in># mset X + mset (timers s0). tid v \<in> insert (tid u) (timerIdSet s0)#} =
      {#v \<in># mset X + mset (timers s0). tid v \<in> timerIdSet s0#}"
    using fresh(1,2) by (intro filter_mset_cong) (auto simp: image_iff assms(5))
  ultimately show ?thesis using assms(4) pq_sorted_push
    by (intro exI [of _ s2]) (auto simp: sim_def s2 a' wf_queues_def)
next
  case (InvalidateTask i)
  then show ?thesis using sim_cancelled [OF assms(4)] assms(7)
    by (auto simp: run_task_def s_task_def run_timer_task_def)
next
  case CloseTimerfdTask
  then show ?thesis using assms(2,3) by (simp add: sim_def)
qed

lemma made_s_exec: "made a \<le> made (fst (s_exec prog inl n cs a))"
proof (induction prog inl n cs a rule: s_exec.induct)
  case (2 prog inl n f cs a)
  show ?case
  proof (cases "inl \<and> n = 0")
    case False
    define p where "p = (\<lambda>a. if inl then
                   (case n of 0 \<Rightarrow> raise NotReturned a
                    | Suc m \<Rightarrow> s_exec prog inl m (prog f) (a\<lparr>didRun := didRun a @ [f]\<rparr>))
                 else s_cmd inl (RunInLoop f) a)"
    obtain b x where b: "p a = (b, x)" by fastforce
    have "made a \<le> made b"
    proof (cases inl)
      case True
      then obtain m where m: "n = Suc m" using False by (cases n) auto
      have "made (a\<lparr>didRun := didRun a @ [f]\<rparr>) \<le> made (fst (s_exec prog inl m (prog f) (a\<lparr>didRun := didRun a @ [f]\<rparr>)))"
        by (rule "2.IH"(1)) (use True m in simp_all)
      then show ?thesis using b True m by (simp add: p_def)
    next
      case False
      then show ?thesis using b by (auto simp: p_def s_queue_def)
    qed
    moreover have "x = None \<Longrightarrow> made b \<le> made (fst (s_exec prog inl n cs b))"
      by (rule "2.IH"(2)) (use b in \<open>simp add: p_def\<close>)
    moreover have "s_exec prog inl n (RunInLoop f # cs) a = andThen p (s_exec prog inl n cs) a"
      by (simp add: p_def)
    ultimately show ?thesis using b by (cases x) auto
  qed (simp add: andThen_def)
qed (auto simp: andThen_def s_queue_def s_timer_def s_cancel_def Let_def split: option.split)

lemma made_s_func: "made a \<le> made (fst (s_func prog n f a))"
  using made_s_exec [of "a\<lparr>didRun := didRun a @ [f]\<rparr>"] by (simp add: s_func_def)

lemma made_s_task: "made a \<le> made (fst (s_task prog n t a))"
  using made_s_func by (cases t) (simp_all add: s_task_def s_cancel_def)

lemma made_andThen:
  assumes "made a \<le> made (fst (p a))" and "\<And>b. made b \<le> made (fst (q b))"
  shows "made a \<le> made (fst (andThen p q a))"
proof (cases "p a")
  case (Pair b x)
  then show ?thesis using assms(1) assms(2) [of b] by (cases x) simp_all
qed

lemma made_s_funcs: "made a \<le> made (fst (s_funcs prog n k a))"
proof (induction k arbitrary: a)
  case (Suc k)
  show ?case
  proof (cases "todo a")
    case (Cons t ts)
    have "made (a\<lparr>todo := ts\<rparr>) \<le> made (fst (andThen (s_task prog n t) (s_funcs prog n k) (a\<lparr>todo := ts\<rparr>)))"
      by (rule made_andThen [OF made_s_task Suc.IH])
    then show ?thesis using Cons by simp
  qed simp
qed simp

lemma sim_funcs:
  assumes "plain prog"
  shows "sim D th X Z s a \<Longrightarrow> s_funcs prog n k a = (a', e) \<Longrightarrow> made a' < 2 ^ 64 \<Longrightarrow>
    \<exists>s'. run_funcs prog th n k s = (s', e) \<and> sim D th X Z s' a'"
proof (induction k arbitrary: s a)
  case (Suc k)
  show ?case
  proof (cases "todo a")
    case Nil
    then have "wf_queues s" "items (funcs s) = []" using Suc.prems(1) by (simp_all add: sim_def)
    then have "run_funcs prog th n (Suc k) s = (s, None)" by (rule run_funcs_none)
    then show ?thesis using Suc.prems(1,2) Nil by (auto simp del: run_funcs.simps)
  next
    case (Cons t ts)
    obtain q where q: "dequeue (funcs s) = Inr (Some (Some t), q)"
        "sim D th X Z (s\<lparr>funcs := q\<rparr>) (a\<lparr>todo := ts\<rparr>)"
      using sim_dequeued [OF Suc.prems(1) Cons] by blast
    obtain b x where b: "s_task prog n t (a\<lparr>todo := ts\<rparr>) = (b, x)" by fastforce
    have r: "run_funcs prog th n (Suc k) s = andThen (run_task prog th n t) (run_funcs prog th n k) (s\<lparr>funcs := q\<rparr>)"
      using q(1) by simp
    have sa: "s_funcs prog n (Suc k) a = andThen (s_task prog n t) (s_funcs prog n k) (a\<lparr>todo := ts\<rparr>)"
      using Cons by simp
    show ?thesis
    proof (cases x)
      case None
      then have next_k: "s_funcs prog n k b = (a', e)" using Suc.prems(2) sa b by simp
      then have "made b < 2 ^ 64" using made_s_funcs [of b prog n k] Suc.prems(3) by simp
      then obtain t1 where t1: "run_task prog th n t (s\<lparr>funcs := q\<rparr>) = (t1, None)" "sim D th X Z t1 b"
        using sim_task [OF assms Suc.prems(1) Cons q(2) _ _ b] None by auto
      then show ?thesis using Suc.IH [OF t1(2) next_k Suc.prems(3)] r by simp
    next
      case (Some y)
      then have "a' = b" "e = Some y" using Suc.prems(2) sa b by simp_all
      then show ?thesis using sim_task [OF assms Suc.prems(1) Cons q(2) _ _ b] Some Suc.prems(3) r by auto
    qed
  qed
qed auto

end
