(* ===== verification/LoopRefinement.thy ===== *)
theory LoopRefinement
  imports Scheduler
begin

text \<open>
  The refinement of the abstract scheduler by the event loop: firing, events, rounds; and what it
  says about programs whose closures do nothing on the loop.
\<close>

section \<open>Firing\<close>

lemma made_s_fire: "made a \<le> made (fst (s_fire prog n ts a))"
proof (induction ts arbitrary: a)
  case (Cons t ts)
  have "made a \<le> made (fst (timer_run (s_func prog n) t a))" for a
    using made_s_func by (cases "tcallback t") (simp_all add: timer_run_def)
  then show ?case using made_andThen [OF _ Cons.IH] by simp
qed simp

lemma simulates_timer_run:
  "plain prog \<Longrightarrow> simulates (sim D th X Z) (timer_run (run_func prog th n) t) (timer_run (s_func prog n) t)"
  using sim_func [of prog D th X Z n] by (cases "tcallback t") (simp_all add: timer_run_def [abs_def] simulates_def)

lemma sim_fire:
  assumes "plain prog" and "\<forall>t \<in> set ts. t \<in> set X \<and> (\<not> P t \<longrightarrow> tid t \<in> Z)"
    and "sim D th X Z s a" and "s_fire prog n (filter P ts) a = (a', e)" and "made a' < 2 ^ 64"
  shows "\<exists>s'. run_expired (run_func prog th n) ts s = (s', e) \<and> sim D th X Z s' a'"
  using assms(2-5)
proof (induction ts arbitrary: s a)
  case (Cons t ts)
  have mem: "t \<in># alarms a \<longleftrightarrow> tid t \<in> timerIdSet s" if "sim D th X Z s a" for s a
    using that Cons.prems(1) by (auto simp: sim_def)
  show ?case
  proof (cases "P t")
    case False
    then have "tid t \<notin> timerIdSet s" using Cons.prems(1,2) by (auto simp: sim_def ids_ok_def)
    then show ?thesis using Cons False by (simp add: andThen_def)
  next
    case True
    define p where "p = (\<lambda>s. if tid t \<in> timerIdSet s then timer_run (run_func prog th n) t s else skip s)"
    define q where "q = (\<lambda>a. if t \<in># alarms a then timer_run (s_func prog n) t a else skip a)"
    have sim1: "simulates (sim D th X Z) p q"
      unfolding p_def q_def
      by (intro simulates_if simulates_timer_run simulates_skip assms(1)) (simp add: mem)
    obtain b x where b: "q a = (b, x)" by fastforce
    have r: "run_expired (run_func prog th n) (t # ts) s = andThen p (run_expired (run_func prog th n) ts) s"
      by (simp add: p_def)
    have sa: "andThen q (s_fire prog n (filter P ts)) a = (a', e)" using Cons.prems(3) True by (simp add: q_def)
    show ?thesis
    proof (cases x)
      case None
      then have rest: "s_fire prog n (filter P ts) b = (a', e)" using sa b by simp
      then have "made b < 2 ^ 64" using made_s_fire [of b prog n "filter P ts"] Cons.prems(4) by simp
      then obtain t1 where t1: "p s = (t1, None)" "sim D th X Z t1 b"
        using simulatesD [OF sim1 Cons.prems(2) b] None by auto
      then show ?thesis using Cons.IH [OF _ t1(2) rest Cons.prems(4)] Cons.prems(1) r by simp
    next
      case (Some y)
      then have "a' = b" "e = Some y" using sa b by simp_all
      then show ?thesis using simulatesD [OF sim1 Cons.prems(2) b] Some Cons.prems(4) r by (metis andThen_fail)
    qed
  qed
qed auto

text \<open>The due timers leave the queue; those already cancelled are recorded.\<close>

definition cancelled :: "nat timer list \<Rightarrow> eloop \<Rightarrow> 64 word set" where
  "cancelled X s = tid ` {t \<in> set X. tid t \<notin> timerIdSet s}"

lemma sim_enter:
  assumes "sim D th [] {} s a" and "ex = filter (\<lambda>t. twhen t \<le> now) (timers s)"
    and "s0 = s\<lparr>armed := x, timers := filter (\<lambda>t. twhen t > now) (timers s), callingExpiredTimers := True\<rparr>"
  shows "sim D th ex (cancelled ex s) s0 a"
proof -
  have part: "mset (timers s) = mset ex + mset (timers s0)"
    using multiset_partition [of "mset (timers s)" "\<lambda>t. twhen t \<le> now"] assms(2,3) by (simp add: not_le)
  have sets: "set (timers s) = set ex \<union> set (timers s0)" using part by (metis set_mset_mset set_mset_union)
  have "mset (map tid (ex @ timers s0 @ asked (todo a))) = mset (map tid (timers s @ asked (todo a)))"
    using part by simp
  then have "distinct (map tid (ex @ timers s0 @ asked (todo a))) = distinct (map tid (timers s @ asked (todo a)))"
    by (rule mset_eq_imp_distinct_iff)
  moreover have ids: "ids_ok [] {} s a" using assms(1) by (simp add: sim_def)
  ultimately have dist: "distinct (map tid (ex @ timers s0 @ asked (todo a)))" by (simp add: ids_ok_def)
  have le: "\<forall>t \<in> set (ex @ timers s0 @ asked (todo a)). unat (tid t) \<le> made a"
    using ids sets by (simp add: ids_ok_def)
  have c: "cancelled ex s \<subseteq> tid ` set (timers s)" "timerIdSet s \<inter> cancelled ex s = {}"
    using sets by (auto simp: cancelled_def)
  have "tid ` set (timers s) \<inter> tid ` set (asked (todo a)) = {}" "timerIdSet s \<inter> tid ` set (asked (todo a)) = {}"
    using ids by (simp_all add: ids_ok_def)
  then have "(timerIdSet s \<union> cancelled ex s) \<inter> tid ` set (asked (todo a)) = {}" using c(1) by blast
  moreover have "\<forall>i \<in> timerIdSet s \<union> cancelled ex s. unat i \<le> made a"
    using ids c(1) unfolding ids_ok_def by (auto dest!: subsetD)
  ultimately have "ids_ok ex (cancelled ex s) s0 a"
    using dist le c(2) by (simp add: ids_ok_def assms(3))
  moreover have "alarms a = {#t \<in># mset ex + mset (timers s0). tid t \<in> timerIdSet s0#}"
    using assms(1) by (simp add: sim_def part [symmetric]) (simp add: assms(3))
  moreover have "pq_sorted (timers s0)" using assms(1) by (simp add: sim_def assms(3) pq_sorted_filter)
  moreover have "wf_queues s0 = wf_queues s" by (simp add: assms(3) wf_queues_def)
  ultimately show ?thesis using assms(1) by (simp add: sim_def) (simp add: assms(3))
qed

lemma sim_leave_thrown:
  assumes "sim D th X Z s a" and "\<forall>t \<in> set X. \<not> P t \<longrightarrow> tid t \<in> Z"
  shows "sim D th [] {} s (s_drop (filter P X) a)"
proof -
  have d: "\<forall>t \<in> set (timers s). t \<notin> set X" "timerIdSet s \<inter> Z = {}"
    using assms(1) by (auto simp: sim_def ids_ok_def)
  let ?v = "\<lambda>t. tid t \<in> timerIdSet s" and ?out = "\<lambda>t. t \<in> set X \<longrightarrow> \<not> P t"
  have "{#t \<in># {#t \<in># mset X. ?v t#}. ?out t#} = {#}" using assms(2) d(2) by auto
  moreover have "{#t \<in># {#t \<in># mset (timers s). ?v t#}. ?out t#} = {#t \<in># mset (timers s). ?v t#}"
    using d(1) unfolding filter_filter_mset by (intro filter_mset_cong) auto
  moreover have "alarms (s_drop (filter P X) a) = {#t \<in># alarms a. ?out t#}" by (simp add: s_drop_def)
  moreover have "alarms a = {#t \<in># mset X. ?v t#} + {#t \<in># mset (timers s). ?v t#}" using assms(1) by (simp add: sim_def)
  ultimately have "alarms (s_drop (filter P X) a) = {#t \<in># mset (timers s). ?v t#}" by simp
  moreover have "ids_ok X Z s a" using assms(1) by (simp add: sim_def)
  then have "ids_ok [] {} s (s_drop (filter P X) a)" by (simp add: ids_ok_def s_drop_def Int_Un_distrib2)
  ultimately show ?thesis using assms(1) by (simp add: sim_def) (simp add: s_drop_def)
qed

lemma sim_leave:
  assumes "sim D th X Z s a" and "\<forall>t \<in> set X. \<not> P t \<longrightarrow> tid t \<in> Z" and "u = s\<lparr>callingExpiredTimers := False\<rparr>"
  shows "sim D th [] {} (reset_expired X now now u) (s_renew (filter P X) now a)"
proof -
  let ?v = "\<lambda>t. tid t \<in> timerIdSet s" and ?in = "\<lambda>t. t \<in> set X \<and> P t"
  define s2 where "s2 = reset_expired X now now u"
  have ids: "ids_ok X Z s a" using assms(1) by (simp add: sim_def)
  have dX: "distinct (map tid X)" using ids by (simp add: ids_ok_def)
  have o: "trace s2 = trace s" "disps s2 = disps s" "funcs s2 = funcs s" "funcsOnQuit s2 = funcsOnQuit s"
      "threadId s2 = threadId s" "looping s2 = looping s" "timersCreated s2 = timersCreated s"
      "quitting s2 = quitting s" "clock s2 = clock s" "wall s2 = wall s" "pollr s2 = pollr s"
  proof -
    have "trace (reset_loop ts now now v) = trace v \<and> disps (reset_loop ts now now v) = disps v \<and>
        funcs (reset_loop ts now now v) = funcs v \<and> funcsOnQuit (reset_loop ts now now v) = funcsOnQuit v \<and>
        threadId (reset_loop ts now now v) = threadId v \<and> looping (reset_loop ts now now v) = looping v \<and>
        timersCreated (reset_loop ts now now v) = timersCreated v \<and> quitting (reset_loop ts now now v) = quitting v \<and>
        clock (reset_loop ts now now v) = clock v \<and> wall (reset_loop ts now now v) = wall v \<and>
        pollr (reset_loop ts now now v) = pollr v" for ts and v :: eloop
      by (induction ts arbitrary: v) (auto simp: insert_timer_def Let_def)
    from this [of X u]
    show "trace s2 = trace s" "disps s2 = disps s" "funcs s2 = funcs s" "funcsOnQuit s2 = funcsOnQuit s"
      "threadId s2 = threadId s" "looping s2 = looping s" "timersCreated s2 = timersCreated s"
      "quitting s2 = quitting s" "clock s2 = clock s" "wall s2 = wall s" "pollr s2 = pollr s"
      by (simp_all add: s2_def reset_expired_def resetTimerfd_def Let_def assms(3))
  qed
  define R where "R = map (restart now now) (filter (\<lambda>t. trepeat t \<and> ?v t) X)"
  have tm: "mset (timers s2) = mset (timers s) + mset R"
      "timerIdSet s2 = timerIdSet s - tid ` {t \<in> set X. \<not> trepeat t}" "pq_sorted (timers s2)"
    using reset_loop_eq [OF dX, of now now u] reset_loop_sorted [of u X now now] assms(1)
    by (simp_all add: s2_def reset_expired_def resetTimerfd_def Let_def assms(3) R_def sim_def)
  have tids: "tid ` set (timers s2) = tid ` set (timers s) \<union> tid ` {t \<in> set X. trepeat t \<and> ?v t}"
    using arg_cong [OF tm(1), of set_mset] by (auto simp: R_def image_Un image_image)
  have idT: "tid t \<notin> tid ` set X" if "t \<in> set (timers s)" for t
    using ids that by (auto simp: ids_ok_def)
  have same: "t = t'" if "t \<in> set X" "t' \<in> set X" "tid t = tid t'" for t t'
    using dX that by (simp add: distinct_map inj_on_def)
  have "mset (map tid (timers s2 @ asked (todo a))) = mset (map tid R @ map tid (timers s @ asked (todo a)))"
    using tm(1) by simp
  then have "distinct (map tid (timers s2 @ asked (todo a))) =
      distinct (map tid R @ map tid (timers s @ asked (todo a)))"
    by (rule mset_eq_imp_distinct_iff)
  moreover have "map tid R = map tid (filter (\<lambda>t. trepeat t \<and> ?v t) X)" by (simp add: R_def comp_def)
  moreover have "distinct (map tid (filter (\<lambda>t. trepeat t \<and> ?v t) X) @ map tid (timers s @ asked (todo a)))"
    using ids by (auto simp: ids_ok_def distinct_map_filter)
  ultimately have dist: "distinct (map tid (timers s2 @ asked (todo a)))" by simp
  have "tid ` set (timers s2 @ asked (todo a)) \<subseteq> tid ` set (X @ timers s @ asked (todo a))"
    unfolding set_append image_Un tids by blast
  moreover have "\<forall>i \<in> tid ` set (X @ timers s @ asked (todo a)). unat i \<le> made a"
    using ids unfolding ids_ok_def by blast
  ultimately have "\<forall>i \<in> tid ` set (timers s2 @ asked (todo a)). unat i \<le> made a" by blast
  then have le: "\<forall>t \<in> set (timers s2 @ asked (todo a)). unat (tid t) \<le> made a" by blast
  have "timerIdSet s2 \<subseteq> timerIdSet s" using tm(2) by blast
  then have ids2: "ids_ok [] {} s2 (s_renew (filter P X) now a)"
    using ids dist le by (auto simp: ids_ok_def s_renew_def)
  have "{#t \<in># {#t \<in># mset X. ?v t#}. \<not> ?in t#} = {#}"
    using assms(2) ids by (auto simp: ids_ok_def)
  moreover have "{#t \<in># {#t \<in># mset (timers s). ?v t#}. \<not> ?in t#} = {#t \<in># mset (timers s). tid t \<in> timerIdSet s2#}"
    using idT unfolding filter_filter_mset tm(2) by (intro filter_mset_cong) (auto simp: image_iff)
  moreover have "{#t \<in># {#t \<in># mset X. ?v t#}. ?in t \<and> trepeat t#} = {#t \<in># mset X. trepeat t \<and> ?v t#}"
    using assms(2) ids unfolding filter_filter_mset by (intro filter_mset_cong) (auto simp: ids_ok_def)
  moreover have "{#t \<in># {#t \<in># mset (timers s). ?v t#}. ?in t \<and> trepeat t#} = {#}"
    using idT by (auto simp: image_iff)
  moreover have "{#t \<in># mset R. tid t \<in> timerIdSet s2#} = mset R"
    using same by (auto simp: filter_mset_eq_conv R_def tm(2))
  moreover have "alarms a = {#t \<in># mset X. ?v t#} + {#t \<in># mset (timers s). ?v t#}" using assms(1) by (simp add: sim_def)
  ultimately have "alarms (s_renew (filter P X) now a) = {#t \<in># mset (timers s2). tid t \<in> timerIdSet s2#}"
    by (simp add: s_renew_def tm(1) R_def)
  moreover have "wf_queues s2" using assms(1) o by (simp add: sim_def wf_queues_def)
  ultimately have "sim D th [] {} s2 (s_renew (filter P X) now a)"
    using assms(1) ids2 tm(3) o by (simp add: sim_def) (simp add: s_renew_def)
  then show ?thesis by (simp add: s2_def)
qed

section \<open>Events\<close>

lemma made_s_expire: "made a \<le> made (fst (s_expire prog n ds a))"
proof -
  obtain b x where b: "s_fire prog n ds a = (b, x)" by fastforce
  then have "made a \<le> made b" using made_s_fire [of a prog n ds] by simp
  then show ?thesis using b by (cases x) (simp_all add: s_expire_def s_renew_def s_drop_def)
qed

lemma made_s_event: "s_event prog n cb a r \<Longrightarrow> made a \<le> made (fst r)"
  by (erule s_event.cases) (simp_all add: made_s_func made_s_expire)

lemma due_order_exists: "\<exists>ds. due_order a ds"
proof -
  obtain ds where "mset ds = {#t \<in># alarms a. twhen t \<le> stime a#}" using ex_mset by blast
  moreover have "sorted (map twhen (sort_key twhen ds))" by simp
  then have "pq_sorted (sort_key twhen ds)" by (simp only: pq_sorted_def sorted_map)
  ultimately show ?thesis by (intro exI [of _ "sort_key twhen ds"]) (simp add: due_order_def)
qed

lemma s_event_total: "\<exists>r. s_event prog n cb a r"
  by (cases cb) (metis due_order_exists s_event.intros)+

lemma s_events_total: "\<exists>r. s_events prog n cbs a r \<and> made a \<le> made (fst r)"
proof (induction cbs arbitrary: a)
  case (Cons cb cbs)
  obtain b x where b: "s_event prog n cb a (b, x)" using s_event_total by (metis surj_pair)
  then have le: "made a \<le> made b" using made_s_event by fastforce
  obtain r where r: "s_events prog n cbs b r" "made b \<le> made (fst r)" using Cons.IH by blast
  show ?case
  proof (cases x)
    case None
    then show ?thesis using s_events.next_one [OF b [unfolded None] r(1)] r(2) le by (blast intro: order_trans)
  next
    case (Some e)
    then show ?thesis using s_events.thrown [OF b [unfolded Some]] le by (intro exI [of _ "(b, Some e)"]) simp
  qed
qed (use s_events.none in fastforce)

lemma sim_handleRead:
  assumes "plain prog" and "sim D th [] {} s a"
  shows "\<exists>ds. due_order a ds \<and> (made (fst (s_expire prog n ds a)) < 2 ^ 64 \<longrightarrow>
    (\<exists>s'. handleRead True (run_func prog th n) (clock s) (clock s) s = (s', snd (s_expire prog n ds a)) \<and>
      sim D th [] {} s' (fst (s_expire prog n ds a))))"
proof -
  let ?now = "clock s" and ?P = "\<lambda>t. tid t \<in> timerIdSet s"
  define ex where "ex = filter (\<lambda>t. twhen t \<le> ?now) (timers s)"
  define x where "x = armed (readTimerfd ?now s)"
  define s0 where "s0 = s\<lparr>armed := x, timers := filter (\<lambda>t. twhen t > ?now) (timers s), callingExpiredTimers := True\<rparr>"
  define ds where "ds = filter ?P ex"
  have so: "pq_sorted (timers s)" and time: "stime a = ?now" and al: "alarms a = {#t \<in># mset (timers s). ?P t#}"
    using assms(2) by (simp_all add: sim_def)
  have rd: "readTimerfd ?now s = s\<lparr>armed := x\<rparr>" by (simp add: x_def readTimerfd_def split: option.split)
  have h: "handleRead True (run_func prog th n) ?now ?now s =
      andThen (run_expired (run_func prog th n) ex)
        (\<lambda>s. skip (reset_expired ex ?now ?now (s\<lparr>callingExpiredTimers := False\<rparr>))) s0"
    by (simp add: handleRead_def rd getExpired_sorted [OF so] ex_def s0_def Let_def)
  have "due_order a ds"
    by (simp add: due_order_def ds_def ex_def al time filter_filter_mset conj_commute pq_sorted_filter so)
  moreover have "\<exists>s'. handleRead True (run_func prog th n) ?now ?now s = (s', snd (s_expire prog n ds a)) \<and>
      sim D th [] {} s' (fst (s_expire prog n ds a))" if m: "made (fst (s_expire prog n ds a)) < 2 ^ 64"
  proof -
    obtain b y where b: "s_fire prog n ds a = (b, y)" by fastforce
    have in0: "sim D th ex (cancelled ex s) s0 a" by (rule sim_enter [OF assms(2) ex_def s0_def])
    have dead: "\<forall>t \<in> set ex. \<not> ?P t \<longrightarrow> tid t \<in> cancelled ex s" by (auto simp: cancelled_def)
    have mb: "made b < 2 ^ 64" using m b by (cases y) (simp_all add: s_expire_def s_renew_def s_drop_def)
    obtain s1 where s1: "run_expired (run_func prog th n) ex s0 = (s1, y)" "sim D th ex (cancelled ex s) s1 b"
      using sim_fire [OF assms(1) _ in0 b [unfolded ds_def] mb] dead by blast
    show ?thesis
    proof (cases y)
      case None
      then show ?thesis using s1 b sim_leave [OF s1(2) dead refl] time
        by (auto simp: h s_expire_def ds_def)
    next
      case (Some e)
      then show ?thesis using s1 b sim_leave_thrown [OF s1(2) dead]
        by (auto simp: h s_expire_def ds_def)
    qed
  qed
  ultimately show ?thesis by blast
qed

lemma sim_run_cb:
  assumes "plain prog" and "sim D th [] {} s a"
  shows "\<exists>r. s_event prog n cb a r \<and> (made (fst r) < 2 ^ 64 \<longrightarrow>
    (\<exists>s'. run_cb prog th n cb s = (s', snd r) \<and> sim D th [] {} s' (fst r)))"
proof (cases cb)
  case HandleRead
  have "isInLoopThread th s" using assms(2) by (simp add: sim_def isInLoopThread_def)
  then have c: "run_cb prog th n cb s = handleRead True (run_func prog th n) (clock s) (clock s) s"
    by (simp add: HandleRead run_cb_def)
  obtain ds where ds: "due_order a ds" "made (fst (s_expire prog n ds a)) < 2 ^ 64 \<longrightarrow>
      (\<exists>s'. handleRead True (run_func prog th n) (clock s) (clock s) s = (s', snd (s_expire prog n ds a)) \<and>
        sim D th [] {} s' (fst (s_expire prog n ds a)))"
    using sim_handleRead [OF assms] by blast
  show ?thesis using s_event.expiry [OF ds(1), of prog n] ds(2)
    by (intro exI [of _ "s_expire prog n ds a"] conjI) (simp_all only: c [unfolded HandleRead] HandleRead)
next
  case WakeupRead
  have "ids_ok [] {} (wakeupRead s) a = ids_ok [] {} s a" by (simp add: wakeupRead_def ids_ok_def)
  moreover have "wf_queues (wakeupRead s) = wf_queues s" by (simp add: wakeupRead_def wf_queues_def)
  ultimately have "sim D th [] {} (wakeupRead s) a"
    using assms(2) by (simp add: sim_def) (simp add: wakeupRead_def)
  then show ?thesis using s_event.wake [of prog n a]
    by (intro exI [of _ "skip a"]) (simp add: WakeupRead run_cb_def)
next
  case (UserCb f)
  obtain b x where b: "s_func prog n f a = (b, x)" by fastforce
  have "made b < 2 ^ 64 \<Longrightarrow> \<exists>s'. run_func prog th n f s = (s', x) \<and> sim D th [] {} s' b"
    using simulatesD [OF sim_func [OF assms(1)] assms(2) b] by blast
  then show ?thesis using s_event.user [of prog n f a] b
    by (intro exI [of _ "(b, x)"]) (simp add: UserCb run_cb_def)
qed

text \<open>A dispatcher whose read callback is about to be called.\<close>

definition firing :: "loop_cb dstore \<Rightarrow> loop_cb \<Rightarrow> addr \<Rightarrow> bool" where
  "firing h cb x \<longleftrightarrow>
     (\<exists>d. h x = Some d \<and> realEvents d = POLLIN \<and> events d \<noteq> kNoneEvent \<and> \<not> tied d \<and> eventCallback d = None \<and>
          readCallback d = Some cb)"

lemma handle_firing:
  assumes "firing (disps s) cb x" and "run_cb prog th n cb s = (s', e)" and "disps s' = disps s"
  shows "handle_active prog th n (x # xs) s = (case e of None \<Rightarrow> handle_active prog th n xs s' | Some y \<Rightarrow> (s', Some y))"
proof -
  obtain d where d: "disps s x = Some d" "realEvents d = POLLIN" "events d \<noteq> kNoneEvent" "\<not> tied d"
      "eventCallback d = None" "readCallback d = Some cb"
    using assms(1) by (auto simp: firing_def)
  have bits: "POLLIN AND POLLHUP = 0" "POLLIN AND (POLLNVAL OR POLLERR) = 0" "POLLIN AND POLLOUT = 0"
      "POLLIN AND (POLLIN OR POLLPRI OR POLLRDHUP) \<noteq> 0" "POLLIN \<noteq> 0"
    by (simp_all add: poll_bits)
  show ?thesis
  proof (cases e)
    case None
    then show ?thesis using assms(2,3) d bits
      by (simp add: handleEvent_def handleEventSafely_def disp_at_def run_opt_def andThen_def Let_def)
  next
    case (Some y)
    then show ?thesis using assms(2,3) d bits
      by (simp add: handleEvent_def handleEventSafely_def disp_at_def run_opt_def andThen_def Let_def)
  qed
qed

lemma sim_handle_active:
  assumes "plain prog" and "\<forall>x \<in> set xs. firing (fst D) (cbs x) x"
  shows "sim D th [] {} s a \<Longrightarrow> \<exists>r. s_events prog n (map cbs xs) a r \<and> made a \<le> made (fst r) \<and>
    (made (fst r) < 2 ^ 64 \<longrightarrow> (\<exists>s'. handle_active prog th n xs s = (s', snd r) \<and> sim D th [] {} s' (fst r)))"
  using assms(2)
proof (induction xs arbitrary: s a)
  case Nil
  then show ?case using s_events.none [of prog n a] by (intro exI [of _ "skip a"]) simp
next
  case (Cons x xs)
  obtain b y where b: "s_event prog n (cbs x) a (b, y)"
      "made b < 2 ^ 64 \<Longrightarrow> \<exists>s'. run_cb prog th n (cbs x) s = (s', y) \<and> sim D th [] {} s' b"
    using sim_run_cb [OF assms(1) Cons.prems(1), of n "cbs x"] by auto
  have le: "made a \<le> made b" using made_s_event [OF b(1)] by simp
  have f: "firing (disps s) (cbs x) x" using Cons.prems by (simp add: sim_def)
  have D: "disps s' = disps s" if "sim D th [] {} s' b" for s' using that Cons.prems(1) by (auto simp: sim_def)
  show ?case
  proof (cases y)
    case (Some e)
    then show ?thesis using s_events.thrown [OF b(1) [unfolded Some]] le b(2) handle_firing [OF f] D
      by (intro exI [of _ "(b, Some e)"]) fastforce
  next
    case None
    show ?thesis
    proof (cases "made b < 2 ^ 64")
      case True
      then obtain s1 where s1: "run_cb prog th n (cbs x) s = (s1, None)" "sim D th [] {} s1 b"
        using b(2) None by auto
      obtain r where r: "s_events prog n (map cbs xs) b r" "made b \<le> made (fst r)"
          "made (fst r) < 2 ^ 64 \<longrightarrow> (\<exists>s'. handle_active prog th n xs s1 = (s', snd r) \<and> sim D th [] {} s' (fst r))"
        using Cons.IH [OF s1(2)] Cons.prems(2) by auto
      show ?thesis using s_events.next_one [OF b(1) [unfolded None] r(1)] r(2,3) le handle_firing [OF f s1(1) D [OF s1(2)]]
        by (intro exI [of _ r]) auto
    next
      case False
      obtain r where "s_events prog n (map cbs xs) b r" "made b \<le> made (fst r)" using s_events_total by blast
      then show ?thesis using s_events.next_one [OF b(1) [unfolded None]] le False
        by (intro exI [of _ r]) auto
    qed
  qed
qed

section \<open>Rounds\<close>

lemma made_s_others: "made a \<le> made (s_others prog n os a)"
proof (induction prog n os a rule: s_others.induct)
  case (2 prog n t c cs os a)
  have "made a \<le> made (fst (s_exec prog False n cs (a\<lparr>stime := c\<rparr>)))"
    using made_s_exec [of "a\<lparr>stime := c\<rparr>" prog False n cs] by simp
  then show ?case using "2.IH" by simp
qed simp

lemma sim_clock: "sim D th X Z s a \<Longrightarrow> sim D th X Z (s\<lparr>clock := c\<rparr>) (a\<lparr>stime := c\<rparr>)"
  by (simp add: sim_def wf_queues_def ids_ok_def)

lemma sim_others:
  assumes "plain prog"
  shows "sim D th X Z s a \<Longrightarrow> \<forall>(t, c, cs) \<in> set os. t \<noteq> th \<and> list_all plain_cmd cs \<Longrightarrow>
    made (s_others prog n os a) < 2 ^ 64 \<Longrightarrow> sim D th X Z (run_others prog n os s) (s_others prog n os a)"
proof (induction os arbitrary: s a)
  case (Cons o1 os)
  obtain t c cs where o1: "o1 = (t, c, cs)" by (cases o1)
  obtain b x where b: "s_exec prog False n cs (a\<lparr>stime := c\<rparr>) = (b, x)" by fastforce
  have t: "(t = th) = False" "list_all plain_cmd cs" using Cons.prems(2) o1 by auto
  have m: "made b < 2 ^ 64" using made_s_others [of b prog n os] Cons.prems(3) o1 b by simp
  obtain s1 where s1: "exec prog t n cs (s\<lparr>clock := c\<rparr>) = (s1, x)" "sim D th X Z s1 b"
    using simulatesD [OF sim_exec [OF assms t(2), of D th X Z t n, unfolded t(1)] sim_clock [OF Cons.prems(1)] b m] by blast
  then show ?case using Cons.IH [OF s1(2)] Cons.prems(2,3) o1 b by simp
qed simp

lemma sim_field_updates:
  assumes "sim D th X Z s a"
  shows "sim (h, p) th X Z (s\<lparr>pollr := p, disps := h, eventHandling := b\<rparr>) a"
    and "sim D th X Z (s\<lparr>eventHandling := b\<rparr>) a" and "sim D th X Z (s\<lparr>callingFuncs := b\<rparr>) a"
  using assms by (simp_all add: sim_def wf_queues_def ids_ok_def)

text \<open>
  The addresses that may be reported, each a dispatcher that is watched and has nothing but a read
  callback, and the room in the event array; a round whose calls come from other threads and delete
  no dispatcher, and whose events are reports of these addresses.
\<close>

definition serves :: "(addr \<Rightarrow> loop_cb option) \<Rightarrow> nat \<Rightarrow> loop_cb dstore \<times> unit poller \<Rightarrow> bool" where
  "serves cbs N D \<longleftrightarrow>
     (\<forall>x cb. cbs x = Some cb \<longrightarrow>
        (\<exists>d. fst D x = Some d \<and> events d \<noteq> kNoneEvent \<and> \<not> tied d \<and> eventCallback d = None \<and> readCallback d = Some cb)) \<and>
     N \<le> nevents (snd D)"

definition reported :: "round \<Rightarrow> addr list" where
  "reported r = (case answer r of WaitEvents evs \<Rightarrow> map snd evs | WaitError _ \<Rightarrow> [])"

definition calm_round :: "nat \<Rightarrow> (addr \<Rightarrow> loop_cb option) \<Rightarrow> nat \<Rightarrow> round \<Rightarrow> bool" where
  "calm_round th cbs N r \<longleftrightarrow>
     (\<forall>(t, c, cs) \<in> set (others r). t \<noteq> th \<and> list_all plain_cmd cs) \<and>
     (case answer r of WaitEvents evs \<Rightarrow> list_all (\<lambda>(m, x). m = POLLIN) evs | WaitError _ \<Rightarrow> True) \<and>
     length (reported r) \<le> N \<and> list_all (\<lambda>x. cbs x \<noteq> None) (reported r)"

definition moment_of :: "(addr \<Rightarrow> loop_cb option) \<Rightarrow> round \<Rightarrow> moment" where
  "moment_of cbs r = \<lparr>mcalls = others r, mtime = returns_at r, mevents = map (the \<circ> cbs) (reported r)\<rparr>"

lemma last_event_same:
  "list_all (\<lambda>(m, x). m = POLLIN) evs \<Longrightarrow> last_event evs x = (if x \<in> snd ` set evs then Some POLLIN else None)"
proof (induction evs)
  case Nil
  then show ?case by (simp add: last_event_def)
qed (force simp: last_event_Cons)

text \<open>The delivery of a calm round's events.\<close>

lemma poll_calm:
  assumes "serves cbs N (h, p)" and "calm_round th cbs N r"
  shows "\<exists>p' h'. poll (answer r) p h [] = Inr (p', h', reported r) \<and> serves cbs N (h', p') \<and>
    (\<forall>x \<in> set (reported r). firing h' (the (cbs x)) x)"
proof (cases "answer r")
  case (WaitError e)
  then show ?thesis using assms(1) by (simp add: poll_def reported_def)
next
  case (WaitEvents evs)
  have a: "list_all (\<lambda>(m, x). m = POLLIN) evs" "length evs \<le> N" "list_all (\<lambda>x. cbs x \<noteq> None) (map snd evs)"
      "reported r = map snd evs"
    using assms(2) by (simp_all add: calm_round_def WaitEvents reported_def)
  define h' where "h' = delivered evs h"
  have disp: "\<exists>d. h x = Some d \<and> events d \<noteq> kNoneEvent \<and> \<not> tied d \<and> eventCallback d = None \<and> readCallback d = Some cb"
    if "cbs x = Some cb" for x cb
    using assms(1) that by (simp add: serves_def)
  have h': "h' x = (if x \<in> snd ` set evs then map_option (setRealEvents POLLIN) (h x) else h x)" for x
    by (simp add: h'_def delivered_def last_event_same [OF a(1)] split: option.split)
  have s': "serves cbs N (h', p\<lparr>nevents := m\<rparr>)" if "N \<le> m" for m
    using disp that unfolding serves_def fst_conv snd_conv h' by (fastforce simp: setRealEvents_def)
  have f: "\<forall>x \<in> set (reported r). firing h' (the (cbs x)) x"
  proof
    fix x
    assume x: "x \<in> set (reported r)"
    then obtain cb where "cbs x = Some cb" using a(3,4) by (auto simp: list_all_iff)
    then show "firing h' (the (cbs x)) x"
      using disp x a(4) unfolding firing_def h' by (fastforce simp: setRealEvents_def)
  qed
  have all: "list_all (\<lambda>(m, x). h x \<noteq> None) evs" using a(3) disp by (fastforce simp: list_all_iff)
  have N: "N \<le> nevents p" using assms(1) by (simp add: serves_def)
  show ?thesis
  proof (cases "evs = []")
    case True
    then show ?thesis using assms(1) a(4) by (simp add: WaitEvents poll_def)
  next
    case False
    define m where "m = (if length evs = nevents p then nevents p * 2 else nevents p)"
    have "(if length evs = nevents p then p\<lparr>nevents := nevents p * 2\<rparr> else p) = p\<lparr>nevents := m\<rparr>" by (simp add: m_def)
    then have "poll (answer r) p h [] = Inr (p\<lparr>nevents := m\<rparr>, h', reported r)"
      using False all a(2,4) N by (simp add: WaitEvents poll_def fillActiveDispatchers_def fill_loop_eq h'_def)
    moreover have "N \<le> m" using N by (simp add: m_def)
    ultimately show ?thesis using s' f by blast
  qed
qed

lemma s_turn_total: "\<exists>r. s_turn prog n k m a r \<and> made a \<le> made (fst r)"
proof -
  have le: "made a \<le> made (s_at prog n m a)" using made_s_others by (simp add: s_at_def)
  obtain b x where b: "s_events prog n (mevents m) (s_at prog n m a) (b, x)" "made (s_at prog n m a) \<le> made b"
    using s_events_total by (metis prod.collapse)
  show ?thesis
  proof (cases x)
    case None
    then have "s_turn prog n k m a (s_funcs prog n k b)" using b(1) s_turn.handled by simp
    then show ?thesis using le b(2) made_s_funcs [of b prog n k] by (meson order_trans)
  next
    case (Some e)
    then have "s_turn prog n k m a (b, Some e)" using b(1) s_turn.thrown by simp
    then show ?thesis using le b(2) by fastforce
  qed
qed

lemma sim_turn:
  assumes "plain prog" and "sim D th [] {} s a" and "serves cbs N D" and "calm_round th cbs N r"
  shows "\<exists>y. s_turn prog n k (moment_of cbs r) a y \<and> made a \<le> made (fst y) \<and> (made (fst y) < 2 ^ 64 \<longrightarrow>
    (\<exists>s' D'. loop_body prog th n k r s = (s', snd y) \<and> sim D' th [] {} s' (fst y) \<and> serves cbs N D'))"
proof (cases "made (s_others prog n (others r) a) < 2 ^ 64")
  case False
  obtain b x where b: "s_events prog n (mevents (moment_of cbs r)) (s_at prog n (moment_of cbs r) a) (b, x)"
      "made (s_at prog n (moment_of cbs r) a) \<le> made b"
    using s_events_total by (metis prod.collapse)
  have m: "\<not> made b < 2 ^ 64" "made a \<le> made b"
    using False b(2) made_s_others [of a prog n "others r"] by (simp_all add: s_at_def moment_of_def)
  show ?thesis
  proof (cases x)
    case None
    then have "s_turn prog n k (moment_of cbs r) a (s_funcs prog n k b)" using b(1) s_turn.handled by simp
    then show ?thesis using m made_s_funcs [of b prog n k] by (meson order_trans leD le_less_linear)
  next
    case (Some e)
    then have "s_turn prog n k (moment_of cbs r) a (b, Some e)" using b(1) s_turn.thrown by simp
    then show ?thesis using m by fastforce
  qed
next
  case True
  let ?m = "moment_of cbs r"
  define s1 where "s1 = (run_others prog n (others r) s)\<lparr>clock := returns_at r\<rparr>"
  define a1 where "a1 = s_at prog n ?m a"
  have "sim D th [] {} (run_others prog n (others r) s) (s_others prog n (others r) a)"
    using sim_others [OF assms(1,2) _ True] assms(4) by (simp add: calm_round_def)
  then have sim1: "sim D th [] {} s1 a1" unfolding s1_def a1_def s_at_def moment_of_def by (simp add: sim_clock)
  then have D: "D = (disps s1, pollr s1)" by (simp add: sim_def)
  obtain p' h' where p: "poll (answer r) (pollr s1) (disps s1) [] = Inr (p', h', reported r)"
      "serves cbs N (h', p')" "\<forall>x \<in> set (reported r). firing h' (the (cbs x)) x"
    using poll_calm [OF assms(3) [unfolded D] assms(4)] by blast
  define s2 where "s2 = s1\<lparr>pollr := p', disps := h', eventHandling := True\<rparr>"
  have sim2: "sim (h', p') th [] {} s2 a1" unfolding s2_def by (rule sim_field_updates(1) [OF sim1])
  have body: "loop_body prog th n k r s = andThen (handle_active prog th n (reported r))
      (\<lambda>s. doRunInLoopFuncs prog th n k (s\<lparr>eventHandling := False\<rparr>)) s2"
    by (simp add: loop_body_def s1_def [symmetric] p(1) s2_def)
  obtain b x where b: "s_events prog n (mevents ?m) a1 (b, x)" "made a1 \<le> made b"
      "made b < 2 ^ 64 \<longrightarrow> (\<exists>s'. handle_active prog th n (reported r) s2 = (s', x) \<and> sim (h', p') th [] {} s' b)"
    using sim_handle_active [OF assms(1), of "reported r" "(h', p')" "the \<circ> cbs" th s2 a1 n] sim2 p(3)
    by (auto simp: moment_of_def)
  have le: "made a \<le> made b" using b(2) made_s_others [of a prog n "others r"] by (simp add: a1_def s_at_def moment_of_def)
  show ?thesis
  proof (cases x)
    case (Some e)
    then have "s_turn prog n k ?m a (b, Some e)" using b(1) s_turn.thrown by (simp add: a1_def)
    then show ?thesis using b(3) le p(2) Some unfolding body by (intro exI [of _ "(b, Some e)"]) (auto simp del: split_paired_Ex)
  next
    case None
    then have t: "s_turn prog n k ?m a (s_funcs prog n k b)" using b(1) s_turn.handled by (simp add: a1_def)
    obtain c y where c: "s_funcs prog n k b = (c, y)" by fastforce
    then have bc: "made b \<le> made c" using made_s_funcs [of b prog n k] by simp
    have "\<exists>s' D'. loop_body prog th n k r s = (s', y) \<and> sim D' th [] {} s' c \<and> serves cbs N D'" if mc: "made c < 2 ^ 64"
    proof -
      obtain s3 where s3: "handle_active prog th n (reported r) s2 = (s3, None)" "sim (h', p') th [] {} s3 b"
        using b(3) le_less_trans [OF bc mc] None by blast
      define s4 where "s4 = s3\<lparr>eventHandling := False, callingFuncs := True\<rparr>"
      have "sim (h', p') th [] {} s4 b"
        unfolding s4_def by (intro sim_field_updates(3) [OF sim_field_updates(2)] s3(2))
      then obtain s5 where s5: "run_funcs prog th n k s4 = (s5, y)" "sim (h', p') th [] {} s5 c"
        using sim_funcs [OF assms(1) _ c mc] by blast
      have "loop_body prog th n k r s = (s5\<lparr>callingFuncs := False\<rparr>, y) \<or> loop_body prog th n k r s = (s5, y)"
        using s3(1) s5(1) unfolding body by (cases y) (simp_all add: doRunInLoopFuncs_def s4_def)
      then show ?thesis using sim_field_updates(3) [OF s5(2)] s5(2) p(2) by blast
    qed
    then show ?thesis using t le bc c by (intro exI [of _ "(c, y)"]) auto
  qed
qed

lemma s_turns_total: "\<exists>y. s_turns prog n k ms a y \<and> made a \<le> made (fst y)"
proof (induction ms arbitrary: a)
  case Nil
  then show ?case using s_turns.stop [of a prog n k "[]"] s_turns.wait [of a prog n k] by (cases "stopped a") fastforce+
next
  case (Cons m ms)
  show ?case
  proof (cases "stopped a")
    case True
    then show ?thesis using s_turns.stop [of a] by fastforce
  next
    case False
    obtain b x where b: "s_turn prog n k m a (b, x)" "made a \<le> made b"
      using s_turn_total by (metis prod.collapse)
    obtain y where y: "s_turns prog n k ms b y" "made b \<le> made (fst y)" using Cons.IH by blast
    show ?thesis
    proof (cases x)
      case None
      then show ?thesis using s_turns.turn [OF False b(1) [unfolded None] y(1)] b(2) y(2) by (blast intro: order_trans)
    next
      case (Some e)
      then show ?thesis using s_turns.thrown [OF False b(1) [unfolded Some]] b(2) by fastforce
    qed
  qed
qed

lemma sim_turns:
  assumes "plain prog"
  shows "sim D th [] {} s a \<Longrightarrow> serves cbs N D \<Longrightarrow> \<forall>r \<in> set rs. calm_round th cbs N r \<Longrightarrow>
    \<exists>y. s_turns prog n k (map (moment_of cbs) rs) a y \<and> made a \<le> made (fst y) \<and> (made (fst y) < 2 ^ 64 \<longrightarrow>
      (\<exists>s' D'. loop_rounds prog th n k rs s = (s', snd y) \<and> sim D' th [] {} s' (fst y) \<and> serves cbs N D'))"
proof (induction rs arbitrary: s a D)
  case Nil
  have "quitting s = stopped a" using Nil.prems(1) by (simp add: sim_def)
  then show ?case using s_turns.stop [of a prog n k "[]"] s_turns.wait [of a prog n k] Nil.prems(1,2)
    by (cases "stopped a") fastforce+
next
  case (Cons r rs)
  have q: "quitting s = stopped a" using Cons.prems(1) by (simp add: sim_def)
  show ?case
  proof (cases "stopped a")
    case True
    then show ?thesis using s_turns.stop [of a prog n k] q Cons.prems(1,2) by fastforce
  next
    case False
    obtain b x where b: "s_turn prog n k (moment_of cbs r) a (b, x)" "made a \<le> made b" "made b < 2 ^ 64 \<longrightarrow>
        (\<exists>s' D'. loop_body prog th n k r s = (s', x) \<and> sim D' th [] {} s' b \<and> serves cbs N D')"
      using sim_turn [OF assms Cons.prems(1,2)] Cons.prems(3) by (metis list.set_intros(1) prod.collapse)
    have step: "loop_rounds prog th n k (r # rs) s = andThen (loop_body prog th n k r) (loop_rounds prog th n k rs) s"
      using q False by simp
    show ?thesis
    proof (cases x)
      case (Some e)
      have t: "s_turns prog n k (map (moment_of cbs) (r # rs)) a (b, Some e)"
        using s_turns.thrown [OF False b(1) [unfolded Some]] by simp
      show ?thesis using t b(2,3) Some unfolding step by (intro exI [of _ "(b, Some e)"]) (auto simp del: split_paired_Ex)
    next
      case None
      show ?thesis
      proof (cases "made b < 2 ^ 64")
        case True
        then obtain s1 D1 where s1: "loop_body prog th n k r s = (s1, None)" "sim D1 th [] {} s1 b" "serves cbs N D1"
          using b(3) None by auto
        obtain y where y: "s_turns prog n k (map (moment_of cbs) rs) b y" "made b \<le> made (fst y)"
            "made (fst y) < 2 ^ 64 \<longrightarrow> (\<exists>s' D'. loop_rounds prog th n k rs s1 = (s', snd y) \<and>
               sim D' th [] {} s' (fst y) \<and> serves cbs N D')"
          using Cons.IH [OF s1(2,3)] Cons.prems(3) list.set_intros(2) by metis
        then show ?thesis using s_turns.turn [OF False b(1) [unfolded None] y(1)] b(2) s1(1) unfolding step
          by (intro exI [of _ y]) auto
      next
        case False2: False
        obtain y where y: "s_turns prog n k (map (moment_of cbs) rs) b y" "made b \<le> made (fst y)"
          using s_turns_total by blast
        then show ?thesis using s_turns.turn [OF False b(1) [unfolded None] y(1)] b(2) False2
          by (intro exI [of _ y]) auto
      qed
    qed
  qed
qed

section \<open>The refinement\<close>

text \<open>A running loop that corresponds to its abstraction.\<close>

definition loop_ok :: "eloop \<Rightarrow> bool" where
  "loop_ok s \<longleftrightarrow> sim (disps s, pollr s) (threadId s) [] {} s (sched_of s)"

lemma sim_sched_of:
  assumes "sim D th [] {} s a" and "made a < 2 ^ 64"
  shows "a = sched_of s" and "D = (disps s, pollr s)" and "th = threadId s" and "loop_ok s"
proof -
  have "unat (word_of_nat (made a) :: 64 word) = made a" using assms(2) by (simp add: unat_of_nat)
  then show a: "a = sched_of s" using assms(1) by (simp add: sim_def sched_of_def comp_def)
  show D: "D = (disps s, pollr s)" and t: "th = threadId s" using assms(1) by (simp_all add: sim_def)
  show "loop_ok s" using assms(1) a D t by (simp add: loop_ok_def)
qed

text \<open>
  C1: the event loop refines the abstract scheduler.  Take any program whose closures delete no
  dispatchers, any calls of other threads and any reports of the addresses served, round after
  round: there is a run of the scheduler on the same input with the same outcome, be it a request to
  quit, the throw of a closure or fuel that ran out, and the loop ends in a state of which the
  scheduler's is the abstraction, in particular with the same closures run in the same order; all
  this as long as fewer than \<open>2 ^ 64\<close> timers have been made.
\<close>

theorem loop_refines_scheduler:
  assumes "plain prog" and "loop_ok s" and "serves cbs N (disps s, pollr s)"
    and "\<forall>r \<in> set rs. calm_round (threadId s) cbs N r"
  shows "\<exists>a e. s_turns prog n k (map (moment_of cbs) rs) (sched_of s) (a, e) \<and>
    (made a < 2 ^ 64 \<longrightarrow>
     (\<exists>s'. loop_rounds prog (threadId s) n k rs s = (s', e) \<and> a = sched_of s' \<and> loop_ok s'))"
proof -
  obtain y where y: "s_turns prog n k (map (moment_of cbs) rs) (sched_of s) y"
      "made (fst y) < 2 ^ 64 \<longrightarrow> (\<exists>s' D'. loop_rounds prog (threadId s) n k rs s = (s', snd y) \<and>
         sim D' (threadId s) [] {} s' (fst y) \<and> serves cbs N D')"
    using sim_turns [OF assms(1) _ assms(3,4)] assms(2) unfolding loop_ok_def by blast
  obtain a e where "y = (a, e)" by fastforce
  with y show ?thesis using sim_sched_of(1,4) by (intro exI [of _ a] exI [of _ e]) fastforce
qed

text \<open>The loop that was just made and is about to start its first round.\<close>

definition own_cbs :: "addr \<Rightarrow> loop_cb option" where
  "own_cbs = [timer_addr \<mapsto> HandleRead, wake_addr \<mapsto> WakeupRead]"

lemma new_loop_ok:
  assumes "mk_EventLoop me th sl clk wl created timerfd wakefd = Inr s"
  shows "loop_ok (s\<lparr>looping := True, quitting := False\<rparr>)"
    and "serves own_cbs kInitEventListSize (disps s, pollr s)" and "threadId s = th"
    and "sched_of s = \<lparr>alarms = {#}, todo = [], todoOnQuit = [], made = unat created, stopped = False,
      stime = clk, swall = wl, didRun = []\<rparr>"
  using assms
  by (auto simp: mpsc.wf_new mpsc.contents_new timer_addr_def wake_addr_def mk_EventLoop_def open_timerfd_def
      enableReading_def loop_updateEventDispatcher_def registerEventDispatcher_def poller_assertInLoopThread_def
      setReadCallback_def setState_def mk_EventDispatcher_def mk_EpollPoller_def updateEventDispatcher_def
      poller_states Let_def wf_queues_def timerq.defs mk_timerq_def loop_ok_def sim_def sched_of_def ids_ok_def
      serves_def own_cbs_def outcome_simps pq_sorted_def event_bits kInitEventListSize_def split: if_splits)

section \<open>Rounds whose closures do nothing on the loop\<close>

text \<open>The closures that a list of tasks, or of calls from another thread, will run.\<close>

fun closures :: "task list \<Rightarrow> nat list" where
  "closures [] = []"
| "closures (UserTask f # ts) = f # closures ts"
| "closures (_ # ts) = closures ts"

fun queues :: "cmd list \<Rightarrow> nat list" where
  "queues [] = []"
| "queues (QueueInLoop (Some f) # cs) = f # queues cs"
| "queues (RunInLoop f # cs) = f # queues cs"
| "queues (_ # cs) = queues cs"

definition quiet_cmd :: "cmd \<Rightarrow> bool" where
  "quiet_cmd c = (case c of Destroy x \<Rightarrow> False | Raise e \<Rightarrow> False | _ \<Rightarrow> True)"

lemma closures_append [simp]: "closures (xs @ ys) = closures xs @ closures ys"
  by (induction xs rule: closures.induct) simp_all

lemma queues_append [simp]: "queues (cs @ ds) = queues cs @ queues ds"
  by (induction cs rule: queues.induct) simp_all

lemma s_exec_elsewhere:
  assumes "list_all quiet_cmd cs"
  shows "\<exists>b. s_exec prog False n cs a = (b, None) \<and> alarms b = alarms a \<and> didRun b = didRun a \<and> stime b = stime a \<and>
    closures (todo b) = closures (todo a) @ queues cs \<and> length (todo b) \<le> length (todo a) + length cs \<and>
    made b \<le> made a + length cs"
  using assms
proof (induction cs arbitrary: a)
  case (Cons c cs)
  have "\<exists>b. s_cmd False c a = (b, None) \<and> alarms b = alarms a \<and> didRun b = didRun a \<and> stime b = stime a \<and>
      closures (todo b) = closures (todo a) @ queues [c] \<and> length (todo b) \<le> Suc (length (todo a)) \<and>
      made b \<le> Suc (made a)"
    using Cons.prems by (cases c) (auto simp: quiet_cmd_def s_queue_def s_timer_def Let_def split: option.split)
  then obtain b where b: "s_cmd False c a = (b, None)" "alarms b = alarms a" "didRun b = didRun a" "stime b = stime a"
      "closures (todo b) = closures (todo a) @ queues [c]" "length (todo b) \<le> Suc (length (todo a))"
      "made b \<le> Suc (made a)"
    by blast
  have "list_all quiet_cmd cs" using Cons.prems by simp
  then obtain b' where b': "s_exec prog False n cs b = (b', None)" "alarms b' = alarms b" "didRun b' = didRun b" "stime b' = stime b"
      "closures (todo b') = closures (todo b) @ queues cs" "length (todo b') \<le> length (todo b) + length cs"
      "made b' \<le> made b + length cs"
    using Cons.IH by blast
  have "s_exec prog False n (c # cs) a = andThen (s_cmd False c) (s_exec prog False n cs) a"
    by (cases "\<exists>f. c = RunInLoop f") (auto simp: andThen_def s_exec_simple)
  moreover have "queues (c # cs) = queues [c] @ queues cs" using queues_append [of "[c]" cs] by simp
  ultimately show ?case using b b' by (intro exI [of _ b']) simp
qed simp

text \<open>All calls of a round.\<close>

definition calls_in :: "(nat \<times> int \<times> cmd list) list \<Rightarrow> cmd list" where
  "calls_in os = concat (map (snd \<circ> snd) os)"

lemma s_others_quiet:
  assumes "list_all quiet_cmd (calls_in os)"
  shows "alarms (s_others prog n os a) = alarms a \<and> didRun (s_others prog n os a) = didRun a \<and>
    closures (todo (s_others prog n os a)) = closures (todo a) @ queues (calls_in os) \<and>
    length (todo (s_others prog n os a)) \<le> length (todo a) + length (calls_in os) \<and>
    made (s_others prog n os a) \<le> made a + length (calls_in os)"
  using assms
proof (induction os arbitrary: a)
  case Nil
  then show ?case by (simp add: calls_in_def)
next
  case (Cons o1 os)
  obtain t c cs where o1: "o1 = (t, c, cs)" by (cases o1)
  have q: "list_all quiet_cmd cs" "list_all quiet_cmd (calls_in os)" "calls_in (o1 # os) = cs @ calls_in os"
    using Cons.prems by (simp_all add: o1 calls_in_def)
  obtain b where b: "s_exec prog False n cs (a\<lparr>stime := c\<rparr>) = (b, None)" "alarms b = alarms a" "didRun b = didRun a"
      "closures (todo b) = closures (todo a) @ queues cs" "length (todo b) \<le> length (todo a) + length cs"
      "made b \<le> made a + length cs"
    using s_exec_elsewhere [OF q(1), of prog n "a\<lparr>stime := c\<rparr>"] by auto
  show ?case using Cons.IH [OF q(2), of b] b by (simp add: q(3) [unfolded o1] o1)
qed

lemma s_func_quiet: "prog = (\<lambda>_. []) \<Longrightarrow> s_func prog n f a = (a\<lparr>didRun := didRun a @ [f]\<rparr>, None)"
  by (simp add: s_func_def)

lemma s_fire_quiet:
  assumes "prog = (\<lambda>_. [])"
  shows "\<forall>t \<in> set ds. t \<in># alarms a \<and> tcallback t \<noteq> None \<Longrightarrow>
    s_fire prog n ds a = (a\<lparr>didRun := didRun a @ map (the \<circ> tcallback) ds\<rparr>, None)"
proof (induction ds arbitrary: a)
  case (Cons t ds)
  then obtain f where "tcallback t = Some f" by auto
  then show ?case using Cons.IH [of "a\<lparr>didRun := didRun a @ [f]\<rparr>"] Cons.prems
    by (simp add: timer_run_def s_func_quiet [OF assms])
qed simp

lemma s_funcs_quiet:
  assumes "prog = (\<lambda>_. [])"
  shows "length (todo a) < k \<Longrightarrow>
    \<exists>b. s_funcs prog n k a = (b, None) \<and> didRun b = didRun a @ closures (todo a) \<and> made b = made a"
proof (induction k arbitrary: a)
  case (Suc k)
  show ?case
  proof (cases "todo a")
    case Nil
    then show ?thesis by simp
  next
    case (Cons t ts)
    obtain b where b: "s_task prog n t (a\<lparr>todo := ts\<rparr>) = (b, None)" "didRun b = didRun a @ closures [t]" "todo b = ts"
        "made b = made a"
      by (cases t) (simp_all add: s_task_def s_func_quiet [OF assms] s_cancel_def)
    then have "length (todo b) < k" using Suc.prems Cons by simp
    moreover have "closures (t # ts) = closures [t] @ closures ts" by (cases t) simp_all
    ultimately show ?thesis using Suc.IH b Cons by fastforce
  qed
qed simp

text \<open>Distinct reports of the loop's own two dispatchers.\<close>

lemma s_events_own:
  assumes "prog = (\<lambda>_. [])"
  shows "s_events prog n cbs a r \<Longrightarrow> set cbs \<subseteq> {HandleRead, WakeupRead} \<Longrightarrow> count_list cbs HandleRead \<le> 1 \<Longrightarrow>
    \<forall>t \<in># alarms a. tcallback t \<noteq> None \<Longrightarrow>
    \<exists>ds. snd r = None \<and> didRun (fst r) = didRun a @ map (the \<circ> tcallback) ds \<and> todo (fst r) = todo a \<and> made (fst r) = made a \<and>
      (if HandleRead \<in> set cbs then due_order a ds else ds = [])"
proof (induction cbs a r rule: s_events.induct)
  case (none a)
  then show ?case by simp
next
  case (next_one cb a b cbs r)
  from next_one.hyps(1) show ?case
  proof cases
    case wake
    then have "b = a" by simp
    then show ?thesis using next_one wake(1) by (auto split: if_splits)
  next
    case (user f)
    then show ?thesis using next_one.prems by simp
  next
    case (expiry ds)
    have ds: "\<forall>t \<in> set ds. t \<in># alarms a \<and> tcallback t \<noteq> None"
      using expiry(3) next_one.prems(3) unfolding due_order_def by (metis filter_mset_eq_conv mset_subset_eqD set_mset_mset)
    have b: "b = s_renew ds (stime a) (a\<lparr>didRun := didRun a @ map (the \<circ> tcallback) ds\<rparr>)"
      using expiry(2) s_fire_quiet [OF assms(1) ds, of n] by (simp add: s_expire_def)
    have no: "HandleRead \<notin> set cbs" using next_one.prems(2) expiry(1) by (simp add: count_list_0_iff)
    have "\<forall>t \<in># alarms b. tcallback t \<noteq> None"
      using next_one.prems(3) by (auto simp: b s_renew_def restart_def)
    then have "snd r = None" "didRun (fst r) = didRun b" "todo (fst r) = todo b" "made (fst r) = made b"
      using next_one.IH next_one.prems(1,2) no expiry(1) by auto
    then show ?thesis using expiry(1,3) by (intro exI [of _ ds]) (simp add: b s_renew_def)
  qed
next
  case (thrown cb a b e cbs)
  from thrown.hyps(1) show ?case
  proof cases
    case wake
    then show ?thesis by simp
  next
    case (user f)
    then show ?thesis using thrown.prems by simp
  next
    case (expiry ds)
    have "\<forall>t \<in> set ds. t \<in># alarms a \<and> tcallback t \<noteq> None"
      using expiry(3) thrown.prems(3) unfolding due_order_def by (metis filter_mset_eq_conv mset_subset_eqD set_mset_mset)
    from s_fire_quiet [OF assms(1) this, of n] expiry(2) show ?thesis by (simp add: s_expire_def)
  qed
qed

text \<open>What other threads do leaves the timer descriptor alone.\<close>

definition armed_as :: "(int \<times> int \<times> int) option \<Rightarrow> nat \<Rightarrow> nat \<Rightarrow> eloop \<Rightarrow> bool" where
  "armed_as x l th s \<longleftrightarrow> armed s = x \<and> threadId s = l \<and> l \<noteq> th"

interpretation armed_as: closure_invariant "armed_as x l th" th for x l th
proof unfold_locales
  show "kept any_outcome (armed_as x l th) (run_timer_task th f)" for f
    by (rule kept_anyI) (auto simp: loop_step_defs armed_as_def isInLoopThread_def Let_def split: task.split option.split sum.split)
qed (auto simp: kept_def queueInLoop_def runOnQuit_def loop_quit_def wakeup_def armed_as_def Let_def
    split: sum.splits)

lemma others_armed:
  "\<forall>(t, c, cs) \<in> set os. t \<noteq> threadId s \<Longrightarrow> armed (run_others prog n os s) = armed s"
proof (induction os arbitrary: s)
  case (Cons o1 os)
  obtain t c cs where o1: "o1 = (t, c, cs)" by (cases o1)
  have "armed_as (armed s) (threadId s) t (fst (exec prog t n cs (s\<lparr>clock := c\<rparr>)))"
    by (rule kept_anyD [OF armed_as.exec_kept]) (use Cons.prems o1 in \<open>auto simp: armed_as_def\<close>)
  then show ?case using Cons by (simp add: o1 armed_as_def)
qed simp

lemma quiet_round_runs:
  assumes "loop_ok s" and "serves own_cbs N (disps s, pollr s)" and "calm_round (threadId s) own_cbs N r"
    and "distinct (reported r)" and "list_all quiet_cmd (calls_in (others r))"
    and "\<forall>t \<in> set (timers s). tcallback t \<noteq> None"
    and "unat (timersCreated s) + length (calls_in (others r)) < 2 ^ 64"
    and "length (items (funcs s)) + length (calls_in (others r)) < k"
  shows "\<exists>s' ds. loop_body (\<lambda>_. []) (threadId s) n k r s = (s', None) \<and>
    trace s' = trace s @ map (the \<circ> tcallback) ds @ closures (map the (items (funcs s))) @ queues (calls_in (others r)) \<and>
    pq_sorted ds \<and>
    mset ds = (if timer_addr \<in> set (reported r)
               then {#t \<in># mset (timers s). tid t \<in> timerIdSet s \<and> twhen t \<le> returns_at r#} else {#})"
proof -
  let ?prog = "\<lambda>_ :: nat. [] :: cmd list" and ?m = "moment_of own_cbs r" and ?os = "others r"
  define a where "a = s_at ?prog n ?m (sched_of s)"
  have q: "alarms a = alarms (sched_of s)" "didRun a = trace s" "stime a = returns_at r"
      "closures (todo a) = closures (map the (items (funcs s))) @ queues (calls_in ?os)"
      "length (todo a) \<le> length (items (funcs s)) + length (calls_in ?os)"
      "made a \<le> unat (timersCreated s) + length (calls_in ?os)"
    using s_others_quiet [OF assms(5), of ?prog n "sched_of s"] by (simp_all add: a_def s_at_def moment_of_def sched_of_def)
  have q_ids: "\<forall>t \<in># alarms a. tcallback t \<noteq> None" using assms(6) by (simp add: q(1) sched_of_def)
  have plain: "plain ?prog" by (simp add: plain_def)
  obtain y where y: "s_turn ?prog n k ?m (sched_of s) y" "made (fst y) < 2 ^ 64 \<longrightarrow>
      (\<exists>s' D'. loop_body ?prog (threadId s) n k r s = (s', snd y) \<and> sim D' (threadId s) [] {} s' (fst y))"
    using sim_turn [OF plain assms(1) [unfolded loop_ok_def] assms(2,3), of n k] by blast
  have dom: "\<forall>x \<in> set (reported r). x = timer_addr \<or> x = wake_addr"
    using assms(3) by (auto simp: calm_round_def list_all_iff own_cbs_def split: if_splits)
  then have cbs: "set (mevents ?m) \<subseteq> {HandleRead, WakeupRead}"
    by (auto simp: moment_of_def own_cbs_def timer_addr_def wake_addr_def)
  have one: "count_list (map (the \<circ> own_cbs) xs) HandleRead \<le> 1 \<and>
      (HandleRead \<in> set (map (the \<circ> own_cbs) xs) \<longleftrightarrow> timer_addr \<in> set xs)"
    if "distinct xs" "\<forall>x \<in> set xs. x = timer_addr \<or> x = wake_addr" for xs
    using that by (induction xs) (auto simp: own_cbs_def timer_addr_def wake_addr_def count_list_0_iff)
  note own = s_events_own [of ?prog n "mevents ?m" a, OF refl _ cbs _ q_ids]
  have c1: "count_list (mevents ?m) HandleRead \<le> 1"
    and c2: "HandleRead \<in> set (mevents ?m) \<longleftrightarrow> timer_addr \<in> set (reported r)"
    using one [OF assms(4) dom] by (simp_all add: moment_of_def)
  from y(1) show ?thesis
  proof cases
    case (thrown b e)
    then show ?thesis using own [OF _ c1] by (fastforce simp: a_def)
  next
    case (handled b)
    obtain ds where ds: "didRun b = didRun a @ map (the \<circ> tcallback) ds" "todo b = todo a" "made b = made a"
        "if HandleRead \<in> set (mevents ?m) then due_order a ds else ds = []"
      using own [OF handled(2) [folded a_def] c1] by auto
    have "length (todo b) < k" using q(5) assms(8) by (simp add: ds(2))
    then obtain c where c: "s_funcs ?prog n k b = (c, None)" "didRun c = didRun b @ closures (todo b)" "made c = made b"
      using s_funcs_quiet [OF refl] by blast
    have "made c < 2 ^ 64" using q(6) assms(7) by (simp add: c(3) ds(3))
    then obtain s' D' where s': "loop_body ?prog (threadId s) n k r s = (s', None)" "sim D' (threadId s) [] {} s' c"
      using y(2) handled(1) c(1) by auto
    have "trace s' = didRun c" using s'(2) by (simp add: sim_def)
    also have "\<dots> = trace s @ map (the \<circ> tcallback) ds @ closures (map the (items (funcs s))) @ queues (calls_in ?os)"
      using c(2) ds(1,2) q(2,4) by simp
    finally have tr: "trace s' = \<dots>" .
    have "mset ds = (if timer_addr \<in> set (reported r)
               then {#t \<in># mset (timers s). tid t \<in> timerIdSet s \<and> twhen t \<le> returns_at r#} else {#}) \<and> pq_sorted ds"
      using ds(4) c2 by (auto simp: due_order_def q(1,3) sched_of_def filter_filter_mset pq_sorted_def)
    then show ?thesis using s'(1) tr by blast
  qed
qed

text \<open>
  C6: a round as a whole, when closures do nothing on the loop.  Other threads make any calls on the
  loop while it waits, and its own two dispatchers are reported or not.  The round returns; it runs
  first, when the timer descriptor was reported, exactly the timers that are due and not cancelled,
  in the order of their times, and then the closures that were queued, those of before in front of
  those the other threads queued, in order; a cancellation asked for during the wait comes behind
  the timers that are already due.
\<close>

theorem round_runs_due_then_queued:
  assumes "loop_ok s" and "serves own_cbs N (disps s, pollr s)" and "calm_round (threadId s) own_cbs N r"
    and "distinct (reported r)" and "list_all quiet_cmd (calls_in (others r))"
    and "\<forall>t \<in> set (timers s). tcallback t \<noteq> None"
    and "unat (timersCreated s) + length (calls_in (others r)) < 2 ^ 64"
    and "length (items (funcs s)) + length (calls_in (others r)) < k"
  shows "\<exists>s' ds. loop_body (\<lambda>_. []) (threadId s) n k r s = (s', None) \<and>
    trace s' = trace s @ map (the \<circ> tcallback) ds @ closures (map the (items (funcs s))) @ queues (calls_in (others r)) \<and>
    pq_sorted ds \<and>
    mset ds = (if timer_addr \<in> set (reported r)
               then {#t \<in># mset (timers s). tid t \<in> timerIdSet s \<and> twhen t \<le> returns_at r#} else {#})"
  using assms by (rule quiet_round_runs)

text \<open>
  The answer of \<^verbatim>\<open>epoll_wait\<close> agrees with the timer descriptor: it is reported when the time it was
  set for has come.
\<close>

definition prompt :: "program \<Rightarrow> nat \<Rightarrow> round \<Rightarrow> eloop \<Rightarrow> bool" where
  "prompt prog n r s \<longleftrightarrow>
     (\<forall>x. armed (run_others prog n (others r) s) = Some x \<longrightarrow> deadline x \<le> returns_at r \<longrightarrow> timer_addr \<in> set (reported r))"

lemma due_reported:
  assumes "timers_ok s" and "armed s = Some (c, v)" and "c + 100000 \<le> returns_at r" and "prompt prog n r s"
    and "\<forall>(t, c, cs) \<in> set (others r). t \<noteq> threadId s" and "t \<in> set (timers s)" and "twhen t \<le> returns_at r"
  shows "timer_addr \<in> set (reported r)"
proof -
  have ne: "timers s \<noteq> []" using assms(6) by auto
  then have "armed s = Some (c, howMuchTimeFromNow (twhen (pq_top (timers s))) c)"
    using assms(1,2) by (auto simp: timers_ok_def tq_armed_def)
  moreover have "twhen (pq_top (timers s)) \<le> twhen t"
    using assms(1,6) timer_pq.top_least [of "timers s" t] by (simp add: timers_ok_def tq_frame_def)
  then have "deadline (c, howMuchTimeFromNow (twhen (pq_top (timers s))) c) \<le> returns_at r"
    using descriptor_setting [of "twhen (pq_top (timers s))" c] assms(3,7) by (auto split: prod.splits if_splits)
  ultimately show ?thesis using assms(4) others_armed [OF assms(5), of prog n] by (simp add: prompt_def)
qed


section \<open>Concrete runs\<close>

inductive_simps s_event_simps: "s_event prog n WakeupRead a r" "s_event prog n HandleRead a r"
inductive_simps s_events_simps: "s_events prog n [] a r" "s_events prog n (cb # cbs) a r"
inductive_simps s_turn_simps: "s_turn prog n k m a r"
inductive_simps s_turns_simps: "s_turns prog n k [] a r" "s_turns prog n k (m # ms) a r"

text \<open>A round in which another thread makes calls at time \<open>c\<close>, and what is reported at time \<open>e\<close>.\<close>

definition told :: "int \<Rightarrow> cmd list \<Rightarrow> int \<Rightarrow> addr \<Rightarrow> round" where
  "told c cs e x = \<lparr>others = [(3, c, cs)], returns_at = e, answer = WaitEvents [(POLLIN, x)]\<rparr>"

lemma told_calm:
  "list_all plain_cmd cs \<Longrightarrow> x = timer_addr \<or> x = wake_addr \<Longrightarrow> calm_round 0 own_cbs kInitEventListSize (told c cs e x)"
  by (auto simp: told_def calm_round_def reported_def own_cbs_def kInitEventListSize_def)

theorem loop_refines_scheduler_witness:
  "\<exists>s s'. loop_ok s \<and> loop_rounds (\<lambda>_. []) 0 0 5
     [told 4 [RunAfter 500 (Some 7), QueueInLoop (Some 8)] 6 wake_addr, told 9 [Quit] 500004 timer_addr] s = (s', None) \<and>
     trace s' = [8, 7]"
proof -
  let ?rs = "[told 4 [RunAfter 500 (Some 7), QueueInLoop (Some 8)] 6 wake_addr, told 9 [Quit] 500004 timer_addr]"
  obtain s :: eloop where s: "mk_EventLoop 1 0 Map.empty 0 0 0 5 6 = Inr s" using fresh_loop by blast
  define s0 where "s0 = s\<lparr>looping := True, quitting := False\<rparr>"
  note n = new_loop_ok [OF s, folded s0_def]
  have th: "threadId s0 = 0" "serves own_cbs kInitEventListSize (disps s0, pollr s0)" using n(2,3) by (simp_all add: s0_def)
  have "sched_of s0 = sched_of s" using n(4) by (simp add: s0_def sched_of_def)
  then have so: "sched_of s0 = \<lparr>alarms = {#}, todo = [], todoOnQuit = [], made = 0, stopped = False, stime = 0,
      swall = 0, didRun = []\<rparr>" using n(4) by simp
  have "\<forall>r \<in> set ?rs. calm_round (threadId s0) own_cbs kInitEventListSize r"
    by (simp add: th(1) told_calm plain_cmd_def)
  then obtain a e where a: "s_turns (\<lambda>_. []) 0 5 (map (moment_of own_cbs) ?rs) (sched_of s0) (a, e)"
      "made a < 2 ^ 64 \<longrightarrow> (\<exists>s'. loop_rounds (\<lambda>_. []) (threadId s0) 0 5 ?rs s0 = (s', e) \<and> a = sched_of s' \<and> loop_ok s')"
    using loop_refines_scheduler [OF _ n(1) th(2), of "\<lambda>_. []" ?rs 0 5] by (auto simp: plain_def)
  have "e = None \<and> didRun a = [8, 7] \<and> made a = 1"
    using a(1) unfolding so
    by (auto simp: s_turns_simps s_turn_simps s_events_simps s_event_simps moment_of_def told_def reported_def own_cbs_def
        timer_addr_def wake_addr_def s_at_def s_timer_def new_timer_def s_queue_def s_task_def s_func_def due_order_def
        s_expire_def s_renew_def timer_run_def andThen_def numeral_eq_Suc Let_def)
  then obtain s' where "loop_rounds (\<lambda>_. []) 0 0 5 ?rs s0 = (s', None)" "a = sched_of s'" "didRun a = [8, 7]"
    using a(2) th(1) by auto
  then show ?thesis using n(1) by (intro exI [of _ s0] exI [of _ s'] conjI) (simp_all add: sched_of_def)
qed

text \<open>A loop with one timer, due at 500 microseconds, and one closure in its queue.\<close>

lemma loop_with_timer:
  obtains s where "loop_ok s" and "timers_ok s" and "serves own_cbs kInitEventListSize (disps s, pollr s)"
    and "threadId s = 0" and "timers s = [\<lparr>tcallback = Some 7, twhen = 500000, tinterval = 0, trepeat = False, tid = 1\<rparr>]"
    and "timerIdSet s = {1}" and "timersCreated s = 1" and "items (funcs s) = [Some (UserTask 8)]"
    and "armed s = Some (0, howMuchTimeFromNow 500000 0)" and "trace s = []"
proof -
  let ?t = "\<lparr>tcallback = Some 7, twhen = 500000, tinterval = 0, trepeat = False, tid = 1 :: 64 word\<rparr>"
  obtain s :: eloop where s: "mk_EventLoop 1 0 Map.empty 0 0 0 5 6 = Inr s" using fresh_loop by blast
  define s0 where "s0 = s\<lparr>looping := True, quitting := False\<rparr>"
  note n = new_loop_ok [OF s, folded s0_def]
  have so: "items (funcs s) = []" "trace s = []" "looping s0" "wf_queues s0" "funcs s0 = funcs s"
    using n(1,4) by (simp_all add: sched_of_def loop_ok_def sim_def) (simp add: s0_def)
  obtain q where q: "wf_mpsc q" "items q = [Some (UserTask 8)]" using mpsc_of_list by blast
  define s1 where "s1 = s0\<lparr>timers := [?t], timerIdSet := {1}, timersCreated := 1, funcs := q,
    armed := Some (0, howMuchTimeFromNow 500000 0)\<rparr>"
  have "loop_ok s1" using n(1) q so
    by (simp add: s1_def loop_ok_def sim_def sched_of_def ids_ok_def pq_sorted_def wf_queues_def)
  moreover have "timers_ok s1" by (simp add: s1_def timers_ok_def tq_frame_def tq_armed_def pq_sorted_def pq_top_def)
  ultimately show ?thesis using n(2,3) q so
    by (intro that [of s1]) (simp_all add: s1_def s0_def)
qed

theorem round_runs_due_then_queued_witness:
  "\<exists>s s'. map tcallback (timers s) = [Some 7] \<and> items (funcs s) = [Some (UserTask 8)] \<and>
     loop_body (\<lambda>_. []) 0 0 9 (told 4 [InvalidateTimer 1, RunInLoop 5] 500004 timer_addr) s = (s', None) \<and>
     trace s' = [7, 8, 5]"
proof -
  let ?r = "told 4 [InvalidateTimer 1, RunInLoop 5] 500004 timer_addr"
  obtain s where s: "loop_ok s" "serves own_cbs kInitEventListSize (disps s, pollr s)" "threadId s = 0"
      "timers s = [\<lparr>tcallback = Some 7, twhen = 500000, tinterval = 0, trepeat = False, tid = 1\<rparr>]"
      "timerIdSet s = {1}" "timersCreated s = 1" "items (funcs s) = [Some (UserTask 8)]" "trace s = []"
    using loop_with_timer by metis
  have r: "distinct (reported ?r)" "calls_in (others ?r) = [InvalidateTimer 1, RunInLoop 5]" "returns_at ?r = 500004"
      "timer_addr \<in> set (reported ?r)"
    by (simp_all add: told_def reported_def calls_in_def)
  have c: "calm_round (threadId s) own_cbs kInitEventListSize ?r" by (simp add: s(3) told_calm plain_cmd_def)
  obtain s' ds where "loop_body (\<lambda>_. []) 0 0 9 ?r s = (s', None)"
      "trace s' = map (the \<circ> tcallback) ds @ [8, 5]"
      "mset ds = {#\<lparr>tcallback = Some 7, twhen = 500000, tinterval = 0, trepeat = False, tid = 1\<rparr>#}"
    using round_runs_due_then_queued [OF s(1,2) c r(1), of 9 0] r s by (auto simp: quiet_cmd_def)
  then show ?thesis using s by (intro exI [of _ s] exI [of _ s']) simp
qed


end
