(* ===== verification/LoopTests.thy ===== *)
theory LoopTests
  imports LoopRefinement
begin

text \<open>
  The unit tests of the event loop, \<^verbatim>\<open>test/test_eventloop.cpp\<close>, as programs over its model.  The
  tests of a run share a process: its main thread is \<open>0\<close>, the thread that a test starts is \<open>1\<close>.
  \<open>f\<close> is the closure that a test waits for, which does nothing on the loop; what the main thread
  does while the other one is in \<^verbatim>\<open>loop\<close> are calls of the rounds \<open>rs\<close>.  Each of
  the nine tests has its outcomes.
\<close>

section \<open>The fixture\<close>

text \<open>\<open>sl\<close> are the thread-local slots as the tests before left them.\<close>

definition SetUp :: "nat \<Rightarrow> (nat \<Rightarrow> nat option) \<Rightarrow> int \<Rightarrow> int \<Rightarrow> 64 word \<Rightarrow> int \<Rightarrow> int \<Rightarrow> fault + eloop" where
  "SetUp me sl clk wl created tfd wfd = mk_EventLoop me 0 sl clk wl created tfd wfd"

definition TearDown :: "(eloop, fault) act" where
  "TearDown = andThen (\<lambda>s. skip (if isRunning s then loop_quit 0 s else s)) (delete_EventLoop 0)"

text \<open>What the thread of a test does: take the loop over and run it.\<close>

definition worker :: "program \<Rightarrow> nat \<Rightarrow> nat \<Rightarrow> round list \<Rightarrow> (eloop, fault) act" where
  "worker prog n k rs = andThen (moveToCurrentThread 1) (loop prog 1 n k rs)"

section \<open>The tests\<close>

text \<open>Each with the state it ends in, the fault that ends it and whether its expectations hold.\<close>

type_synonym test = "eloop \<Rightarrow> (eloop \<times> fault option) \<times> bool"

definition test_ConstructorAndDestructor :: test where
  "test_ConstructorAndDestructor s = (skip s, \<not> isRunning s \<and> threadId s = 0)"

definition test_RunInLoopSameThread :: "program \<Rightarrow> nat \<Rightarrow> nat \<Rightarrow> test" where
  "test_RunInLoopSameThread prog n f s = (let r = exec prog 0 n [RunInLoop f] s in (r, f \<in> set (trace (fst r))))"

text \<open>
  The main thread of this test quits the loop when it has seen that the closure ran: in a round, or
  already before the other thread gets from the closure to \<^verbatim>\<open>loop\<close> (\<open>early\<close>).
\<close>

definition test_QueueInLoopDifferentThread :: "program \<Rightarrow> nat \<Rightarrow> nat \<Rightarrow> nat \<Rightarrow> bool \<Rightarrow> round list \<Rightarrow> test" where
  "test_QueueInLoopDifferentThread prog n k f early rs s =
     (let r = andThen (moveToCurrentThread 1) (andThen (exec prog 1 n [RunInLoop f])
                (andThen (\<lambda>s. skip (if early then loop_quit 0 s else s)) (loop prog 1 n k rs))) s in
      (r, f \<in> set (trace (fst r))))"

text \<open>\<^verbatim>\<open>runAfter\<close> with a delay of 0.1 seconds; \<^verbatim>\<open>timersCreated\<close> tells the identifier it returns.\<close>

definition test_RunAfterTimer :: "program \<Rightarrow> nat \<Rightarrow> nat \<Rightarrow> nat \<Rightarrow> round list \<Rightarrow> test" where
  "test_RunAfterTimer prog n k f rs s =
     (let r = andThen (exec prog 0 n [RunAfter 100000 (Some f)]) (worker prog n k rs) s in
      (r, f \<in> set (trace (fst r))))"

text \<open>
  The main thread of this test asks for its timer, one second from now, while the other one takes
  the loop over: before \<^verbatim>\<open>moveToCurrentThread\<close>, between this and \<^verbatim>\<open>loop\<close>, or at time \<open>c\<close> in a round.
\<close>

datatype asked_at = BeforeMove | BeforeLoop | InRound nat int

definition test_RunAtTimer :: "program \<Rightarrow> nat \<Rightarrow> nat \<Rightarrow> nat \<Rightarrow> asked_at \<Rightarrow> round list \<Rightarrow> test" where
  "test_RunAtTimer prog n k f w rs s =
     (let call = [RunAt (wall s + 1000000) (Some f)]; ask = exec prog 0 n call;
          r = (case w of
                 BeforeMove \<Rightarrow> andThen ask (worker prog n k rs)
               | BeforeLoop \<Rightarrow> andThen (moveToCurrentThread 1) (andThen ask (loop prog 1 n k rs))
               | InRound i c \<Rightarrow> worker prog n k (rs[i := (rs ! i)\<lparr>others := others (rs ! i) @ [(0, c, call)]\<rparr>])) s in
      (r, f \<in> set (trace (fst r))))"

text \<open>
  The closure of this test counts its runs and quits the loop in the third one, so it is another
  program in each round; as the callback of one repeating timer it runs at most once in a round.
  The count is that of its runs so far.  \<open>counted_loop\<close> is \<open>loop\<close> with these rounds; no closure of
  the test throws, so what \<open>loop\<close> does with exceptions is left out.
\<close>

definition counting :: "nat \<Rightarrow> nat \<Rightarrow> program" where
  "counting f m = (\<lambda>g. if g = f \<and> 3 \<le> m then [Quit] else [])"

fun counted_rounds :: "nat \<Rightarrow> nat \<Rightarrow> nat \<Rightarrow> round list \<Rightarrow> (eloop, fault) act" where
  "counted_rounds n k f [] s = (if quitting s then skip s else raise NotReturned s)"
| "counted_rounds n k f (r # rs) s =
     (if quitting s then skip s
      else andThen (loop_body (counting f (Suc (count_list (trace s) f))) 1 n k r) (counted_rounds n k f rs) s)"

definition counted_loop :: "nat \<Rightarrow> nat \<Rightarrow> nat \<Rightarrow> round list \<Rightarrow> (eloop, fault) act" where
  "counted_loop n k f rs s =
     (if looping s then raise AssertFail s
      else if \<not> isInLoopThread 1 s then raise ProcessExit s
      else
        case scopeExit (\<lambda>s. s\<lparr>looping := False\<rparr>) (counted_rounds n k f rs)
               (s\<lparr>looping := True, quitting := False\<rparr>) of
          (s1, None) \<Rightarrow> loop_end (\<lambda>_. []) 1 n k None s1
        | (s1, Some e) \<Rightarrow> (s1, Some e))"

definition test_RunEveryTimer :: "nat \<Rightarrow> nat \<Rightarrow> nat \<Rightarrow> round list \<Rightarrow> test" where
  "test_RunEveryTimer n k f rs s =
     (let r = andThen (exec (\<lambda>_. []) 0 n [RunEvery 100000 (Some f)])
                (andThen (moveToCurrentThread 1) (counted_loop n k f rs)) s in
      (r, count_list (trace (fst r)) f = 3))"

definition test_InvalidateTimer :: "program \<Rightarrow> nat \<Rightarrow> nat \<Rightarrow> nat \<Rightarrow> round list \<Rightarrow> test" where
  "test_InvalidateTimer prog n k f rs s =
     (let r = andThen (exec prog 0 n [RunAfter 100000 (Some f), InvalidateTimer (timersCreated s + 1)])
                (worker prog n k rs) s in
      (r, f \<notin> set (trace (fst r))))"

text \<open>
  The thread of this test does not take the loop over, and the main thread quits the loop at any
  time: before the thread gets to \<^verbatim>\<open>loop\<close> (\<open>early\<close>) or in a round.
\<close>

definition test_RunOnQuit :: "program \<Rightarrow> nat \<Rightarrow> nat \<Rightarrow> nat \<Rightarrow> bool \<Rightarrow> round list \<Rightarrow> test" where
  "test_RunOnQuit prog n k f early rs s =
     (let r = andThen (exec prog 0 n ([RunOnQuit (Some f)] @ (if early then [Quit] else []))) (loop prog 1 n k rs) s in
      (r, f \<in> set (trace (fst r))))"

definition test_IsInLoopThread :: test where
  "test_IsInLoopThread s = (skip (loop_quit 0 s), isInLoopThread 0 s \<and> \<not> isInLoopThread 1 s)"

section \<open>Their outcomes\<close>

text \<open>A loop as the fixture makes it.\<close>

definition fixture :: "int \<Rightarrow> nat \<Rightarrow> eloop \<Rightarrow> bool" where
  "fixture clk me s \<longleftrightarrow> (\<exists>sl wl created tfd wfd. SetUp me sl clk wl created tfd wfd = Inr s \<and>
     sl 1 = None \<and> unat created < 2 ^ 63)"

lemma fixtureD:
  assumes "fixture clk me s"
  shows "loop_ok (s\<lparr>looping := True, quitting := False\<rparr>)" "serves own_cbs kInitEventListSize (disps s, pollr s)"
    "threadId s = 0" "slots s 0 = Some me" "slots s 1 = None" "slotOf s = 0" "self s = me" "\<not> looping s" "\<not> quitting s" "trace s = []" "timers s = []"
    "timerIdSet s = {}" "clock s = clk" "unat (timersCreated s) < 2 ^ 63" "wf_queues s" "timers_ok s" "items (funcs s) = []"
    "items (funcsOnQuit s) = []" "timerfd_watched s"
proof -
  obtain sl wl created tfd wfd where m: "mk_EventLoop me 0 sl clk wl created tfd wfd = Inr s" "sl 1 = None"
      "unat created < 2 ^ 63"
    using assms by (auto simp: fixture_def SetUp_def)
  show "loop_ok (s\<lparr>looping := True, quitting := False\<rparr>)" "serves own_cbs kInitEventListSize (disps s, pollr s)"
    by (rule new_loop_ok [OF m(1)])+
  show "threadId s = 0" by (rule new_loop_ok [OF m(1)])
  show "slots s 0 = Some me" "slots s 1 = None" "slotOf s = 0" "self s = me" "\<not> looping s" "\<not> quitting s" "trace s = []" "timers s = []"
    "timerIdSet s = {}" "clock s = clk" "unat (timersCreated s) < 2 ^ 63" "wf_queues s" "items (funcs s) = []"
    "items (funcsOnQuit s) = []"
    using m by (auto simp: mk_EventLoop_def Let_def outcome_simps timerq.defs mk_timerq_def mpsc.contents_new mpsc.wf_new wf_queues_def)
  show "timerfd_watched s" by (rule new_loop_watched [OF m(1)])
  show "timers_ok s" using new_loop_waits(1) [OF m(1)] by (simp add: waiting_def)
qed

text \<open>A closure that makes no calls, as those of the tests.\<close>

abbreviation still :: program where
  "still \<equiv> (\<lambda>_. [])"

text \<open>
  The test \<^verbatim>\<open>RunOnQuit\<close> ends the process: its thread calls \<^verbatim>\<open>loop\<close> without having taken the loop
  over, whatever else happens and whenever the main thread quits the loop; the closure that the
  test expects to run does not.
\<close>

theorem RunOnQuit_test_exits:
  assumes "fixture clk me s"
  shows "\<exists>s'. test_RunOnQuit still n k f early rs s = ((s', Some ProcessExit), False)"
proof -
  note s = fixtureD [OF assms]
  have w: "wf_mpsc (funcsOnQuit s)" using s(15) by (simp add: wf_queues_def)
  obtain q where q: "enqueue (Some f) (funcsOnQuit s) = Inr q" using enqueue_total [OF w] by auto
  define s1 where "s1 = (if early then loop_quit 0 (s\<lparr>funcsOnQuit := q\<rparr>) else s\<lparr>funcsOnQuit := q\<rparr>)"
  have "exec still 0 n ([RunOnQuit (Some f)] @ (if early then [Quit] else [])) s = (s1, None)"
    using q by (cases early) (simp_all add: exec_simple andThen_def runOnQuit_def s1_def)
  moreover have "loop still 1 n k rs s1 = (s1, Some ProcessExit)" "trace s1 = []"
    using s(3,8,10) by (auto simp: loop_def isInLoopThread_def s1_def loop_quit_def Let_def)
  ultimately show ?thesis by (simp add: test_RunOnQuit_def Let_def)
qed

text \<open>
  A test whose thread does not take the loop over leaves the slot of the main thread set, so
  that the fixture of the next test in the process ends it.
\<close>

theorem fixture_only_once:
  assumes "fixture clk me s" and "tfd \<ge> 0" and "wfd \<ge> 0"
    and "t \<in> {test_ConstructorAndDestructor, test_RunInLoopSameThread still (Suc n) f, test_IsInLoopThread}"
  shows "\<exists>s1 s2. t s = ((s1, None), True) \<and> TearDown s1 = (s2, None) \<and>
    SetUp me' (slots s2) clk' wl' created' tfd wfd = Inl ProcessExit"
proof -
  note s = fixtureD [OF assms(1)]
  have slot: "SetUp me' sl clk' wl' created' tfd wfd = Inl ProcessExit" if "sl 0 = Some me" for sl
    using that assms(2,3)
    by (simp add: SetUp_def mk_EventLoop_def open_timerfd_def enableReading_def loop_updateEventDispatcher_def
        registerEventDispatcher_def poller_assertInLoopThread_def setReadCallback_def
        mk_EventDispatcher_def mk_EpollPoller_def poller_states Let_def)
  obtain s1 where s1: "t s = ((s1, None), True)" "slots s1 = slots s" "looping s1 = looping s" "threadId s1 = threadId s"
      "disps s1 = disps s" "pollr s1 = pollr s" "self s1 = self s" "wf_queues s1"
  proof -
    have "\<exists>s1. t s = ((s1, None), True) \<and> slots s1 = slots s \<and> looping s1 = looping s \<and> threadId s1 = threadId s \<and>
        disps s1 = disps s \<and> pollr s1 = pollr s \<and> self s1 = self s \<and> wf_queues s1"
      using assms(4) s(3,8,10,15)
      by (auto simp: test_ConstructorAndDestructor_def test_RunInLoopSameThread_def test_IsInLoopThread_def isRunning_def
          isInLoopThread_def loop_quit_def wf_queues_def Let_def)
    then show ?thesis using that by blast
  qed
  have "\<not> isRunning s1" using s1(3) s(8) by (simp add: isRunning_def)
  then have "TearDown s1 = delete_EventLoop 0 s1" by (simp add: TearDown_def andThen_def)
  moreover have "timerfd_watched s1" using s(19) s1(5-7) by (simp add: timerfd_watched_def)
  then obtain s3 where "delete_EventLoop 0 s1 = (s3, None)" "slots s3 = slots s1"
    using delete_result [OF s1(8)] s1(3) s(8) by blast
  ultimately show ?thesis using s1(1,2) s(4) slot by fastforce
qed

text \<open>
  A round in which the timer descriptor becomes readable at time \<open>e\<close>, and one in which the main thread
  quits the loop.
\<close>

definition timer_fires :: "int \<Rightarrow> round" where
  "timer_fires e = \<lparr>others = [], returns_at = e, answer = WaitEvents [(POLLIN, timer_addr)]\<rparr>"

definition main_quits :: "int \<Rightarrow> round" where
  "main_quits c = \<lparr>others = [(0, c, [Quit])], returns_at = c, answer = WaitEvents [(POLLIN, wake_addr)]\<rparr>"

text \<open>A round in which the wake-up descriptor becomes readable.\<close>

definition woken :: "int \<Rightarrow> round" where
  "woken b = \<lparr>others = [], returns_at = b, answer = WaitEvents [(POLLIN, wake_addr)]\<rparr>"

section \<open>A loop that does not run yet\<close>

text \<open>
  The scheduler \<open>a\<close> is the abstraction of a loop that no thread runs.  Asking for timers, taking
  the loop over and running it follow the scheduler.
\<close>

definition at_rest :: "sched \<Rightarrow> eloop \<Rightarrow> bool" where
  "at_rest a s \<longleftrightarrow> \<not> looping s \<and> sim (disps s, pollr s) (threadId s) [] {} (s\<lparr>looping := True\<rparr>) a \<and>
     serves own_cbs kInitEventListSize (disps s, pollr s)"

definition fresh_sched :: "eloop \<Rightarrow> sched" where
  "fresh_sched s = \<lparr>alarms = {#}, todo = [], todoOnQuit = [], made = unat (timersCreated s), stopped = False,
     stime = clock s, swall = wall s, didRun = []\<rparr>"

lemma fixture_at_rest:
  assumes "fixture clk me s"
  shows "at_rest (fresh_sched s) s"
proof -
  note s = fixtureD [OF assms]
  have "s\<lparr>looping := True, quitting := False\<rparr> = s\<lparr>looping := True\<rparr>" using s(9) by simp
  then have "loop_ok (s\<lparr>looping := True\<rparr>)" using s(1) by simp
  moreover have "sched_of (s\<lparr>looping := True\<rparr>) = fresh_sched s"
    using s(9-11,17,18) by (simp add: sched_of_def fresh_sched_def)
  ultimately show ?thesis using s(2,8) by (simp add: at_rest_def loop_ok_def)
qed

lemma addTimer_looping:
  "addTimer th cb w iv (s\<lparr>looping := b\<rparr>) = (case addTimer th cb w iv s of (s', e) \<Rightarrow> (s'\<lparr>looping := b\<rparr>, e))"
  by (simp add: addTimer_def mk_Timer_def runInLoop_def run_timer_task_def isInLoopThread_def addTimerInLoop_def
      insert_timer_def resetTimerfd_def queueInLoop_def wakeup_def Let_def split: sum.split)

lemma addTimer_frame:
  "addTimer th cb w iv s = (s', None) \<Longrightarrow> looping s' = looping s \<and> threadId s' = threadId s \<and> slots s' = slots s \<and>
     disps s' = disps s \<and> pollr s' = pollr s"
  by (auto simp: addTimer_def mk_Timer_def runInLoop_def run_timer_task_def isInLoopThread_def addTimerInLoop_def
      insert_timer_def resetTimerfd_def queueInLoop_def wakeup_def Let_def split: sum.splits if_splits)

lemma addTimer_at_rest:
  assumes "at_rest a s" and "Suc (made a) < 2 ^ 64"
  shows "\<exists>s'. addTimer th cb w iv s = (s', None) \<and> at_rest (s_timer (th = threadId s) cb w iv a) s' \<and>
    threadId s' = threadId s \<and> slots s' = slots s"
proof -
  obtain s1 where s1: "addTimer th cb w iv (s\<lparr>looping := True\<rparr>) = (s1, None)"
      "sim (disps s, pollr s) (threadId s) [] {} s1 (s_timer (th = threadId s) cb w iv a)"
    using sim_addTimer [OF _ assms(2)] assms(1) unfolding at_rest_def by blast
  obtain s' where s': "addTimer th cb w iv s = (s', None)" "s1 = s'\<lparr>looping := True\<rparr>"
    using s1(1) by (auto simp: addTimer_looping split: prod.splits)
  show ?thesis using s1(2) s' addTimer_frame [OF s'(1)] assms(1)
    by (intro exI [of _ s']) (simp add: at_rest_def)
qed

lemma moved_at_rest:
  assumes "at_rest a s" and "threadId s \<noteq> th" and "slots s th = None"
  shows "\<exists>s'. moveToCurrentThread th s = (s', None) \<and> at_rest a s' \<and> threadId s' = th"
  using assms
  by (auto simp: at_rest_def moveToCurrentThread_def isRunning_def isInLoopThread_def sim_def wf_queues_def ids_ok_def)

text \<open>The end of a loop with no closures for it.\<close>

lemma loop_end_none:
  assumes "sim D 1 [] {} s a" and "todoOnQuit a = []" and "0 < k"
  shows "\<exists>s'. loop_end still 1 n k x (s\<lparr>looping := False\<rparr>) = (s', x) \<and> trace s' = didRun a"
proof -
  have "wf_queues (s\<lparr>looping := False\<rparr>)" "items (funcsOnQuit (s\<lparr>looping := False\<rparr>)) = map Some []"
    using assms(1,2) by (simp_all add: sim_def wf_queues_def)
  from run_quit_funcs_all [OF this, of still k 1 n] obtain q where
    "run_quit_funcs still 1 n k (s\<lparr>looping := False\<rparr>) = (s\<lparr>looping := False, funcsOnQuit := q\<rparr>, None)"
    using assms(3) by auto
  then show ?thesis using assms(1) by (simp add: loop_end_def sim_def)
qed

lemma loop_at_rest:
  assumes "at_rest a s" and "threadId s = 1" and "0 < k"
    and "\<forall>r \<in> set rs. calm_round 1 own_cbs kInitEventListSize r"
    and det: "\<And>y. s_turns still n k (map (moment_of own_cbs) rs) (a\<lparr>stopped := False\<rparr>) y \<Longrightarrow>
      snd y = None \<and> didRun (fst y) = fs \<and> made (fst y) < 2 ^ 64 \<and> todoOnQuit (fst y) = []"
  shows "\<exists>s'. loop still 1 n k rs s = (s', None) \<and> trace s' = fs"
proof -
  define s0 where "s0 = s\<lparr>looping := True, quitting := False\<rparr>"
  have "sim (disps s, pollr s) 1 [] {} s0 (a\<lparr>stopped := False\<rparr>)"
    using assms(1,2) by (simp add: at_rest_def s0_def sim_def wf_queues_def ids_ok_def)
  moreover have "plain still" by (simp add: plain_def)
  ultimately obtain y where y: "s_turns still n k (map (moment_of own_cbs) rs) (a\<lparr>stopped := False\<rparr>) y"
      "made (fst y) < 2 ^ 64 \<longrightarrow> (\<exists>s' D'. loop_rounds still 1 n k rs s0 = (s', snd y) \<and>
        sim D' 1 [] {} s' (fst y) \<and> serves own_cbs kInitEventListSize D')"
    using sim_turns [OF _ _ _ assms(4)] assms(1) unfolding at_rest_def by blast
  then obtain s1 D where s1: "loop_rounds still 1 n k rs s0 = (s1, None)" "sim D 1 [] {} s1 (fst y)"
    using det by auto
  have "loop still 1 n k rs s = loop_end still 1 n k None (s1\<lparr>looping := False\<rparr>)"
    using s1(1) assms(1,2) by (simp add: loop_def isInLoopThread_def s0_def at_rest_def del: loop_rounds.simps)
  then show ?thesis using loop_end_none [OF s1(2) _ assms(3), of n None] det [OF y(1)] by simp
qed

lemmas turn_simps = s_turns_simps s_turn_simps s_events_simps s_event_simps moment_of_def reported_def own_cbs_def
  timer_addr_def wake_addr_def s_at_def due_order_def s_func_def s_expire_def s_renew_def timer_run_def andThen_def

lemma woken_calm: "calm_round th own_cbs kInitEventListSize (woken b)"
    "0 < th \<Longrightarrow> calm_round th own_cbs kInitEventListSize ((woken b)\<lparr>others := [(0, t, [RunAt u cb])]\<rparr>)"
  by (auto simp: calm_round_def woken_def reported_def own_cbs_def kInitEventListSize_def plain_cmd_def)

lemma test_rounds_calm: "calm_round th own_cbs kInitEventListSize (timer_fires e)"
    "0 < th \<Longrightarrow> calm_round th own_cbs kInitEventListSize (main_quits c)"
  by (auto simp: calm_round_def timer_fires_def main_quits_def reported_def own_cbs_def kInitEventListSize_def plain_cmd_def)

section \<open>The timer tests\<close>

text \<open>A worker's loop with one timer, whose time comes before the main thread quits.\<close>

lemma one_timer_runs:
  assumes "at_rest a s" and "threadId s = 1" and "made a < 2 ^ 64"
    and a: "alarms a = {#t#}" "todo a = []" "todoOnQuit a = []" "didRun a = []"
    and t: "tcallback t = Some f" "\<not> trepeat t" "twhen t \<le> e"
  shows "\<exists>s'. loop still 1 n (Suc (Suc k)) [timer_fires e, main_quits c] s = (s', None) \<and> trace s' = [f]"
proof (rule loop_at_rest [OF assms(1,2)])
  fix y
  assume "s_turns still n (Suc (Suc k)) (map (moment_of own_cbs) [timer_fires e, main_quits c]) (a\<lparr>stopped := False\<rparr>) y"
  then show "snd y = None \<and> didRun (fst y) = [f] \<and> made (fst y) < 2 ^ 64 \<and> todoOnQuit (fst y) = []"
    using a t assms(3) by (auto simp: turn_simps timer_fires_def main_quits_def)
qed (simp_all add: test_rounds_calm)

text \<open>The main thread has asked the loop of the fixture for a timer that runs \<open>d\<close> microseconds later.\<close>

lemma main_asks:
  assumes "fixture clk me s"
  shows "\<exists>s1 t. exec still 0 n [RunAt (wall s + d) (Some f)] s = (s1, None) \<and>
    at_rest ((fresh_sched s)\<lparr>made := Suc (unat (timersCreated s)), alarms := {#t#}\<rparr>) s1 \<and>
    threadId s1 = 0 \<and> slots s1 1 = None \<and> tcallback t = Some f \<and> \<not> trepeat t \<and> twhen t = clk + d * 1000"
proof -
  note s = fixtureD [OF assms]
  obtain s1 where s1: "addTimer 0 (Some f) (clock s + d * 1000) 0 s = (s1, None)"
      "at_rest (s_timer (0 = threadId s) (Some f) (clock s + d * 1000) 0 (fresh_sched s)) s1"
      "threadId s1 = threadId s" "slots s1 = slots s"
    using addTimer_at_rest [OF fixture_at_rest [OF assms]] s(14) unfolding fresh_sched_def by fastforce
  then have "exec still 0 n [RunAt (wall s + d) (Some f)] s = (s1, None)"
    by (simp add: exec_simple andThen_def runAt_def Let_def)
  then show ?thesis using s1(2-4) s(3,5,13)
    by (intro exI [of _ s1] exI [of _ "new_timer (Some f) (clock s + d * 1000) 0 (fresh_sched s)"])
      (simp add: s_timer_def Let_def new_timer_def fresh_sched_def)
qed

lemma asked_worker:
  assumes "fixture clk me s" and "clk + d * 1000 \<le> e"
  shows "\<exists>s1 s2. exec still 0 n [RunAt (wall s + d) (Some f)] s = (s1, None) \<and> \<not> looping s1 \<and>
    worker still n (Suc (Suc k)) [timer_fires e, main_quits c] s1 = (s2, None) \<and> trace s2 = [f]"
proof -
  note s = fixtureD [OF assms(1)]
  define a where "a t = (fresh_sched s)\<lparr>made := Suc (unat (timersCreated s)), alarms := {#t#}\<rparr>" for t :: "nat timer"
  obtain s1 t where s1: "exec still 0 n [RunAt (wall s + d) (Some f)] s = (s1, None)" "at_rest (a t) s1"
      "threadId s1 = 0" "slots s1 1 = None" and t: "tcallback t = Some f" "\<not> trepeat t" "twhen t = clk + d * 1000"
    using main_asks [OF assms(1)] unfolding a_def by blast
  obtain s2 where s2: "moveToCurrentThread 1 s1 = (s2, None)" "at_rest (a t) s2" "threadId s2 = 1"
    using moved_at_rest [OF s1(2), of 1] s1(3,4) by auto
  have m: "made (a t) < 2 ^ 64" using s(14) by (simp add: a_def)
  obtain s3 where s3: "loop still 1 n (Suc (Suc k)) [timer_fires e, main_quits c] s2 = (s3, None)" "trace s3 = [f]"
    using one_timer_runs [OF s2(2,3) m _ _ _ _ t(1,2), of e n k c] t(3) assms(2) by (simp add: a_def fresh_sched_def) blast
  moreover have "\<not> looping s1" using s1(2) by (simp add: at_rest_def)
  ultimately show ?thesis using s1(1) s2(1) by (simp add: worker_def)
qed

text \<open>
  C37: the tests \<^verbatim>\<open>RunAfterTimer\<close> and \<^verbatim>\<open>InvalidateTimer\<close> in the same environment, in which the
  timer's time comes before the main thread quits the loop.  The first finds that its closure ran;
  in the second the closure runs as well, although the test has invalidated the timer, and its
  expectation fails.
\<close>

theorem InvalidateTimer_test_fails:
  assumes "fixture clk me s" and "clk + 100000000 \<le> e"
  shows "\<exists>s1 s2. test_RunAfterTimer still n (Suc (Suc k)) f [timer_fires e, main_quits c] s = ((s1, None), True) \<and>
    test_InvalidateTimer still n (Suc (Suc k)) f [timer_fires e, main_quits c] s = ((s2, None), False)"
proof -
  obtain s1 s2 where s1: "exec still 0 n [RunAt (wall s + 100000) (Some f)] s = (s1, None)" "\<not> looping s1"
      "worker still n (Suc (Suc k)) [timer_fires e, main_quits c] s1 = (s2, None)" "trace s2 = [f]"
    using asked_worker [OF assms(1), of 100000 e n f k c] assms(2) by (simp del: exec.simps) blast
  then have "runAfter 0 100000 (Some f) s = (s1, None)" by (simp add: exec_simple runAfter_def andThen_def split: prod.splits option.splits)
  moreover have "invalidateTimer 0 i s1 = (s1, None)" for i using s1(2) by (simp add: invalidateTimer_def isRunning_def)
  ultimately show ?thesis using s1(3,4)
    by (simp add: test_RunAfterTimer_def test_InvalidateTimer_def exec_simple Let_def)
qed

text \<open>
  The test \<^verbatim>\<open>RunAtTimer\<close> passes wherever its main thread asks for the timer, when the timer's time
  comes before the thread quits the loop: added at once by the main thread, which the loop still
  belongs to; queued and added in the first round; or queued in a round.
\<close>

definition at_rounds :: "asked_at \<Rightarrow> int \<Rightarrow> int \<Rightarrow> int \<Rightarrow> round list" where
  "at_rounds w b e c = (if w = BeforeMove then [] else [woken b]) @ [timer_fires e, main_quits c]"

theorem RunAtTimer_test_passes:
  assumes "fixture clk me s" and "w \<in> {BeforeMove, BeforeLoop, InRound 0 t}"
    and "(case w of InRound i t \<Rightarrow> t | _ \<Rightarrow> clk) + 1000000000 \<le> e"
  shows "\<exists>s'. test_RunAtTimer still n (Suc (Suc k)) f w (at_rounds w b e c) s = ((s', None), True)"
proof -
  note s = fixtureD [OF assms(1)]
  let ?a = "fresh_sched s" and ?k = "Suc (Suc k)"
  obtain s1 where s1: "moveToCurrentThread 1 s = (s1, None)" "at_rest ?a s1" "threadId s1 = 1"
    using moved_at_rest [OF fixture_at_rest [OF assms(1)], of 1] s(3,5) by auto
  have m: "Suc (made ?a) < 2 ^ 64" using s(14) by (simp add: fresh_sched_def)
  consider "w = BeforeMove" | "w = BeforeLoop" | "w = InRound 0 t" using assms(2) by blast
  then show ?thesis
  proof cases
    case 1
    then obtain s1 s2 where "exec still 0 n [RunAt (wall s + 1000000) (Some f)] s = (s1, None)"
        "worker still n ?k [timer_fires e, main_quits c] s1 = (s2, None)" "trace s2 = [f]"
      using asked_worker [OF assms(1), of 1000000 e n f k c] assms(3) by (simp del: exec.simps) blast
    then show ?thesis using 1 by (simp add: test_RunAtTimer_def at_rounds_def Let_def del: exec.simps)
  next
    case 2
    let ?t = "new_timer (Some f) (clock s1 + 1000000000) 0 ?a"
    obtain s2 where s2: "addTimer 0 (Some f) (clock s1 + 1000000 * 1000) 0 s1 = (s2, None)"
        "at_rest (s_timer False (Some f) (clock s1 + 1000000 * 1000) 0 ?a) s2" "threadId s2 = 1"
      using addTimer_at_rest [OF s1(2) m, of 0] s1(3) by fastforce
    have cw: "clock s1 = clk" "wall s1 = wall s"
      using s1(2) s(13) by (simp_all add: at_rest_def sim_def fresh_sched_def)
    have "exec still 0 n [RunAt (wall s + 1000000) (Some f)] s1 = (s2, None)"
      using s2(1) cw by (simp add: exec_simple andThen_def runAt_def Let_def)
    moreover have "\<exists>s'. loop still 1 n ?k [woken b, timer_fires e, main_quits c] s2 = (s', None) \<and> trace s' = [f]"
    proof (rule loop_at_rest [OF s2(2,3)])
      fix y
      assume "s_turns still n ?k (map (moment_of own_cbs) [woken b, timer_fires e, main_quits c])
        (s_timer False (Some f) (clock s1 + 1000000 * 1000) 0 ?a\<lparr>stopped := False\<rparr>) y"
      then show "snd y = None \<and> didRun (fst y) = [f] \<and> made (fst y) < 2 ^ 64 \<and> todoOnQuit (fst y) = []"
        using assms(3) m cw(1) 2
        by (auto simp: turn_simps timer_fires_def main_quits_def woken_def s_timer_def Let_def new_timer_def
            fresh_sched_def s_task_def)
    qed (simp_all add: test_rounds_calm woken_calm)
    ultimately show ?thesis using 2 s1(1)
      by (auto simp: test_RunAtTimer_def at_rounds_def Let_def andThen_def simp del: exec.simps)
  next
    case 3
    let ?r = "(woken b)\<lparr>others := [(0, t, [RunAt (wall s + 1000000) (Some f)])]\<rparr>"
    have w: "swall ?a = wall s" by (simp add: fresh_sched_def)
    have "\<exists>s'. loop still 1 n ?k [?r, timer_fires e, main_quits c] s1 = (s', None) \<and> trace s' = [f]"
    proof (rule loop_at_rest [OF s1(2,3)])
      fix y
      assume "s_turns still n ?k (map (moment_of own_cbs) [?r, timer_fires e, main_quits c]) (?a\<lparr>stopped := False\<rparr>) y"
      then show "snd y = None \<and> didRun (fst y) = [f] \<and> made (fst y) < 2 ^ 64 \<and> todoOnQuit (fst y) = []"
        using assms(3) m 3
        by (auto simp: turn_simps timer_fires_def main_quits_def woken_def s_timer_def Let_def new_timer_def
            fresh_sched_def s_task_def)
    qed (simp_all add: test_rounds_calm woken_calm)
    then show ?thesis using 3 s1(1)
      by (auto simp: test_RunAtTimer_def at_rounds_def Let_def worker_def andThen_def woken_def simp del: loop_rounds.simps)
  qed
qed

section \<open>The test of a repeating timer\<close>

text \<open>The timer of the test, due at time \<open>due\<close>, after \<open>m\<close> runs of its closure.\<close>

definition ticking :: "nat \<Rightarrow> nat \<Rightarrow> int \<Rightarrow> sched \<Rightarrow> bool" where
  "ticking f m due a \<longleftrightarrow>
     (\<exists>t. alarms a = {#t#} \<and> tcallback t = Some f \<and> trepeat t \<and> tinterval t = 100000 \<and> twhen t = due) \<and>
     todo a = [] \<and> todoOnQuit a = [] \<and> didRun a = replicate m f \<and> stopped a = (3 \<le> m)"

lemma plain_counting: "plain (counting f m)"
  by (simp add: plain_def counting_def plain_cmd_def)

lemma due_none:
  assumes "\<forall>t \<in># alarms a. stime a < twhen t"
  shows "due_order a ds \<longleftrightarrow> ds = []"
proof -
  have none: "{#t \<in># alarms a. twhen t \<le> stime a#} = {#}" using assms by (auto simp: filter_mset_eq_conv)
  show ?thesis unfolding due_order_def none by (auto simp: pq_sorted_def)
qed

lemma count_replicate [simp]: "count_list (replicate m f) f = m"
  by (induction m) simp_all

lemma none_due_events:
  "s_events prog n cbs a r \<Longrightarrow> set cbs \<subseteq> {HandleRead, WakeupRead} \<Longrightarrow> \<forall>t \<in># alarms a. stime a < twhen t \<Longrightarrow> r = (a, None)"
proof (induction rule: s_events.induct)
  case (next_one cb a b cbs r)
  then have "b = a" by (auto simp: s_event_simps due_none s_expire_def s_renew_def)
  with next_one show ?case by auto
next
  case (thrown cb a b e cbs)
  then show ?case by (auto simp: s_event_simps due_none s_expire_def)
qed simp

text \<open>A firing of the timer, and all events of a round.\<close>

lemma tick_once:
  assumes "ticking f m due a" and "m < 3" and "due \<le> stime a" and "s_event (counting f (Suc m)) n HandleRead a (b, x)"
  shows "x = None \<and> ticking f (Suc m) (stime a + 100000000) b \<and> stime b = stime a \<and> made b = made a"
proof -
  obtain t where t: "alarms a = {#t#}" "tcallback t = Some f" "trepeat t" "tinterval t = 100000" "twhen t = due"
    using assms(1) by (auto simp: ticking_def)
  have d: "due_order a ds \<longleftrightarrow> ds = [t]" for ds
    using t(1,5) assms(3) by (auto simp: due_order_def pq_sorted_def)
  have "3 \<le> Suc m \<longleftrightarrow> m = 2" using assms(2) by linarith
  then show ?thesis using assms t
    by (auto simp: s_event_simps d s_expire_def s_renew_def timer_run_def s_func_def counting_def ticking_def restart_def
        andThen_def replicate_append_same split: if_splits)
qed

lemma ticks_events:
  assumes "ticking f m due a" and "m < 3"
    and "s_events (counting f (Suc m)) n cbs a r" and "set cbs \<subseteq> {HandleRead, WakeupRead}"
  shows "\<exists>b. r = (b, None) \<and> made b = made a \<and>
    (if HandleRead \<in> set cbs \<and> due \<le> stime a then ticking f (Suc m) (stime a + 100000000) b else ticking f m due b)"
proof (cases "due \<le> stime a")
  case False
  then have "\<forall>t \<in># alarms a. stime a < twhen t" using assms(1) by (auto simp: ticking_def)
  then have "r = (a, None)" using none_due_events assms(3,4) by blast
  then show ?thesis using assms(1) False by simp
next
  case due: True
  show ?thesis
    using assms(3,4)
  proof (induction cbs)
    case Nil
    then show ?case using assms(1) by (simp add: s_events_simps)
  next
    case (Cons cb cbs)
    show ?case
    proof (cases "cb = HandleRead")
      case False
      then have "s_events (counting f (Suc m)) n cbs a r" "cb = WakeupRead"
        using Cons.prems by (auto simp: s_events_simps s_event_simps)
      then show ?thesis using Cons.IH Cons.prems(2) by auto
    next
      case True
      obtain b x where b: "s_event (counting f (Suc m)) n HandleRead a (b, x)"
          "x = None \<longrightarrow> s_events (counting f (Suc m)) n cbs b r"
        using Cons.prems(1) True by (auto simp: s_events_simps)
      note t = tick_once [OF assms(1,2) due b(1)]
      have "\<forall>u \<in># alarms b. stime b < twhen u" using t by (auto simp: ticking_def)
      then have "r = (b, None)" using none_due_events b(2) t Cons.prems(2) by auto
      then show ?thesis using t due True by simp
    qed
  qed
qed

text \<open>The firings among rounds: those that find the timer due, which then is due again 0.1 seconds later.\<close>

fun firings :: "int \<Rightarrow> round list \<Rightarrow> nat" where
  "firings due [] = 0"
| "firings due (r # rs) =
     (if timer_addr \<in> set (reported r) \<and> due \<le> returns_at r then Suc (firings (returns_at r + 100000000) rs)
      else firings due rs)"

lemma counted_rounds_tick:
  "sim D 1 [] {} s a \<Longrightarrow> serves own_cbs N D \<Longrightarrow> ticking f m due a \<Longrightarrow> m \<le> 3 \<Longrightarrow> made a < 2 ^ 64 \<Longrightarrow>
   \<forall>r \<in> set rs. calm_round 1 own_cbs N r \<and> others r = [] \<Longrightarrow>
   \<exists>s' D' a'. counted_rounds n (Suc k) f rs s = (s', if 3 \<le> m + firings due rs then None else Some NotReturned) \<and>
     sim D' 1 [] {} s' a' \<and> didRun a' = replicate (min 3 (m + firings due rs)) f \<and> todoOnQuit a' = []"
proof (induction rs arbitrary: s a D m due)
  case Nil
  have "quitting s = (3 \<le> m)" "didRun a = replicate m f" "todoOnQuit a = []"
    using Nil.prems(1,3) by (auto simp: sim_def ticking_def)
  then show ?case using Nil.prems(1,4) by (intro exI [of _ s] exI [of _ D] exI [of _ a]) (auto simp: min_def)
next
  case (Cons r rs)
  have q: "quitting s = (3 \<le> m)" "trace s = replicate m f" "didRun a = replicate m f" "todoOnQuit a = []"
    using Cons.prems(1,3) by (auto simp: sim_def ticking_def)
  show ?case
  proof (cases "3 \<le> m")
    case True
    then show ?thesis using q Cons.prems(1,4) by (intro exI [of _ s] exI [of _ D] exI [of _ a]) auto
  next
    case False
    let ?p = "counting f (Suc m)" and ?e = "returns_at r" and ?m = "moment_of own_cbs r"
    define a1 where "a1 = a\<lparr>stime := ?e\<rparr>"
    have calm: "calm_round 1 own_cbs N r" "others r = []" using Cons.prems(6) by auto
    have at: "s_at ?p n ?m a = a1" using calm(2) by (simp add: s_at_def moment_of_def a1_def)
    have dom: "\<forall>x \<in> set (reported r). x = timer_addr \<or> x = wake_addr"
      using calm(1) by (auto simp: calm_round_def list_all_iff own_cbs_def split: if_splits)
    then have cbs: "set (mevents ?m) \<subseteq> {HandleRead, WakeupRead}" "HandleRead \<in> set (mevents ?m) \<longleftrightarrow> timer_addr \<in> set (reported r)"
      by (auto simp: moment_of_def own_cbs_def timer_addr_def wake_addr_def image_iff)
    define hit where "hit \<longleftrightarrow> timer_addr \<in> set (reported r) \<and> due \<le> ?e"
    have "ticking f m due a1" using Cons.prems(3) by (simp add: a1_def ticking_def)
    note ev = ticks_events [OF this _ _ cbs(1), of n]
    obtain y where y: "s_turn ?p n (Suc k) ?m a y" "made (fst y) < 2 ^ 64 \<longrightarrow>
        (\<exists>s' D'. loop_body ?p 1 n (Suc k) r s = (s', snd y) \<and> sim D' 1 [] {} s' (fst y) \<and> serves own_cbs N D')"
      using sim_turn [OF plain_counting Cons.prems(1,2) calm(1)] by blast
    obtain b where b: "y = (b, None)" "made b = made a"
        "if hit then ticking f (Suc m) (?e + 100000000) b else ticking f m due b"
      using y(1)
    proof cases
      case (handled b)
      then show ?thesis using that [of b] ev [of "(b, None)"] False
        by (simp add: at cbs(2) hit_def a1_def ticking_def split: if_splits)
    next
      case (thrown b e)
      then show ?thesis using ev [of "(b, Some e)"] False by (simp add: at)
    qed
    obtain s1 D1 where s1: "loop_body ?p 1 n (Suc k) r s = (s1, None)" "sim D1 1 [] {} s1 b" "serves own_cbs N D1"
      using y(2) b(1,2) Cons.prems(5) by auto
    have step: "counted_rounds n (Suc k) f (r # rs) s = counted_rounds n (Suc k) f rs s1"
      using q(1,2) False s1(1) by simp
    have rest: "\<forall>r \<in> set rs. calm_round 1 own_cbs N r \<and> others r = []" "made b < 2 ^ 64"
      using Cons.prems(5,6) b(2) by auto
    show ?thesis
    proof (cases hit)
      case True
      then show ?thesis unfolding step
        using Cons.IH [OF s1(2,3) _ _ rest(2,1), of "Suc m" "?e + 100000000"] b(3) False by (simp add: hit_def)
    next
      case no: False
      then have "firings due (r # rs) = firings due rs" by (auto simp: hit_def)
      then show ?thesis unfolding step
        using Cons.IH [OF s1(2,3) _ _ rest(2,1), of m due] b(3) False no by (simp del: firings.simps)
    qed
  qed
qed

text \<open>
  The test \<^verbatim>\<open>RunEveryTimer\<close>: the closure is run at the first three firings of the timer and never
  again, and the thread that the test joins ends exactly when there are three; then the count is what
  the test expects.
\<close>

theorem RunEveryTimer_test_counts:
  assumes "fixture clk me s" and "\<forall>r \<in> set rs. calm_round 1 own_cbs kInitEventListSize r \<and> others r = []"
  shows "\<exists>s'. test_RunEveryTimer n (Suc k) f rs s =
      ((s', if 3 \<le> firings (clk + 100000000) rs then None else Some NotReturned), 3 \<le> firings (clk + 100000000) rs) \<and>
    count_list (trace s') f = min 3 (firings (clk + 100000000) rs)"
proof -
  note s = fixtureD [OF assms(1)]
  let ?a = "fresh_sched s" and ?n = "firings (clk + 100000000) rs"
  have m: "Suc (made ?a) < 2 ^ 64" using s(14) by (simp add: fresh_sched_def)
  define a where "a = s_timer True (Some f) (clk + 100000000) 100000 ?a"
  obtain s1 where s1: "addTimer 0 (Some f) (clk + 100000 * 1000) 100000 s = (s1, None)" "at_rest a s1"
      "threadId s1 = 0" "slots s1 1 = None"
    using addTimer_at_rest [OF fixture_at_rest [OF assms(1)] m, of 0 "Some f" "clk + 100000000" 100000] s(3,5)
    by (auto simp: a_def)
  have ask: "exec still 0 n [RunEvery 100000 (Some f)] s = (s1, None)"
    using s1(1) s(13) by (simp add: exec_simple andThen_def runEvery_def)
  obtain s2 where s2: "moveToCurrentThread 1 s1 = (s2, None)" "at_rest a s2" "threadId s2 = 1"
    using moved_at_rest [OF s1(2), of 1] s1(3,4) by auto
  define s3 where "s3 = s2\<lparr>looping := True, quitting := False\<rparr>"
  have t: "ticking f 0 (clk + 100000000) a" "made a < 2 ^ 64" "\<not> stopped a"
    using m by (simp_all add: a_def s_timer_def Let_def new_timer_def ticking_def fresh_sched_def)
  have s3: "sim (disps s2, pollr s2) 1 [] {} s3 a" "serves own_cbs kInitEventListSize (disps s2, pollr s2)" "\<not> looping s2"
    using s2(2,3) t(3) by (auto simp: at_rest_def s3_def sim_def wf_queues_def ids_ok_def)
  obtain s4 D a' where s4: "counted_rounds n (Suc k) f rs s3 = (s4, if 3 \<le> ?n then None else Some NotReturned)"
      "sim D 1 [] {} s4 a'" "didRun a' = replicate (min 3 ?n) f" "todoOnQuit a' = []"
    using counted_rounds_tick [OF s3(1,2) t(1) _ t(2) assms(2), of n k, unfolded add_0] by blast
  obtain s5 where s5: "loop_end still 1 n (Suc k) None (s4\<lparr>looping := False\<rparr>) = (s5, None)" "trace s5 = didRun a'"
    using loop_end_none [OF s4(2,4)] by blast
  have "trace s4 = didRun a'" using s4(2) by (simp add: sim_def)
  moreover have "counted_loop n (Suc k) f rs s2 =
      (if 3 \<le> ?n then loop_end still 1 n (Suc k) None (s4\<lparr>looping := False\<rparr>) else (s4, Some NotReturned))"
    using s4(1) s3(3) s2(3) by (simp add: counted_loop_def isInLoopThread_def s3_def)
  ultimately show ?thesis using ask s2(1) s5 s4(3)
    by (auto simp: test_RunEveryTimer_def Let_def)
qed

text \<open>Rounds in which nothing is due or queued, and nobody quits the loop.\<close>

lemma idle_turns:
  "s_turns prog n (Suc k) ms a y \<Longrightarrow> alarms a = {#} \<Longrightarrow> todo a = [] \<Longrightarrow> \<not> stopped a \<Longrightarrow>
   \<forall>m \<in> set ms. mcalls m = [] \<and> set (mevents m) \<subseteq> {HandleRead, WakeupRead} \<Longrightarrow>
   snd y = Some NotReturned \<and> didRun (fst y) = didRun a \<and> made (fst y) = made a"
proof (induction ms arbitrary: a)
  case (Cons m ms)
  define b where "b = a\<lparr>stime := mtime m\<rparr>"
  have at: "s_at prog n m a = b" using Cons.prems(5) by (simp add: s_at_def b_def)
  have ev: "r = (b, None)" if "s_events prog n (mevents m) b r" for r
    using none_due_events [OF that] Cons.prems(2,5) by (simp add: b_def)
  have "z = (b, None)" if "s_turn prog n (Suc k) m a z" for z
    using that Cons.prems(3) ev by (cases rule: s_turn.cases) (fastforce simp: at b_def)+
  then have "s_turns prog n (Suc k) ms b y" using Cons.prems(1,4) by (auto simp: s_turns_simps)
  from Cons.IH [OF this] Cons.prems show ?case by (simp add: b_def)
qed (simp add: s_turns_simps)

lemma quiet_moment:
  assumes "calm_round th own_cbs N r" and "others r = []"
  shows "mcalls (moment_of own_cbs r) = [] \<and> set (mevents (moment_of own_cbs r)) \<subseteq> {HandleRead, WakeupRead}"
  using assms by (auto simp: calm_round_def list_all_iff own_cbs_def moment_of_def split: if_splits)

text \<open>
  The test \<^verbatim>\<open>QueueInLoopDifferentThread\<close> passes when the main thread quits the loop in a round.  The
  main thread waits for the closure only, which has run before \<^verbatim>\<open>loop\<close> is called: when it quits the
  loop right then the request is lost, and the test hangs in \<^verbatim>\<open>join\<close>.
\<close>

theorem QueueInLoop_test_may_hang:
  assumes "fixture clk me s" and "\<forall>r \<in> set rs. calm_round 1 own_cbs kInitEventListSize r \<and> others r = []"
  shows "(\<exists>s'. test_QueueInLoopDifferentThread still (Suc n) (Suc k) f False [main_quits c] s = ((s', None), True)) \<and>
    (\<exists>s'. test_QueueInLoopDifferentThread still (Suc n) (Suc k) f True rs s = ((s', Some NotReturned), True))"
proof -
  note s = fixtureD [OF assms(1)]
  let ?a = "(fresh_sched s)\<lparr>didRun := [f]\<rparr>"
  obtain s1 where s1: "moveToCurrentThread 1 s = (s1, None)" "at_rest (fresh_sched s) s1" "threadId s1 = 1"
    using moved_at_rest [OF fixture_at_rest [OF assms(1)], of 1] s(3,5) by auto
  define s2 where "s2 = s1\<lparr>trace := trace s1 @ [f]\<rparr>"
  have s2: "exec still 1 (Suc n) [RunInLoop f] s1 = (s2, None)" "at_rest ?a s2" "threadId s2 = 1"
    using s1(2,3) by (auto simp: s2_def andThen_def isInLoopThread_def at_rest_def sim_def wf_queues_def ids_ok_def fresh_sched_def)
  have m: "made ?a < 2 ^ 64" using s(14) by (simp add: fresh_sched_def)
  have "\<exists>s'. loop still 1 (Suc n) (Suc k) [main_quits c] s2 = (s', None) \<and> trace s' = [f]"
  proof (rule loop_at_rest [OF s2(2,3)])
    fix y
    assume "s_turns still (Suc n) (Suc k) (map (moment_of own_cbs) [main_quits c]) (?a\<lparr>stopped := False\<rparr>) y"
    then show "snd y = None \<and> didRun (fst y) = [f] \<and> made (fst y) < 2 ^ 64 \<and> todoOnQuit (fst y) = []"
      using m by (auto simp: turn_simps main_quits_def fresh_sched_def)
  qed (simp_all add: test_rounds_calm)
  moreover have "\<exists>s'. loop still 1 (Suc n) (Suc k) rs (loop_quit 0 s2) = (s', Some NotReturned) \<and> trace s' = [f]"
  proof -
    define s3 where "s3 = (loop_quit 0 s2)\<lparr>looping := True, quitting := False\<rparr>"
    have q: "\<not> looping (loop_quit 0 s2)" "threadId (loop_quit 0 s2) = 1"
      using s2(2,3) by (simp_all add: loop_quit_def Let_def wakeup_def at_rest_def)
    have sim: "sim (disps s2, pollr s2) 1 [] {} s3 ?a" "serves own_cbs kInitEventListSize (disps s2, pollr s2)"
      using s2(2,3) by (auto simp: at_rest_def s3_def loop_quit_def Let_def wakeup_def sim_def wf_queues_def ids_ok_def fresh_sched_def)
    have "plain still" "\<forall>r \<in> set rs. calm_round 1 own_cbs kInitEventListSize r" using assms(2) by (simp_all add: plain_def)
    then obtain y where y: "s_turns still (Suc n) (Suc k) (map (moment_of own_cbs) rs) ?a y"
        "made (fst y) < 2 ^ 64 \<longrightarrow> (\<exists>s' D'. loop_rounds still 1 (Suc n) (Suc k) rs s3 = (s', snd y) \<and>
          sim D' 1 [] {} s' (fst y) \<and> serves own_cbs kInitEventListSize D')"
      using sim_turns [OF _ sim] by blast
    have "snd y = Some NotReturned \<and> didRun (fst y) = [f] \<and> made (fst y) = made ?a"
      using idle_turns [OF y(1)] quiet_moment assms(2) by (auto simp: fresh_sched_def)
    then obtain s4 D where "loop_rounds still 1 (Suc n) (Suc k) rs s3 = (s4, Some NotReturned)" "sim D 1 [] {} s4 (fst y)"
        "didRun (fst y) = [f]"
      using y(2) m by auto
    then show ?thesis using q by (auto simp: loop_def isInLoopThread_def s3_def sim_def simp del: loop_rounds.simps)
  qed
  ultimately show ?thesis using s1(1) s2(1)
    by (auto simp: test_QueueInLoopDifferentThread_def Let_def andThen_ok andThen_def simp del: exec.simps loop_rounds.simps)
qed

section \<open>Concrete runs\<close>

lemma a_fixture: "\<exists>s. fixture 0 1 s"
proof -
  obtain s :: eloop where "mk_EventLoop 1 0 Map.empty 0 0 0 5 6 = Inr s" using fresh_loop by blast
  then have "fixture 0 1 s"
    unfolding fixture_def SetUp_def by (intro exI [of _ Map.empty] exI [of _ 0] exI [of _ 5] exI [of _ 6]) simp
  then show ?thesis by blast
qed

theorem RunOnQuit_test_exits_witness:
  "\<exists>s s'. SetUp 1 Map.empty 0 0 0 5 6 = Inr s \<and> test_RunOnQuit still 0 9 4 True [] s = ((s', Some ProcessExit), False)"
proof -
  obtain s :: eloop where s: "mk_EventLoop 1 0 Map.empty 0 0 0 5 6 = Inr s" using fresh_loop by blast
  then have "fixture 0 1 s"
    unfolding fixture_def SetUp_def by (intro exI [of _ Map.empty] exI [of _ 0] exI [of _ 5] exI [of _ 6]) simp
  from RunOnQuit_test_exits [OF this] s show ?thesis by (auto simp: SetUp_def)
qed

theorem fixture_only_once_witness:
  "\<exists>s s1 s2. fixture 0 1 s \<and> test_IsInLoopThread s = ((s1, None), True) \<and> TearDown s1 = (s2, None) \<and>
     SetUp 2 (slots s2) 0 0 0 7 8 = Inl ProcessExit"
proof -
  obtain s where s: "fixture 0 1 s" using a_fixture by blast
  from fixture_only_once [OF s, of 7 8 test_IsInLoopThread 0 4 2 0 0 0] s show ?thesis by auto
qed

theorem InvalidateTimer_test_fails_witness:
  "\<exists>s s2. fixture 0 1 s \<and> test_InvalidateTimer still 0 2 4 [timer_fires 100000007, main_quits 200000000] s = ((s2, None), False)"
proof -
  obtain s where s: "fixture 0 1 s" using a_fixture by blast
  from InvalidateTimer_test_fails [OF s, of 100000007 0 0 4 200000000] s show ?thesis
    by (auto simp: numeral_2_eq_2)
qed

theorem RunAtTimer_test_passes_witness:
  "\<exists>s s'. fixture 0 1 s \<and>
     test_RunAtTimer still 0 2 4 (InRound 0 50) (at_rounds (InRound 0 50) 60 1000000055 2000000000) s = ((s', None), True)"
proof -
  obtain s where s: "fixture 0 1 s" using a_fixture by blast
  from RunAtTimer_test_passes [OF s, of "InRound 0 50" 50 1000000055 0 0 4 60 2000000000] s show ?thesis
    by (auto simp: numeral_2_eq_2)
qed

theorem RunEveryTimer_test_counts_witness:
  "\<exists>s s'. fixture 0 1 s \<and> count_list (trace s') 4 = 3 \<and>
     test_RunEveryTimer 0 1 4 (map timer_fires [100000007, 150000000, 200000010, 310000000, 420000000]) s = ((s', None), True)"
proof -
  obtain s where s: "fixture 0 1 s" using a_fixture by blast
  let ?rs = "map timer_fires [100000007, 150000000, 200000010, 310000000, 420000000]"
  have "\<forall>r \<in> set ?rs. calm_round 1 own_cbs kInitEventListSize r \<and> others r = []"
    by (auto simp: test_rounds_calm) (simp_all add: timer_fires_def)
  from RunEveryTimer_test_counts [OF s this, of 0 0 4] s show ?thesis
    by (auto simp: timer_fires_def reported_def)
qed

theorem QueueInLoop_test_may_hang_witness:
  "\<exists>s s'. fixture 0 1 s \<and>
     test_QueueInLoopDifferentThread still 1 1 4 True [woken 5, timer_fires 6] s = ((s', Some NotReturned), True)"
proof -
  obtain s where s: "fixture 0 1 s" using a_fixture by blast
  have "\<forall>r \<in> set [woken 5, timer_fires 6]. calm_round 1 own_cbs kInitEventListSize r \<and> others r = []"
    by (simp add: test_rounds_calm woken_calm) (simp add: woken_def timer_fires_def)
  from QueueInLoop_test_may_hang [OF s this, of 0 0 4 0] s show ?thesis by auto
qed

end
