(* ===== verification/EventLoopThread.thy ===== *)
theory EventLoopThread
  imports DbException
begin

text \<open>
  \<^verbatim>\<open>event/EventLoopThread.cpp\<close> and \<^verbatim>\<open>event/EventLoopThreadPool.cpp\<close>: the handshake of the thread
  that owns an \<^verbatim>\<open>EventLoopThread\<close> with the thread that runs its loop, as a step relation over
  the two program counters, the three promises and the flags of the loop that the handshake
  touches; and the choice of a loop by the pool.
\<close>

section \<open>The two threads\<close>

text \<open>
  \<^verbatim>\<open>loopFuncs\<close>: make the loop, queue the closure that fulfils \<^verbatim>\<open>promiseForLoop_\<close>, publish the
  pointer, wait for \<^verbatim>\<open>promiseForRun_\<close>, enter \<^verbatim>\<open>loop()\<close>, and there test \<^verbatim>\<open>quit_\<close>, poll and run the
  queued closures in turn; after the loop, reset \<^verbatim>\<open>loop_\<close>.
\<close>

datatype loop_pc = TStart | TQueue | TPublish | TAwaitRun | TEnter | TTest | TPoll | TFuncs | TLeave | TClear | TDone

text \<open>
  The owner: the constructor (\<open>OCtor\<close>), a constructed object (\<open>OIdle\<close>), \<^verbatim>\<open>run()\<close> with its
  \<^verbatim>\<open>call_once\<close> (\<open>ORun\<close>, \<open>OAwait\<close>), \<^verbatim>\<open>wait()\<close>, and the destructor, which runs \<^verbatim>\<open>run()\<close> first
  (\<open>ODtorRun\<close>, \<open>ODtorAwait\<close>), takes \<^verbatim>\<open>loop_\<close>, quits it and joins.
\<close>

datatype owner_pc = OCtor | OIdle | ORun | OAwait | OWait
  | ODtorRun | ODtorAwait | OTake | OQuit | OJoin | ODone

record loop_thread =
  tpc :: loop_pc
  opc :: owner_pc
  promiseForLoopPointer :: bool
  promiseForRun :: bool
  promiseForLoop :: bool
  once :: bool
  loop_set :: bool
  joinable :: bool
  loop_quit_flag :: bool
  loop_queued :: bool
  loop_woken :: bool

definition mk_EventLoopThread :: loop_thread where
  "mk_EventLoopThread =
     \<lparr>tpc = TStart, opc = OCtor, promiseForLoopPointer = False, promiseForRun = False, promiseForLoop = False,
      once = False, loop_set = False, joinable = True, loop_quit_flag = False, loop_queued = False,
      loop_woken = False\<rparr>"

text \<open>One step of the loop's thread; \<open>None\<close> while it blocks.\<close>

fun loopFuncs_at :: "loop_pc \<Rightarrow> loop_thread \<Rightarrow> loop_thread option" where
  "loopFuncs_at TStart s = Some (s\<lparr>tpc := TQueue\<rparr>)"
| "loopFuncs_at TQueue s = Some (s\<lparr>tpc := TPublish, loop_queued := True, loop_woken := True\<rparr>)"
| "loopFuncs_at TPublish s = Some (s\<lparr>tpc := TAwaitRun, promiseForLoopPointer := True\<rparr>)"
| "loopFuncs_at TAwaitRun s = (if promiseForRun s then Some (s\<lparr>tpc := TEnter\<rparr>) else None)"
| "loopFuncs_at TEnter s = Some (s\<lparr>tpc := TTest, loop_quit_flag := False\<rparr>)"
| "loopFuncs_at TTest s = Some (s\<lparr>tpc := (if loop_quit_flag s then TLeave else TPoll)\<rparr>)"
| "loopFuncs_at TPoll s = (if loop_woken s then Some (s\<lparr>tpc := TFuncs, loop_woken := False\<rparr>) else None)"
| "loopFuncs_at TFuncs s =
     Some (if loop_queued s then s\<lparr>tpc := TTest, loop_queued := False, promiseForLoop := True\<rparr>
           else s\<lparr>tpc := TTest\<rparr>)"
| "loopFuncs_at TLeave s = Some (s\<lparr>tpc := TClear\<rparr>)"
| "loopFuncs_at TClear s = Some (s\<lparr>tpc := TDone, loop_set := False\<rparr>)"
| "loopFuncs_at TDone s = None"

definition loopFuncs :: "loop_thread \<Rightarrow> loop_thread option" where
  "loopFuncs s = loopFuncs_at (tpc s) s"

text \<open>\<^verbatim>\<open>run()\<close>: inside \<^verbatim>\<open>call_once\<close> fulfil the promise and wait for the loop; later calls pass.\<close>

definition run_start :: "owner_pc \<Rightarrow> owner_pc \<Rightarrow> loop_thread \<Rightarrow> loop_thread" where
  "run_start await after s =
     (if once s then s\<lparr>opc := after\<rparr> else s\<lparr>opc := await, once := True, promiseForRun := True\<rparr>)"

definition run_await :: "owner_pc \<Rightarrow> loop_thread \<Rightarrow> loop_thread option" where
  "run_await after s = (if promiseForLoop s then Some (s\<lparr>opc := after\<rparr>) else None)"

text \<open>The constructor's wait for the pointer.\<close>

definition ctor_await :: "loop_thread \<Rightarrow> loop_thread option" where
  "ctor_await s = (if promiseForLoopPointer s then Some (s\<lparr>opc := OIdle, loop_set := True\<rparr>) else None)"

definition wait_join :: "loop_thread \<Rightarrow> loop_thread option" where
  "wait_join s = (if tpc s = TDone then Some (s\<lparr>opc := OIdle, joinable := False\<rparr>) else None)"

text \<open>\<^verbatim>\<open>loop->quit()\<close> from the owner's thread, which also wakes the loop.\<close>

definition thread_quit :: "loop_thread \<Rightarrow> loop_thread" where
  "thread_quit s = s\<lparr>loop_quit_flag := True, loop_woken := True\<rparr>"

definition dtor_take :: "loop_thread \<Rightarrow> loop_thread" where
  "dtor_take s = s\<lparr>opc := (if loop_set s then OQuit else OJoin)\<rparr>"

definition dtor_join :: "loop_thread \<Rightarrow> loop_thread option" where
  "dtor_join s =
     (if joinable s then if tpc s = TDone then Some (s\<lparr>opc := ODone, joinable := False\<rparr>) else None
      else Some (s\<lparr>opc := ODone\<rparr>))"

fun owner_at :: "owner_pc \<Rightarrow> loop_thread \<Rightarrow> loop_thread option" where
  "owner_at OCtor s = ctor_await s"
| "owner_at OIdle s = None"
| "owner_at ORun s = Some (run_start OAwait OIdle s)"
| "owner_at OAwait s = run_await OIdle s"
| "owner_at OWait s = wait_join s"
| "owner_at ODtorRun s = Some (run_start ODtorAwait OTake s)"
| "owner_at ODtorAwait s = run_await OTake s"
| "owner_at OTake s = Some (dtor_take s)"
| "owner_at OQuit s = Some ((thread_quit s)\<lparr>opc := OJoin\<rparr>)"
| "owner_at OJoin s = dtor_join s"
| "owner_at ODone s = None"

definition owner :: "loop_thread \<Rightarrow> loop_thread option" where
  "owner s = owner_at (opc s) s"

section \<open>Runs\<close>

text \<open>A step that one of the two threads takes on its own.\<close>

inductive thread_step :: "loop_thread \<Rightarrow> loop_thread \<Rightarrow> bool" where
  loop_step: "loopFuncs s = Some s' \<Longrightarrow> thread_step s s'"
| owner_step: "owner s = Some s' \<Longrightarrow> thread_step s s'"

code_pred thread_step .

inductive_cases thread_stepE: "thread_step s s'"

text \<open>
  What the program may do with a constructed object: call \<^verbatim>\<open>run()\<close>, \<^verbatim>\<open>wait()\<close> once, the
  destructor; and any thread that has the loop's pointer may quit it, at any time when \<open>early\<close>
  holds, and otherwise only once the loop has run its first closure.
\<close>

inductive thread_reachable :: "bool \<Rightarrow> loop_thread \<Rightarrow> bool" for early where
  made: "thread_reachable early mk_EventLoopThread"
| moved: "thread_reachable early s \<Longrightarrow> thread_step s s' \<Longrightarrow> thread_reachable early s'"
| call_run: "thread_reachable early s \<Longrightarrow> opc s = OIdle \<Longrightarrow> thread_reachable early (s\<lparr>opc := ORun\<rparr>)"
| call_wait: "thread_reachable early s \<Longrightarrow> opc s = OIdle \<Longrightarrow> joinable s \<Longrightarrow>
    thread_reachable early (s\<lparr>opc := OWait\<rparr>)"
| call_dtor: "thread_reachable early s \<Longrightarrow> opc s = OIdle \<Longrightarrow> thread_reachable early (s\<lparr>opc := ODtorRun\<rparr>)"
| user_quits: "thread_reachable early s \<Longrightarrow> promiseForLoopPointer s \<Longrightarrow> early \<or> promiseForLoop s \<Longrightarrow>
    thread_reachable early (thread_quit s)"

definition entered :: "loop_pc \<Rightarrow> bool" where
  "entered pc \<longleftrightarrow> pc \<in> {TTest, TPoll, TFuncs, TLeave, TClear, TDone}"

definition awaiting :: "owner_pc \<Rightarrow> bool" where
  "awaiting pc \<longleftrightarrow> pc \<in> {OAwait, ODtorAwait}"

definition in_dtor :: "owner_pc \<Rightarrow> bool" where
  "in_dtor pc \<longleftrightarrow> pc \<in> {ODtorRun, ODtorAwait, OTake, OQuit, OJoin, ODone}"

text \<open>Each promise is fulfilled at its place and only there, and the pointer lives until the thread ends.\<close>

definition promise_inv :: "loop_thread \<Rightarrow> bool" where
  "promise_inv s \<longleftrightarrow>
     promiseForLoopPointer s = (tpc s \<notin> {TStart, TQueue, TPublish}) \<and>
     loop_queued s = (tpc s \<notin> {TStart, TQueue} \<and> \<not> promiseForLoop s) \<and>
     (promiseForLoop s \<longrightarrow> entered (tpc s)) \<and>
     promiseForRun s = once s \<and>
     (tpc s \<notin> {TStart, TQueue, TPublish, TAwaitRun} \<longrightarrow> once s)"

definition owner_inv :: "loop_thread \<Rightarrow> bool" where
  "owner_inv s \<longleftrightarrow>
     (once s \<and> \<not> promiseForLoop s \<longrightarrow> awaiting (opc s)) \<and>
     (opc s \<in> {OTake, OQuit, OJoin, ODone} \<longrightarrow> promiseForLoop s) \<and>
     (awaiting (opc s) \<longrightarrow> once s) \<and> (opc s = OCtor \<longrightarrow> \<not> once s) \<and>
     loop_set s = (opc s \<noteq> OCtor \<and> tpc s \<noteq> TDone) \<and>
     (\<not> joinable s \<longrightarrow> tpc s = TDone) \<and> (opc s = ODone \<longrightarrow> tpc s = TDone)"

lemmas thread_defs = loopFuncs_def owner_def run_start_def run_await_def ctor_await_def wait_join_def
  thread_quit_def dtor_take_def dtor_join_def entered_def awaiting_def

lemma promise_inv_step: "promise_inv s \<Longrightarrow> owner_inv s \<Longrightarrow> thread_step s s' \<Longrightarrow> promise_inv s'"
proof (erule thread_stepE)
  assume "promise_inv s" "owner_inv s" "loopFuncs s = Some s'"
  then show "promise_inv s'"
    by (cases "tpc s") (clarsimp simp: promise_inv_def thread_defs split: if_splits)+
next
  assume "promise_inv s" "owner_inv s" "owner s = Some s'"
  then show "promise_inv s'"
    by (cases "opc s"; cases "tpc s") (clarsimp simp: promise_inv_def owner_inv_def thread_defs split: if_splits)+
qed

lemma owner_inv_step: "promise_inv s \<Longrightarrow> owner_inv s \<Longrightarrow> thread_step s s' \<Longrightarrow> owner_inv s'"
proof (erule thread_stepE)
  assume "promise_inv s" "owner_inv s" "loopFuncs s = Some s'"
  then show "owner_inv s'"
    by (cases "tpc s"; cases "opc s") (clarsimp simp: promise_inv_def owner_inv_def thread_defs split: if_splits)+
next
  assume "promise_inv s" "owner_inv s" "owner s = Some s'"
  then show "owner_inv s'"
    by (cases "opc s"; cases "tpc s") (clarsimp simp: promise_inv_def owner_inv_def thread_defs split: if_splits)+
qed

lemma reachable_inv: "thread_reachable early s \<Longrightarrow> promise_inv s \<and> owner_inv s"
proof (induction rule: thread_reachable.induct)
  case made
  show ?case by (simp add: promise_inv_def owner_inv_def thread_defs mk_EventLoopThread_def)
next
  case (moved s s')
  then show ?case using promise_inv_step owner_inv_step by blast
qed (auto simp: promise_inv_def owner_inv_def thread_defs)

text \<open>What holds as long as nobody quits a loop that has not run its first closure.\<close>

definition quit_inv :: "loop_thread \<Rightarrow> bool" where
  "quit_inv s \<longleftrightarrow>
     (tpc s \<in> {TTest, TPoll, TFuncs} \<and> \<not> promiseForLoop s \<longrightarrow> \<not> loop_quit_flag s) \<and>
     (tpc s \<in> {TLeave, TClear, TDone} \<longrightarrow> promiseForLoop s) \<and>
     (loop_queued s \<and> tpc s \<in> {TPublish, TAwaitRun, TEnter, TTest, TPoll} \<longrightarrow> loop_woken s) \<and>
     (tpc s = TPoll \<and> loop_quit_flag s \<longrightarrow> loop_woken s) \<and>
     (opc s = OJoin \<longrightarrow> loop_quit_flag s \<or> tpc s = TDone)"

lemma quit_inv_step:
  "promise_inv s \<Longrightarrow> owner_inv s \<Longrightarrow> quit_inv s \<Longrightarrow> thread_step s s' \<Longrightarrow> quit_inv s'"
proof (erule thread_stepE)
  assume "promise_inv s" "owner_inv s" "quit_inv s" "loopFuncs s = Some s'"
  then show "quit_inv s'"
    by (cases "tpc s"; cases "opc s")
      (clarsimp simp: promise_inv_def owner_inv_def quit_inv_def thread_defs split: if_splits)+
next
  assume "promise_inv s" "owner_inv s" "quit_inv s" "owner s = Some s'"
  then show "quit_inv s'"
    by (cases "opc s"; cases "tpc s")
      (clarsimp simp: promise_inv_def owner_inv_def quit_inv_def thread_defs split: if_splits)+
qed

lemma reachable_quit_inv: "thread_reachable False s \<Longrightarrow> quit_inv s"
proof (induction rule: thread_reachable.induct)
  case made
  show ?case by (simp add: quit_inv_def mk_EventLoopThread_def)
next
  case (moved s s')
  then show ?case using quit_inv_step reachable_inv by blast
qed (auto simp: quit_inv_def thread_quit_def)


section \<open>The destructor ends\<close>

fun loop_cost :: "loop_pc \<Rightarrow> nat" where
  "loop_cost TStart = 30" | "loop_cost TQueue = 29" | "loop_cost TPublish = 20" | "loop_cost TAwaitRun = 19"
| "loop_cost TEnter = 18" | "loop_cost TFuncs = 13" | "loop_cost TTest = 12" | "loop_cost TPoll = 11"
| "loop_cost TLeave = 2" | "loop_cost TClear = 1" | "loop_cost TDone = 0"

fun owner_cost :: "owner_pc \<Rightarrow> nat" where
  "owner_cost ODtorRun = 5" | "owner_cost ODtorAwait = 4" | "owner_cost OTake = 3" | "owner_cost OQuit = 2"
| "owner_cost OJoin = 1" | "owner_cost _ = 0"

definition thread_cost :: "loop_thread \<Rightarrow> nat" where
  "thread_cost s = loop_cost (tpc s) + (if loop_woken s then 3 else 0) + 4 * owner_cost (opc s)"

lemma step_costs: "in_dtor (opc s) \<Longrightarrow> thread_step s s' \<Longrightarrow> thread_cost s' < thread_cost s \<and> in_dtor (opc s')"
proof (erule thread_stepE)
  assume "in_dtor (opc s)" "loopFuncs s = Some s'"
  then show "thread_cost s' < thread_cost s \<and> in_dtor (opc s')"
    by (cases "tpc s") (clarsimp simp: thread_cost_def thread_defs split: if_splits)+
next
  assume "in_dtor (opc s)" "owner s = Some s'"
  then show "thread_cost s' < thread_cost s \<and> in_dtor (opc s')"
    by (cases "opc s") (clarsimp simp: thread_cost_def in_dtor_def thread_defs split: if_splits)+
qed

lemma dtor_progress:
  assumes "thread_reachable False s" and "in_dtor (opc s)" and "opc s \<noteq> ODone"
  shows "loopFuncs s \<noteq> None \<or> owner s \<noteq> None"
proof -
  note inv = reachable_inv [OF assms(1)] reachable_quit_inv [OF assms(1)]
  show ?thesis
    using inv assms(2,3)
    by (cases "opc s"; cases "tpc s")
      (auto simp: promise_inv_def owner_inv_def quit_inv_def thread_defs in_dtor_def split: if_splits)
qed

text \<open>
  C14: the destructor always ends, however the two threads are scheduled, and whether or not
  \<^verbatim>\<open>run()\<close> was called before: while it has not ended one of the threads can move, no step repeats
  for ever because each lowers a cost, and when it has ended the loop's thread has ended too.
\<close>

theorem destructor_ends:
  assumes "thread_reachable False s" and "in_dtor (opc s)"
  shows "(opc s \<noteq> ODone \<longrightarrow> (\<exists>s'. thread_step s s')) \<and>
    (thread_step s s' \<longrightarrow> thread_cost s' < thread_cost s \<and> in_dtor (opc s')) \<and>
    (opc s = ODone \<longrightarrow> tpc s = TDone \<and> \<not> loop_set s)"
proof -
  have "\<exists>s'. thread_step s s'" if "opc s \<noteq> ODone"
    using dtor_progress [OF assms that] thread_step.intros by blast
  then show ?thesis
    using step_costs [OF assms(2)] reachable_inv [OF assms(1)] by (auto simp: owner_inv_def)
qed

text \<open>A schedule: which of the two threads moves, at each step.\<close>

fun schedule :: "bool list \<Rightarrow> loop_thread \<Rightarrow> loop_thread option" where
  "schedule [] s = Some s"
| "schedule (b # bs) s = (case (if b then loopFuncs s else owner s) of None \<Rightarrow> None | Some s' \<Rightarrow> schedule bs s')"

lemma schedule_reachable: "thread_reachable early s \<Longrightarrow> schedule bs s = Some s' \<Longrightarrow> thread_reachable early s'"
  by (induction bs arbitrary: s)
    (auto split: option.splits if_splits intro: thread_reachable.moved thread_step.intros)

lemma constructed:
  "\<exists>s. thread_reachable early s \<and> opc s = OIdle \<and> tpc s = TAwaitRun \<and> \<not> once s \<and> promiseForLoopPointer s \<and>
     loop_queued s \<and> loop_woken s \<and> \<not> promiseForLoop s \<and> \<not> promiseForRun s \<and> joinable s"
proof -
  obtain s where s: "schedule [True, True, True, False] mk_EventLoopThread = Some s" "opc s = OIdle"
      "tpc s = TAwaitRun" "\<not> once s" "promiseForLoopPointer s" "loop_queued s" "loop_woken s"
      "\<not> promiseForLoop s" "\<not> promiseForRun s" "joinable s"
    by (simp add: mk_EventLoopThread_def thread_defs)
  then show ?thesis using schedule_reachable [OF thread_reachable.made] by blast
qed

text \<open>
  A thread that gets the loop's pointer and quits the loop after it has cleared its quit flag
  but before it has tested it makes \<^verbatim>\<open>run()\<close> wait for ever: the loop ends without running the
  closure that \<^verbatim>\<open>run()\<close> waits for, its thread ends, and neither thread can move.
\<close>

theorem early_quit_blocks_run:
  "\<exists>s. thread_reachable True s \<and> opc s = OAwait \<and> tpc s = TDone \<and> \<not> promiseForLoop s \<and>
     loop_queued s \<and> loopFuncs s = None \<and> owner s = None"
proof -
  obtain s0 where s0: "thread_reachable True s0" "opc s0 = OIdle" "tpc s0 = TAwaitRun" "\<not> once s0"
    "promiseForLoopPointer s0" "loop_queued s0" "loop_woken s0" "\<not> promiseForLoop s0"
    using constructed by blast
  define s1 where "s1 = s0\<lparr>opc := ORun\<rparr>"
  have r1: "thread_reachable True s1" unfolding s1_def using s0(1,2) by (rule thread_reachable.call_run)
  obtain s2 where s2: "schedule [False, True, True] s1 = Some s2" "opc s2 = OAwait" "tpc s2 = TTest"
    "promiseForLoopPointer s2" "loop_queued s2" "\<not> promiseForLoop s2"
    using s0 by (simp add: s1_def thread_defs)
  have "thread_reachable True (thread_quit s2)"
    using schedule_reachable [OF r1 s2(1)] s2(4) by (simp add: thread_reachable.user_quits)
  moreover obtain s3 where s3: "schedule [True, True, True] (thread_quit s2) = Some s3" "opc s3 = OAwait"
    "tpc s3 = TDone" "loop_queued s3" "\<not> promiseForLoop s3"
    using s2 by (simp add: thread_defs)
  ultimately have "thread_reachable True s3" using schedule_reachable by blast
  then show ?thesis
    using s3(2-5) by (intro exI [of _ s3]) (simp add: loopFuncs_def owner_def run_await_def)
qed


theorem destructor_ends_witness:
  "\<exists>s s'. thread_reachable False s \<and> opc s = ODtorRun \<and> thread_step s s' \<and> thread_cost s' < thread_cost s"
proof -
  obtain s0 where s0: "thread_reachable False s0" "opc s0 = OIdle" using constructed by blast
  define s1 where "s1 = s0\<lparr>opc := ODtorRun\<rparr>"
  have r1: "thread_reachable False s1" unfolding s1_def using s0 by (rule thread_reachable.call_dtor)
  have d: "in_dtor (opc s1)" "opc s1 = ODtorRun" by (simp_all add: s1_def in_dtor_def)
  obtain s' where "thread_step s1 s'" using destructor_ends [OF r1 d(1)] d(2) by auto
  then show ?thesis using destructor_ends [OF r1 d(1), of s'] r1 d(2) by blast
qed

section \<open>The pool\<close>

text \<open>
  \<^verbatim>\<open>EventLoopThread::getLoop\<close> is declared and used, but the repository has no definition of it:
  it is a parameter here.
\<close>

record 't thread_pool =
  loopThreadVec :: "'t list"
  loopIndex :: "64 word"
  pool_name :: string

fun emplace_threads :: "(string \<Rightarrow> 't) \<Rightarrow> string \<Rightarrow> nat \<Rightarrow> 't list" where
  "emplace_threads mk nm 0 = []"
| "emplace_threads mk nm (Suc n) = emplace_threads mk nm n @ [mk nm]"

definition mk_EventLoopThreadPool :: "(string \<Rightarrow> 't) \<Rightarrow> 64 word \<Rightarrow> string \<Rightarrow> 't thread_pool" where
  "mk_EventLoopThreadPool mk threadNum nm =
     \<lparr>loopThreadVec = emplace_threads mk nm (unat threadNum), loopIndex = 0, pool_name = nm\<rparr>"

definition pool_start :: "('t \<Rightarrow> 't) \<Rightarrow> 't thread_pool \<Rightarrow> 't thread_pool" where
  "pool_start run p = p\<lparr>loopThreadVec := map run (loopThreadVec p)\<rparr>"

definition pool_wait :: "('t \<Rightarrow> 't) \<Rightarrow> 't thread_pool \<Rightarrow> 't thread_pool" where
  "pool_wait wait p = p\<lparr>loopThreadVec := map wait (loopThreadVec p)\<rparr>"

definition pool_size :: "'t thread_pool \<Rightarrow> 64 word" where
  "pool_size p = of_nat (length (loopThreadVec p))"

definition getNextLoop :: "('t \<Rightarrow> 'l) \<Rightarrow> 't thread_pool \<Rightarrow> 'l option \<times> 't thread_pool" where
  "getNextLoop getLoop p =
     (if pool_size p > 0
      then let index = loopIndex p in
           (Some (getLoop (loopThreadVec p ! unat (index mod pool_size p))), p\<lparr>loopIndex := index + 1\<rparr>)
      else (None, p))"

definition pool_getLoop :: "('t \<Rightarrow> 'l) \<Rightarrow> 't thread_pool \<Rightarrow> 64 word \<Rightarrow> 'l option" where
  "pool_getLoop getLoop p i = (if i < pool_size p then Some (getLoop (loopThreadVec p ! unat i)) else None)"

definition pool_getName :: "'t thread_pool \<Rightarrow> string" where
  "pool_getName p = pool_name p"

definition getLoops :: "('t \<Rightarrow> 'l) \<Rightarrow> 't thread_pool \<Rightarrow> 'l list" where
  "getLoops getLoop p = map getLoop (loopThreadVec p)"

fun next_loops :: "('t \<Rightarrow> 'l) \<Rightarrow> nat \<Rightarrow> 't thread_pool \<Rightarrow> 'l option list" where
  "next_loops getLoop 0 p = []"
| "next_loops getLoop (Suc n) p = (case getNextLoop getLoop p of (l, p') \<Rightarrow> l # next_loops getLoop n p')"

lemma mset_rotate: "mset (rotate n xs) = mset xs"
proof -
  have "mset (rotate1 ys) = mset ys" for ys :: "'a list" by (cases ys) simp_all
  then show ?thesis by (induction n) simp_all
qed

lemma next_loops_nth:
  assumes "loopThreadVec p \<noteq> []" and "length (loopThreadVec p) < 2 ^ 64" and "unat (loopIndex p) + n \<le> 2 ^ 64"
  shows "next_loops getLoop n p =
    map (\<lambda>k. Some (getLoop (loopThreadVec p ! ((unat (loopIndex p) + k) mod length (loopThreadVec p))))) [0..<n]"
  using assms
proof (induction n arbitrary: p)
  case (Suc n)
  let ?p' = "p\<lparr>loopIndex := loopIndex p + 1\<rparr>"
  have sz: "unat (pool_size p) = length (loopThreadVec p)"
    using Suc.prems(2) by (simp add: pool_size_def unat_of_nat take_bit_nat_eq_self)
  then have pos: "pool_size p > 0" using Suc.prems(1) by (simp add: word_less_nat_alt)
  have get: "getNextLoop getLoop p =
      (Some (getLoop (loopThreadVec p ! (unat (loopIndex p) mod length (loopThreadVec p)))), ?p')"
    using pos by (simp add: getNextLoop_def Let_def unat_mod sz)
  show ?case
  proof (cases n)
    case 0
    then show ?thesis by (simp add: get)
  next
    case (Suc m)
    then have "unat (loopIndex p) + 1 < 2 ^ 64" using Suc.prems(3) by simp
    then have idx: "unat (loopIndex p + 1) = Suc (unat (loopIndex p))"
      by (simp add: unat_word_ariths)
    have "next_loops getLoop n ?p' = map (\<lambda>k. Some (getLoop (loopThreadVec p !
        ((Suc (unat (loopIndex p)) + k) mod length (loopThreadVec p))))) [0..<n]"
      using Suc.IH [of ?p'] Suc.prems idx by simp
    then have "next_loops getLoop (Suc n) p =
        map (\<lambda>k. Some (getLoop (loopThreadVec p ! ((unat (loopIndex p) + k) mod length (loopThreadVec p)))))
          (0 # map Suc [0..<n])"
      by (simp add: get o_def)
    also have "0 # map Suc [0..<n] = [0..<Suc n]" by (simp add: map_Suc_upt upt_conv_Cons del: upt_Suc)
    finally show ?thesis .
  qed
qed simp

text \<open>
  The pool hands out its loops in turn, starting with the first one, as long as its counter
  does not overflow; so any number of calls in a row as the pool has threads gives each thread's
  loop exactly once, and the loads of two threads never differ by more than one.
\<close>

theorem pool_round_robin:
  assumes "loopThreadVec p \<noteq> []" and "length (loopThreadVec p) < 2 ^ 64" and "unat (loopIndex p) + n \<le> 2 ^ 64"
  shows "next_loops getLoop n p =
      map (\<lambda>k. Some (getLoop (loopThreadVec p ! ((unat (loopIndex p) + k) mod length (loopThreadVec p))))) [0..<n] \<and>
    (n = length (loopThreadVec p) \<longrightarrow> mset (next_loops getLoop n p) = mset (map Some (getLoops getLoop p)))"
proof -
  let ?v = "loopThreadVec p" and ?i = "unat (loopIndex p)"
  have nth: "next_loops getLoop n p = map (\<lambda>k. Some (getLoop (?v ! ((?i + k) mod length ?v)))) [0..<n]"
    by (rule next_loops_nth [OF assms])
  moreover have "mset (next_loops getLoop n p) = mset (map Some (getLoops getLoop p))" if n: "n = length ?v"
  proof -
    have "map (\<lambda>k. ?v ! ((?i + k) mod length ?v)) [0..<length ?v] = rotate ?i ?v"
      by (rule nth_equalityI) (simp_all add: nth_rotate)
    moreover have "next_loops getLoop n p =
        map (\<lambda>t. Some (getLoop t)) (map (\<lambda>k. ?v ! ((?i + k) mod length ?v)) [0..<length ?v])"
      using nth unfolding n by (simp add: o_def)
    ultimately have "next_loops getLoop n p = map (\<lambda>t. Some (getLoop t)) (rotate ?i ?v)"
      by simp
    then show ?thesis by (simp add: getLoops_def o_def mset_rotate)
  qed
  ultimately show ?thesis by blast
qed

theorem pool_round_robin_witness:
  "next_loops id 3 \<lparr>loopThreadVec = [10, 20 :: nat], loopIndex = 5, pool_name = ''p''\<rparr> = [Some 20, Some 10, Some 20]"
  using pool_round_robin [of "\<lparr>loopThreadVec = [10, 20 :: nat], loopIndex = 5, pool_name = ''p''\<rparr>" 3 id]
  by (simp add: upt_rec flip: numeral_2_eq_2)

end
