(* ===== verification/LoopHandshake.thy ===== *)
theory LoopHandshake
  imports TimedLoop EventLoopThread
begin

text \<open>
  The three flags by which the handshake of \<open>EventLoopThread\<close> sees its loop, the queued closure, the
  wake-up descriptor and the request to quit, are an abstraction of the state of \<open>EventLoop\<close>: each
  step of the handshake that touches them is an operation of the event loop.
\<close>

section \<open>The abstraction\<close>

definition seen_as :: "eloop \<Rightarrow> loop_thread \<Rightarrow> bool" where
  "seen_as s t \<longleftrightarrow>
     loop_queued t = (items (funcs s) \<noteq> []) \<and> loop_woken t = (wakeCount s > 0) \<and> loop_quit_flag t = quitting s"

lemma queue_seen:
  assumes "wf_queues s" and "\<not> looping s" and "seen_as s t"
  shows "\<exists>s'. queueInLoop (threadId s) (Some (UserTask f)) s = (s', None) \<and> wf_queues s' \<and>
    items (funcs s') = items (funcs s) @ [Some (UserTask f)] \<and> seen_as s' (the (loopFuncs_at TQueue t))"
proof -
  have "wf_mpsc (funcs s)" using assms(1) by (simp add: wf_queues_def)
  from enqueue_total [OF this, of "Some (UserTask f)"] enqueue_wf [OF this]
  obtain q where q: "enqueue (Some (UserTask f)) (funcs s) = Inr q" "wf_mpsc q"
      "items q = items (funcs s) @ [Some (UserTask f)]"
    by blast
  then show ?thesis using assms
    by (simp add: queueInLoop_def Let_def wakeup_def isInLoopThread_def seen_as_def wf_queues_def)
qed

lemma run_one_closure:
  assumes "wf_queues s" and "items (funcs s) = [Some (UserTask f)]" and "prog f = []"
  shows "\<exists>q. run_funcs prog th n (Suc (Suc k)) s = (s\<lparr>funcs := q, trace := trace s @ [f]\<rparr>, None) \<and>
    wf_mpsc q \<and> items q = []"
proof -
  obtain q where q: "run_funcs prog th n (length [f] + Suc k) s = run_funcs prog th n (Suc k) (s\<lparr>funcs := q, trace := trace s @ [f]\<rparr>)"
      "wf_mpsc q" "items q = []"
    using run_funcs_prefix [of "[f]" prog s "[]" th n "Suc k"] assms by auto
  have "run_funcs prog th n (Suc k) (s\<lparr>funcs := q, trace := trace s @ [f]\<rparr>) = (s\<lparr>funcs := q, trace := trace s @ [f]\<rparr>, None)"
    by (rule run_funcs_none) (use assms(1) q(2,3) in \<open>simp_all add: wf_queues_def\<close>)
  then show ?thesis using q by (intro exI [of _ q]) (simp del: run_funcs.simps)
qed

text \<open>A round that the wake-up descriptor ends: the steps \<open>TPoll\<close> and \<open>TFuncs\<close>.\<close>

lemma wake_round_seen:
  assumes "wf_queues s" and "reads WakeupRead wake_addr s" and "nevents (pollr s) \<ge> 1" and "seen_as s t"
    and "items (funcs s) = [Some (UserTask f)]" and "prog f = []" and "wakeCount s > 0"
    and "others r = []" and "answer r = WaitEvents [(POLLIN, wake_addr)]"
  shows "\<exists>s'. loop_body prog (threadId s) n (Suc (Suc k)) r s = (s', None) \<and> trace s' = trace s @ [f] \<and>
    seen_as s' (the (loopFuncs_at TFuncs (the (loopFuncs_at TPoll t)))) \<and>
    promiseForLoop (the (loopFuncs_at TFuncs (the (loopFuncs_at TPoll t))))"
proof -
  let ?th = "threadId s"
  define p where "p = polled wake_addr (returns_at r) s"
  define s1 where "s1 = p\<lparr>wakeCount := 0, eventHandling := False, callingFuncs := True\<rparr>"
  have "run_cb prog ?th n WakeupRead p = (p\<lparr>wakeCount := 0\<rparr>, None)" by (simp add: run_cb_def wakeupRead_def)
  then have body: "loop_body prog ?th n (Suc (Suc k)) r s =
      doRunInLoopFuncs prog ?th n (Suc (Suc k)) (p\<lparr>wakeCount := 0, eventHandling := False\<rparr>)"
    using one_event_round [OF _ _ assms(9), of WakeupRead prog n s ?th "p\<lparr>wakeCount := 0\<rparr>" "Suc (Suc k)"] assms(2,3,8)
    by (simp add: p_def)
  have "wf_queues s1" "items (funcs s1) = [Some (UserTask f)]"
    using assms(1,5) by (simp_all add: s1_def p_def polled_def wf_queues_def)
  from run_one_closure [where prog = prog and f = f, OF this assms(6)] obtain q where
    q: "run_funcs prog ?th n (Suc (Suc k)) s1 = (s1\<lparr>funcs := q, trace := trace s1 @ [f]\<rparr>, None)" "items q = []"
    by blast
  have tr: "trace s1 = trace s" "quitting s1 = quitting s" by (simp_all add: s1_def p_def polled_def)
  have "loop_body prog ?th n (Suc (Suc k)) r s = (s1\<lparr>funcs := q, trace := trace s1 @ [f], callingFuncs := False\<rparr>, None)"
    using body q(1) by (simp add: doRunInLoopFuncs_def s1_def del: run_funcs.simps)
  then show ?thesis using tr q(2) assms(4,5,7)
    by (simp add: seen_as_def) (simp add: s1_def)
qed



end
