(* ===== verification/ConnString.thy ===== *)
theory ConnString
  imports Prelude "HOL-Library.Char_ord" "HOL-Library.List_Lexorder"
begin

text \<open>
  \<^verbatim>\<open>DbConnection::parseConnString\<close> of \<^verbatim>\<open>db/DbConnection.cpp\<close>: the search for the pairs of a key
  and a value with a regular expression, and the removal of quotes and backslashes.  The
  expression is a term of a small language with the rules of ECMAScript for the choice of a
  match: a matcher tries the alternatives in order and returns every way to match, the
  preferred one first.
\<close>

section \<open>Regular expressions\<close>

datatype rx =
    RChar "char \<Rightarrow> bool"
  | RSeq rx rx
  | RAlt rx rx
  | RStar rx
  | RGroup nat rx

definition RPlus :: "rx \<Rightarrow> rx" where
  "RPlus r = RSeq r (RStar r)"

text \<open>A way to match: the groups with their text, and what is left of the string.\<close>

type_synonym captures = "(nat \<times> string) list"
type_synonym matcher = "string \<Rightarrow> (captures \<times> string) list"

definition and_then :: "matcher \<Rightarrow> captures \<times> string \<Rightarrow> (captures \<times> string) list" where
  "and_then f m = map (\<lambda>(c, s). (fst m @ c, s)) (f (snd m))"

text \<open>Repetition, greedy; an iteration that consumes nothing is not taken.\<close>

fun star_iter :: "matcher \<Rightarrow> nat \<Rightarrow> matcher" where
  "star_iter f 0 s = [([], s)]"
| "star_iter f (Suc n) s =
     concat (map (\<lambda>m. if length (snd m) < length s then and_then (star_iter f n) m else []) (f s)) @
     [([], s)]"

primrec rx_run :: "rx \<Rightarrow> matcher" where
  "rx_run (RChar P) = (\<lambda>s. case s of [] \<Rightarrow> [] | c # cs \<Rightarrow> if P c then [([], cs)] else [])"
| "rx_run (RSeq r1 r2) = (\<lambda>s. concat (map (and_then (rx_run r2)) (rx_run r1 s)))"
| "rx_run (RAlt r1 r2) = (\<lambda>s. rx_run r1 s @ rx_run r2 s)"
| "rx_run (RStar r) = (\<lambda>s. star_iter (rx_run r) (length s) s)"
| "rx_run (RGroup n r) = (\<lambda>s. map (\<lambda>(c, s'). (c @ [(n, take (length s - length s') s)], s')) (rx_run r s))"

text \<open>\<^verbatim>\<open>std::regex_search\<close>: the first position at which the expression matches.\<close>

fun regex_search :: "rx \<Rightarrow> string \<Rightarrow> (captures \<times> string) option" where
  "regex_search r s =
     (case rx_run r s of
        m # _ \<Rightarrow> Some m
      | [] \<Rightarrow> (case s of [] \<Rightarrow> None | _ # cs \<Rightarrow> regex_search r cs))"

declare regex_search.simps [simp del]

definition capture :: "captures \<Rightarrow> nat \<Rightarrow> string" where
  "capture cs n = (case map_of cs n of None \<Rightarrow> [] | Some t \<Rightarrow> t)"

section \<open>The expression\<close>

definition is_word_char :: "char \<Rightarrow> bool" where
  "is_word_char c \<longleftrightarrow>
     CHR ''a'' \<le> c \<and> c \<le> CHR ''z'' \<or> CHR ''A'' \<le> c \<and> c \<le> CHR ''Z'' \<or>
     CHR ''0'' \<le> c \<and> c \<le> CHR ''9'' \<or> c = CHR ''_''"

definition is_blank :: "char \<Rightarrow> bool" where
  "is_blank c \<longleftrightarrow> c = CHR '' '' \<or> CHR 0x09 \<le> c \<and> c \<le> CHR 0x0D"

definition quote_char :: char where
  "quote_char = CHR 0x27"

definition backslash :: char where
  "backslash = CHR 0x5C"

text \<open>\<^verbatim>\<open>'(?:[^\n]|\\[^\n])+'\<close> and \<^verbatim>\<open>(?:\S|\\\S)+\<close>\<close>

definition in_quotes :: rx where
  "in_quotes = RAlt (RChar (\<lambda>c. c \<noteq> CHR 0x0A)) (RSeq (RChar ((=) backslash)) (RChar (\<lambda>c. c \<noteq> CHR 0x0A)))"

definition quoted_re :: rx where
  "quoted_re = RSeq (RChar ((=) quote_char)) (RSeq (RPlus in_quotes) (RChar ((=) quote_char)))"

definition visible :: rx where
  "visible = RAlt (RChar (\<lambda>c. \<not> is_blank c)) (RSeq (RChar ((=) backslash)) (RChar (\<lambda>c. \<not> is_blank c)))"

definition plain_re :: rx where
  "plain_re = RPlus visible"

text \<open>\<^verbatim>\<open>(\w+) *= *(quoted|plain)\<close>\<close>

definition conn_re :: rx where
  "conn_re =
     RSeq (RGroup 1 (RPlus (RChar is_word_char)))
       (RSeq (RStar (RChar ((=) CHR '' '')))
         (RSeq (RChar ((=) CHR ''=''))
           (RSeq (RStar (RChar ((=) CHR '' '')))
             (RGroup 2 (RAlt quoted_re plain_re)))))"

section \<open>The parser\<close>

text \<open>
  The loop over the raw value from index 1 of a quoted value and from index 0 of any other; the
  last character of a quoted value is skipped, and a backslash before the last character stands
  for the next one.
\<close>

fun unescape_loop :: "bool \<Rightarrow> string \<Rightarrow> string" where
  "unescape_loop q [] = []"
| "unescape_loop q [c] = (if q then [] else [c])"
| "unescape_loop q (c # d # cs) =
     (if c = backslash then d # unescape_loop q cs else c # unescape_loop q (d # cs))"

definition is_quoted :: "string \<Rightarrow> bool" where
  "is_quoted raw \<longleftrightarrow> raw \<noteq> [] \<and> hd raw = quote_char \<and> last raw = quote_char"

definition raw_value :: "string \<Rightarrow> string" where
  "raw_value raw = (if is_quoted raw then unescape_loop True (tl raw) else unescape_loop False raw)"

text \<open>\<^verbatim>\<open>params[key] = value\<close> in a \<^verbatim>\<open>std::map\<close>, whose entries are in the order of their keys.\<close>

fun map_put :: "string \<Rightarrow> string \<Rightarrow> (string \<times> string) list \<Rightarrow> (string \<times> string) list" where
  "map_put k v [] = [(k, v)]"
| "map_put k v ((k', v') # kvs) =
     (if k < k' then (k, v) # (k', v') # kvs
      else if k = k' then (k, v) # kvs
      else (k', v') # map_put k v kvs)"

lemma star_iter_shrinks:
  assumes "\<And>z m'. m' \<in> set (f z) \<Longrightarrow> length (snd m') \<le> length z" and "m \<in> set (star_iter f n s)"
  shows "length (snd m) \<le> length s"
  using assms(2)
proof (induction n arbitrary: s m)
  case (Suc n)
  then show ?case
    by (fastforce simp: and_then_def split: if_splits)
qed simp

lemma rx_run_shrinks: "m \<in> set (rx_run r s) \<Longrightarrow> length (snd m) \<le> length s"
proof (induction r arbitrary: s m)
  case (RSeq r1 r2)
  then show ?case by (fastforce simp: and_then_def)
next
  case (RStar r)
  then show ?case using star_iter_shrinks [of "rx_run r" m "length s" s] by auto
qed (auto split: list.splits if_splits)

lemma char_then_shrinks:
  "m \<in> set (rx_run (RSeq (RChar P) r) s) \<Longrightarrow> length (snd m) < length s"
  by (fastforce simp: and_then_def dest: rx_run_shrinks split: list.splits if_splits)

lemma seq_member:
  assumes "m \<in> set (rx_run (RSeq r1 r2) s)"
  obtains m1 where "m1 \<in> set (rx_run r1 s)" "length (snd m) \<le> length (snd m1)"
  using assms by (fastforce simp: and_then_def dest: rx_run_shrinks)

lemma group_member:
  assumes "m \<in> set (rx_run (RGroup n r) s)"
  obtains m1 where "m1 \<in> set (rx_run r s)" "snd m1 = snd m"
  using assms by fastforce

lemma conn_re_consumes:
  assumes "m \<in> set (rx_run conn_re s)"
  shows "length (snd m) < length s"
proof -
  obtain m1 where "m1 \<in> set (rx_run (RGroup 1 (RPlus (RChar is_word_char))) s)"
      "length (snd m) \<le> length (snd m1)"
    using assms unfolding conn_re_def by (rule seq_member)
  moreover from this(1) obtain m2 where "m2 \<in> set (rx_run (RPlus (RChar is_word_char)) s)" "snd m2 = snd m1"
    by (rule group_member)
  ultimately show ?thesis
    using char_then_shrinks [of m2 is_word_char "RStar (RChar is_word_char)" s] by (simp add: RPlus_def)
qed

lemma regex_search_consumes: "regex_search conn_re s = Some m \<Longrightarrow> length (snd m) < length s"
proof (induction s)
  case Nil
  then show ?case
    using conn_re_consumes [of m "[]"] by (subst (asm) regex_search.simps) (auto split: list.splits)
next
  case (Cons c cs)
  show ?case
  proof (cases "rx_run conn_re (c # cs)")
    case Nil
    with Cons show ?thesis by (subst (asm) (2) regex_search.simps) auto
  next
    case (Cons m' ms)
    with Cons.prems have "m' = m" by (subst (asm) regex_search.simps) simp
    with Cons show ?thesis using conn_re_consumes [of m "c # cs"] by simp
  qed
qed

function parseLoop :: "string \<Rightarrow> (string \<times> string) list \<Rightarrow> (string \<times> string) list" where
  "parseLoop str params =
     (case regex_search conn_re str of
        None \<Rightarrow> params
      | Some (caps, suffix) \<Rightarrow>
          parseLoop suffix (map_put (capture caps 1) (raw_value (capture caps 2)) params))"
  by pat_completeness auto
termination
  by (relation "measure (\<lambda>(str, params). length str)") (auto dest: regex_search_consumes)

declare parseLoop.simps [simp del]

definition parseConnString :: "string \<Rightarrow> (string \<times> string) list" where
  "parseConnString connInfo = parseLoop connInfo []"

section \<open>The preferred match\<close>

text \<open>Repetition unfolds by one step: the bound on the number of iterations plays no part.\<close>

lemma star_iter_fuel: "length s \<le> n \<Longrightarrow> star_iter f n s = star_iter f (length s) s"
proof (induction s arbitrary: n rule: length_induct)
  case (1 s)
  show ?case
  proof (cases s)
    case Nil
    then show ?thesis by (cases n) (auto simp: concat_eq_Nil_conv)
  next
    case (Cons c cs)
    then obtain k where k: "length s = Suc k" by simp
    then obtain n' where n': "n = Suc n'" using "1.prems" by (cases n) auto
    have "and_then (star_iter f n') m = and_then (star_iter f k) m" if "length (snd m) < length s" for m
      using "1.IH" [rule_format, OF that, of n'] "1.IH" [rule_format, OF that, of k] that "1.prems" k n'
      by (simp add: and_then_def)
    then show ?thesis by (simp add: n' k cong: map_cong if_cong)
  qed
qed

lemma run_star:
  "rx_run (RStar r) s =
     concat (map (\<lambda>m. if length (snd m) < length s then and_then (rx_run (RStar r)) m else []) (rx_run r s)) @
     [([], s)]"
proof (cases s)
  case Nil
  then show ?thesis by (auto simp: concat_eq_Nil_conv)
next
  case (Cons c cs)
  have "and_then (star_iter (rx_run r) (length cs)) m = and_then (rx_run (RStar r)) m"
    if "length (snd m) < length s" for m
    using that Cons star_iter_fuel [of "snd m" "length cs" "rx_run r"] by (simp add: and_then_def)
  then show ?thesis using Cons by (simp cong: map_cong if_cong)
qed

definition first :: "rx \<Rightarrow> string \<Rightarrow> captures \<Rightarrow> string \<Rightarrow> bool" where
  "first r s c s' \<longleftrightarrow> (\<exists>ms. rx_run r s = (c, s') # ms)"

lemma first_char: "P c \<Longrightarrow> first (RChar P) (c # cs) [] cs"
  by (simp add: first_def)

lemma first_seq:
  assumes "first r1 s c1 s1" and "first r2 s1 c2 s2"
  shows "first (RSeq r1 r2) s (c1 @ c2) s2"
  using assms by (auto simp: first_def and_then_def)

lemma first_alt: "first r1 s c s' \<Longrightarrow> first (RAlt r1 r2) s c s'"
  by (auto simp: first_def)

lemma first_alt2: "rx_run r1 s = [] \<Longrightarrow> first r2 s c s' \<Longrightarrow> first (RAlt r1 r2) s c s'"
  by (auto simp: first_def)

lemma first_star_more:
  assumes "first r s c1 s1" and "length s1 < length s" and "first (RStar r) s1 c2 s2"
  shows "first (RStar r) s (c1 @ c2) s2"
  using assms unfolding first_def run_star [of r s] by (auto simp: and_then_def simp del: rx_run.simps(4))

lemma first_star_stop: "rx_run r s = [] \<Longrightarrow> first (RStar r) s [] s"
  unfolding first_def run_star [of r s] by simp

lemma first_group: "first r (t @ s') c s' \<Longrightarrow> first (RGroup n r) (t @ s') (c @ [(n, t)]) s'"
  by (auto simp: first_def)

text \<open>A greedy run of single characters of one class, up to a character that is not in it.\<close>

lemma first_run:
  assumes "\<And>c cs. P c \<Longrightarrow> first r (c # cs) [] cs" and "list_all P u"
    and "rx_run r rest = []"
  shows "first (RStar r) (u @ rest) [] rest"
  using assms(2)
proof (induction u)
  case Nil
  then show ?case by (simp add: first_star_stop assms(3) del: rx_run.simps)
next
  case (Cons c u)
  then show ?case using first_star_more [OF assms(1), of c "u @ rest"] by (simp del: rx_run.simps)
qed

lemma first_run1:
  assumes "\<And>c cs. P c \<Longrightarrow> first r (c # cs) [] cs" and "list_all P u" and "u \<noteq> []"
    and "rx_run r rest = []"
  shows "first (RPlus r) (u @ rest) [] rest"
proof (cases u)
  case (Cons c u')
  then show ?thesis
    using assms first_seq [OF assms(1) first_run [OF assms(1)], of c P u' rest]
    by (simp add: RPlus_def)
qed (use assms in simp)

lemma regex_search_first: "first r s c s' \<Longrightarrow> regex_search r s = Some (c, s')"
  by (subst regex_search.simps) (auto simp: first_def)

lemma regex_search_skip: "rx_run r (c # cs) = [] \<Longrightarrow> regex_search r (c # cs) = regex_search r cs"
  by (subst regex_search.simps) simp

lemma conn_re_needs_word:
  "\<not> is_word_char c \<Longrightarrow> rx_run conn_re (c # cs) = []" "rx_run conn_re [] = []"
  by (simp_all add: conn_re_def RPlus_def)

section \<open>Pairs of a key and a value\<close>

lemma first_pair:
  assumes "k \<noteq> []" and "list_all is_word_char k" and "raw \<noteq> []" and "hd raw \<noteq> CHR '' ''"
    and "first (RAlt quoted_re plain_re) (raw @ rest) [] rest"
  shows "first conn_re (k @ CHR ''='' # raw @ rest) [(1, k), (2, raw)] rest"
proof -
  obtain r0 rs where raw: "raw = r0 # rs" "r0 \<noteq> CHR '' ''" using assms(3,4) by (cases raw) auto
  have "first (RPlus (RChar is_word_char)) (k @ CHR ''='' # raw @ rest) [] (CHR ''='' # raw @ rest)"
    by (rule first_run1 [where P = is_word_char])
      (use assms(1,2) in \<open>simp_all add: first_char is_word_char_def less_eq_char_def\<close>)
  from first_group [OF this, of 1]
  have key: "first (RGroup 1 (RPlus (RChar is_word_char))) (k @ CHR ''='' # raw @ rest) [(1, k)]
      (CHR ''='' # raw @ rest)" by simp
  have sp: "first (RStar (RChar ((=) CHR '' ''))) (CHR ''='' # raw @ rest) [] (CHR ''='' # raw @ rest)"
    "first (RStar (RChar ((=) CHR '' ''))) (raw @ rest) [] (raw @ rest)"
    by (rule first_star_stop, use raw in simp)+
  have eq: "first (RChar ((=) CHR ''='')) (CHR ''='' # raw @ rest) [] (raw @ rest)"
    by (rule first_char) simp
  from first_group [OF assms(5), of 2]
  have v: "first (RGroup 2 (RAlt quoted_re plain_re)) (raw @ rest) [(2, raw)] rest" by simp
  from first_seq [OF key first_seq [OF sp(1) first_seq [OF eq first_seq [OF sp(2) v]]]]
  show ?thesis unfolding conn_re_def by simp
qed

lemma first_visible: "\<not> is_blank c \<Longrightarrow> first visible (c # cs) [] cs"
  unfolding visible_def by (rule first_alt [OF first_char])

lemma first_plain_value:
  assumes "raw \<noteq> []" and "list_all (\<lambda>c. \<not> is_blank c) raw" and "hd raw \<noteq> quote_char"
    and "rest = [] \<or> is_blank (hd rest)"
  shows "first (RAlt quoted_re plain_re) (raw @ rest) [] rest"
proof (rule first_alt2)
  show "rx_run quoted_re (raw @ rest) = []"
    using assms(1,3) by (cases raw) (auto simp: quoted_re_def)
  have "\<not> is_blank backslash" by (simp add: is_blank_def backslash_def less_eq_char_def)
  then have "rx_run visible rest = []"
    using assms(4) by (cases rest) (auto simp: visible_def)
  then show "first plain_re (raw @ rest) [] rest"
    unfolding plain_re_def using first_run1 [where P = "\<lambda>c. \<not> is_blank c" and r = visible] first_visible assms(1,2)
    by blast
qed

section \<open>Round trip\<close>

text \<open>A value as it is written without quotes: quotes and backslashes with a backslash before them.\<close>

definition esc_char :: "char \<Rightarrow> string" where
  "esc_char c = (if c = backslash \<or> c = quote_char then [backslash, c] else [c])"

definition esc_value :: "string \<Rightarrow> string" where
  "esc_value v = concat (map esc_char v)"

definition conn_text :: "(string \<times> string) list \<Rightarrow> string" where
  "conn_text kvs = concat (map (\<lambda>(k, v). k @ ''='' @ esc_value v @ '' '') kvs)"

definition plain_pair :: "string \<times> string \<Rightarrow> bool" where
  "plain_pair kv \<longleftrightarrow> fst kv \<noteq> [] \<and> list_all is_word_char (fst kv) \<and>
     snd kv \<noteq> [] \<and> list_all (\<lambda>c. \<not> is_blank c) (snd kv)"

lemma esc_value_simps [simp]:
  "esc_value [] = []" "esc_value (c # v) = esc_char c @ esc_value v"
  by (simp_all add: esc_value_def)

lemma unescape_cons: "c \<noteq> backslash \<Longrightarrow> unescape_loop False (c # cs) = c # unescape_loop False cs"
  by (cases cs) simp_all

lemma unescape_esc: "unescape_loop False (esc_value v) = v"
  by (induction v) (auto simp: esc_char_def unescape_cons)

lemma esc_value_raw:
  assumes "v \<noteq> []" and "list_all (\<lambda>c. \<not> is_blank c) v"
  shows "esc_value v \<noteq> []" "list_all (\<lambda>c. \<not> is_blank c) (esc_value v)"
    "hd (esc_value v) \<noteq> quote_char" "hd (esc_value v) \<noteq> CHR '' ''" "raw_value (esc_value v) = v"
proof -
  show nb: "list_all (\<lambda>c. \<not> is_blank c) (esc_value v)"
    using assms(2)
    by (induction v) (auto simp: esc_char_def is_blank_def backslash_def less_eq_char_def)
  obtain c cs where v: "v = c # cs" using assms(1) by (cases v) auto
  have "backslash \<noteq> quote_char" by (simp add: backslash_def quote_char_def)
  then show q: "hd (esc_value v) \<noteq> quote_char" "esc_value v \<noteq> []"
    by (auto simp: v esc_char_def)
  show "hd (esc_value v) \<noteq> CHR '' ''"
    using assms(2) by (auto simp: v esc_char_def backslash_def is_blank_def)
  show "raw_value (esc_value v) = v"
    using q by (simp add: raw_value_def is_quoted_def unescape_esc)
qed

lemma map_of_map_put: "map_of (map_put k v kvs) = (map_of kvs)(k \<mapsto> v)"
  by (induction k v kvs rule: map_put.induct) auto

lemma parseLoop_skip: "\<not> is_word_char c \<Longrightarrow> parseLoop (c # cs) ps = parseLoop cs ps"
  by (subst (1 2) parseLoop.simps) (simp add: regex_search_skip conn_re_needs_word)

lemma parseLoop_end: "parseLoop [] ps = ps"
  by (subst parseLoop.simps) (simp add: regex_search.simps conn_re_needs_word)

lemma parseLoop_pair:
  assumes "first conn_re str [(1, k), (2, raw)] rest"
  shows "parseLoop str ps = parseLoop rest (map_put k (raw_value raw) ps)"
  by (subst parseLoop.simps) (simp add: regex_search_first [OF assms] capture_def)

text \<open>One pair in front of the end or of a blank, and a text of pairs in front of anything.\<close>

lemma parseLoop_plain:
  assumes "plain_pair (k, v)" and "rest = [] \<or> is_blank (hd rest)"
  shows "parseLoop (k @ CHR ''='' # esc_value v @ rest) ps = parseLoop rest (map_put k v ps)"
proof -
  have ok: "k \<noteq> []" "list_all is_word_char k" "v \<noteq> []" "list_all (\<lambda>c. \<not> is_blank c) v"
    using assms(1) by (simp_all add: plain_pair_def)
  note raw = esc_value_raw [OF ok(3,4)]
  have "first (RAlt quoted_re plain_re) (esc_value v @ rest) [] rest"
    by (rule first_plain_value [OF raw(1,2,3) assms(2)])
  from first_pair [OF ok(1,2) raw(1,4) this] show ?thesis
    using parseLoop_pair by (simp add: raw(5))
qed

lemma parseLoop_text_then:
  assumes "list_all plain_pair kvs"
  shows "parseLoop (conn_text kvs @ z) ps = parseLoop z (fold (\<lambda>(k, v). map_put k v) kvs ps)"
  using assms
proof (induction kvs arbitrary: ps)
  case Nil
  then show ?case by (simp add: conn_text_def)
next
  case (Cons kv kvs)
  obtain k v where kv: "kv = (k, v)" by (cases kv)
  let ?rest = "CHR '' '' # conn_text kvs @ z"
  have "parseLoop (k @ CHR ''='' # esc_value v @ ?rest) ps = parseLoop ?rest (map_put k v ps)"
    by (rule parseLoop_plain) (use Cons.prems kv in \<open>simp_all add: is_blank_def\<close>)
  moreover have "parseLoop ?rest q = parseLoop (conn_text kvs @ z) q" for q
    by (rule parseLoop_skip) (simp add: is_word_char_def less_eq_char_def)
  ultimately show ?case using Cons by (simp add: kv conn_text_def)
qed

lemma parseLoop_text: "list_all plain_pair kvs \<Longrightarrow> parseLoop (conn_text kvs) ps = fold (\<lambda>(k, v). map_put k v) kvs ps"
  using parseLoop_text_then [of kvs "[]" ps] by (simp add: parseLoop_end)

text \<open>The last pair needs no blank behind it.\<close>

lemma parseLoop_last:
  assumes "list_all plain_pair kvs" and "plain_pair (k, v)"
  shows "parseLoop (conn_text kvs @ k @ CHR ''='' # esc_value v) ps = map_put k v (fold (\<lambda>(k, v). map_put k v) kvs ps)"
  using parseLoop_plain [OF assms(2), of "[]"] by (simp add: parseLoop_text_then [OF assms(1)] parseLoop_end)

lemma map_of_fold_put: "map_of (fold (\<lambda>(k, v). map_put k v) kvs ps) = map_of ps ++ map_of (rev kvs)"
  by (induction kvs arbitrary: ps) (auto simp: map_of_map_put split: prod.splits)



section \<open>Quoted values\<close>

text \<open>Greedy matching within one line: everything, or all but the last character.\<close>

lemma in_quotes_line:
  assumes "list_all (\<lambda>c. c \<noteq> CHR 0x0A) u" and "q \<noteq> CHR 0x0A" and "q \<noteq> backslash"
  shows "\<exists>ms. rx_run (RStar in_quotes) (u @ [q]) = ([], []) # ([], [q]) # ms"
  using assms(1)
proof (induction u)
  case Nil
  have e: "rx_run (RStar in_quotes) [] = [([], [])]"
    unfolding run_star [of in_quotes "[]"] by (simp add: in_quotes_def)
  have "rx_run in_quotes [q] = [([], [])]" using assms(2,3) by (auto simp: in_quotes_def)
  then show ?case
    using e run_star [of in_quotes "[q]"] by (simp add: and_then_def del: rx_run.simps(4))
next
  case (Cons c u)
  then obtain ms where ms: "rx_run (RStar in_quotes) (u @ [q]) = ([], []) # ([], [q]) # ms" by auto
  have "\<exists>ns. rx_run in_quotes (c # u @ [q]) = ([], u @ [q]) # ns" using Cons.prems by (simp add: in_quotes_def)
  then show ?case using run_star [of in_quotes "(c # u) @ [q]"]
    by (auto simp: and_then_def ms simp del: rx_run.simps(4))
qed

lemma first_quoted_line:
  assumes "u \<noteq> []" and "list_all (\<lambda>c. c \<noteq> CHR 0x0A) u"
  shows "first quoted_re (quote_char # u @ [quote_char]) [] []"
proof -
  obtain c cs where u: "u = c # cs" using assms(1) by (cases u) auto
  have q: "quote_char \<noteq> CHR 0x0A" "quote_char \<noteq> backslash"
    by (simp_all add: quote_char_def backslash_def)
  obtain ms where ms: "rx_run (RStar in_quotes) (cs @ [quote_char]) = ([], []) # ([], [quote_char]) # ms"
    using in_quotes_line [of cs quote_char] assms(2) q u by auto
  have "\<exists>ns. rx_run in_quotes (u @ [quote_char]) = ([], cs @ [quote_char]) # ns"
    using assms(2) by (simp add: in_quotes_def u)
  then have "\<exists>ms. rx_run (RPlus in_quotes) (u @ [quote_char]) = ([], []) # ([], [quote_char]) # ms"
    by (auto simp: RPlus_def and_then_def ms simp del: rx_run.simps(4))
  then show ?thesis
    unfolding quoted_re_def first_def by (auto simp: and_then_def simp del: rx_run.simps(4))
qed

definition quoted_pair :: "string \<Rightarrow> string \<Rightarrow> string" where
  "quoted_pair k v = k @ ''='' @ [quote_char] @ v @ [quote_char]"

lemma parse_quoted:
  assumes "k \<noteq> []" and "list_all is_word_char k" and "u \<noteq> []" and "list_all (\<lambda>c. c \<noteq> CHR 0x0A) u"
  shows "parseConnString (quoted_pair k u) = [(k, unescape_loop True (u @ [quote_char]))]"
proof -
  have "first (RAlt quoted_re plain_re) ((quote_char # u @ [quote_char]) @ []) [] []"
    using first_alt [OF first_quoted_line [OF assms(3,4)]] by simp
  from first_pair [OF assms(1,2) _ _ this]
  have "first conn_re (quoted_pair k u) [(1, k), (2, quote_char # u @ [quote_char])] []"
    by (simp add: quoted_pair_def quote_char_def)
  from parseLoop_pair [OF this] show ?thesis
    by (simp add: parseConnString_def parseLoop_end raw_value_def is_quoted_def)
qed

text \<open>
  Two quoted values on one line are one match: the parser does not stop at the closing
  quote of the first value, and the second pair, its key and quotes included, becomes a part of
  the value of the first key; the second key is not set.
\<close>

theorem quoted_values_merge:
  assumes "k1 \<noteq> []" and "list_all is_word_char k1"
    and "list_all (\<lambda>c. c \<noteq> CHR 0x0A) (v1 @ k2 @ v2)"
  shows "parseConnString (quoted_pair k1 v1 @ '' '' @ quoted_pair k2 v2) =
    [(k1, unescape_loop True (v1 @ [quote_char] @ '' '' @ quoted_pair k2 v2))]"
  using parse_quoted [of k1 "v1 @ [quote_char] @ '' '' @ k2 @ ''='' @ [quote_char] @ v2"] assms
  by (simp add: quoted_pair_def quote_char_def)

theorem quoted_values_merge_witness:
  "parseConnString (quoted_pair ''user'' ''a'' @ '' '' @ quoted_pair ''password'' ''b'') =
     [(''user'', ''a'' @ [quote_char] @ '' password='' @ [quote_char] @ ''b'')]"
proof -
  have "parseConnString (quoted_pair ''user'' ''a'' @ '' '' @ quoted_pair ''password'' ''b'') =
    [(''user'', unescape_loop True (''a'' @ [quote_char] @ '' '' @ quoted_pair ''password'' ''b''))]"
    by (rule quoted_values_merge) (simp_all add: is_word_char_def less_eq_char_def)
  then show ?thesis by (simp add: quoted_pair_def quote_char_def backslash_def)
qed

lemma map_put_keys: "set (map fst (map_put k v kvs)) = insert k (set (map fst kvs))"
  by (induction k v kvs rule: map_put.induct) auto

lemma map_put_sorted: "sorted_wrt (<) (map fst kvs) \<Longrightarrow> sorted_wrt (<) (map fst (map_put k v kvs))"
proof (induction k v kvs rule: map_put.induct)
  case (2 k v k' v' kvs)
  then show ?case using map_put_keys [of k v kvs] by (auto simp: not_less)
qed simp

lemma parseLoop_sorted: "sorted_wrt (<) (map fst ps) \<Longrightarrow> sorted_wrt (<) (map fst (parseLoop str ps))"
proof (induction str ps rule: parseLoop.induct)
  case (1 str ps)
  show ?case
  proof (cases "regex_search conn_re str")
    case None
    with 1(2) show ?thesis by (subst parseLoop.simps) simp
  next
    case (Some m)
    obtain caps suffix where m: "m = (caps, suffix)" by (cases m)
    show ?thesis
      using "1.IH" [OF Some m [symmetric] map_put_sorted [OF 1(2)]] Some m by (subst parseLoop.simps) simp
  qed
qed

text \<open>
  The parameters are in the order of their keys and no key is there twice, whatever the
  connection string is.
\<close>

theorem conn_params_sorted: "sorted_wrt (<) (map fst (parseConnString connInfo))"
  by (simp add: parseConnString_def parseLoop_sorted)

end
