(* ===== verification/Decimal.thy ===== *)
theory Decimal
  imports DbException
begin

text \<open>
  Numbers and their decimal text, as the functions of the standard library that the program
  calls write and read them: \<^verbatim>\<open>std::to_string\<close>, \<^verbatim>\<open>atol\<close>, \<^verbatim>\<open>atoll\<close>, \<^verbatim>\<open>atoi\<close>, \<^verbatim>\<open>std::stoi\<close>, \<^verbatim>\<open>std::stol\<close>,
  \<^verbatim>\<open>std::stoul\<close>, \<^verbatim>\<open>std::stoull\<close>.  A number is read from the front of the text; what follows its
  digits is ignored.
\<close>

section \<open>Letters\<close>

text \<open>\<^verbatim>\<open>tolower\<close> in the locale of C.\<close>

definition lower_char :: "char \<Rightarrow> char" where
  "lower_char c =
     (if 65 \<le> (of_char c :: nat) \<and> (of_char c :: nat) \<le> 90 then char_of (of_char c + 32 :: nat) else c)"

section \<open>Writing\<close>

fun dec_digits :: "nat \<Rightarrow> string" where
  "dec_digits n =
     (if n < 10 then [char_of (48 + n)] else dec_digits (n div 10) @ [char_of (48 + n mod 10)])"

declare dec_digits.simps [simp del]

definition to_string :: "int \<Rightarrow> string" where
  "to_string i = (if i < 0 then CHR ''-'' # dec_digits (nat (- i)) else dec_digits (nat i))"

section \<open>Reading\<close>

definition is_digit :: "char \<Rightarrow> bool" where
  "is_digit c \<longleftrightarrow> 48 \<le> (of_char c :: nat) \<and> (of_char c :: nat) \<le> 57"

definition is_space :: "char \<Rightarrow> bool" where
  "is_space c \<longleftrightarrow> c = CHR '' '' \<or> (9 \<le> (of_char c :: nat) \<and> (of_char c :: nat) \<le> 13)"

fun take_digits :: "int \<Rightarrow> string \<Rightarrow> int" where
  "take_digits acc [] = acc"
| "take_digits acc (c # cs) =
     (if is_digit c then take_digits (acc * 10 + (of_char c - 48)) cs else acc)"

definition unsigned_number :: "string \<Rightarrow> int option" where
  "unsigned_number z =
     (case z of c # _ \<Rightarrow> if is_digit c then Some (take_digits 0 z) else None | [] \<Rightarrow> None)"

text \<open>Blanks, an optional sign, digits; \<open>None\<close> when no conversion can be performed.\<close>

fun number :: "string \<Rightarrow> int option" where
  "number [] = None"
| "number (c # cs) =
     (if is_space c then number cs
      else if c = CHR ''-'' then map_option uminus (unsigned_number cs)
      else if c = CHR ''+'' then unsigned_number cs
      else unsigned_number (c # cs))"

text \<open>
  \<^verbatim>\<open>strtol\<close> and \<^verbatim>\<open>strtoll\<close> keep a value that does not fit at the nearest 64-bit one and return 0
  when there is no number; \<^verbatim>\<open>atol\<close> and \<^verbatim>\<open>atoll\<close> return the result as it is, \<^verbatim>\<open>atoi\<close> its low half.
\<close>

definition atol :: "string \<Rightarrow> int" where
  "atol z = (case number z of None \<Rightarrow> 0 | Some i \<Rightarrow> max (- (2 ^ 63)) (min i (2 ^ 63 - 1)))"

definition atoi :: "string \<Rightarrow> 32 word" where
  "atoi z = word_of_int (atol z)"

definition checked :: "string \<Rightarrow> int \<Rightarrow> int \<Rightarrow> int option \<Rightarrow> fault + int" where
  "checked fn lo hi r =
     (case r of
        None \<Rightarrow> Inl (Throw (mk_exn StdInvalidArgument fn))
      | Some i \<Rightarrow> if lo \<le> i \<and> i \<le> hi then Inr i else Inl (Throw (mk_exn StdOutOfRange fn)))"

definition stoi :: "string \<Rightarrow> fault + 32 word" where
  "stoi z = obind (checked ''stoi'' (- (2 ^ 31)) (2 ^ 31 - 1) (number z)) (\<lambda>i. Inr (word_of_int i))"

definition stol :: "string \<Rightarrow> fault + 64 word" where
  "stol z = obind (checked ''stol'' (- (2 ^ 63)) (2 ^ 63 - 1) (number z)) (\<lambda>i. Inr (word_of_int i))"

text \<open>The unsigned readers take a sign too, and return the negative modulo $2^{64}$.\<close>

definition stoul :: "string \<Rightarrow> fault + 64 word" where
  "stoul z = obind (checked ''stoul'' (- (2 ^ 64 - 1)) (2 ^ 64 - 1) (number z)) (\<lambda>i. Inr (word_of_int i))"

definition stoull :: "string \<Rightarrow> fault + 64 word" where
  "stoull z = obind (checked ''stoull'' (- (2 ^ 64 - 1)) (2 ^ 64 - 1) (number z)) (\<lambda>i. Inr (word_of_int i))"

section \<open>Reading what was written\<close>

lemma digit_char: "n < 10 \<Longrightarrow> (of_char (char_of (48 + n :: nat)) :: nat) = 48 + n"
  by (simp add: of_char_of)

lemma digit_char_int: "n < 10 \<Longrightarrow> (of_char (char_of (48 + n :: nat)) :: int) = 48 + int n"
proof -
  assume "n < 10"
  then have "int (of_char (char_of (48 + n :: nat)) :: nat) = int (48 + n)"
    by (simp only: digit_char)
  then show ?thesis by (simp only: of_nat_of_char of_nat_add of_nat_numeral)
qed

lemma take_digit:
  "k < 10 \<Longrightarrow> take_digits acc (char_of (48 + k :: nat) # cs) = take_digits (acc * 10 + int k) cs"
  by (simp add: is_digit_def digit_char digit_char_int)

lemma take_digits_app:
  "take_digits acc (dec_digits n @ cs) = take_digits (acc * 10 ^ length (dec_digits n) + int n) cs"
proof -
  show ?thesis
  proof (induction n arbitrary: acc cs rule: dec_digits.induct)
    case (1 n)
    show ?case
    proof (cases "n < 10")
      case True
      then have d: "dec_digits n = [char_of (48 + n)]" by (subst dec_digits.simps) simp
      have "take_digits acc (dec_digits n @ cs) = take_digits acc (char_of (48 + n) # cs)"
        by (simp only: d append.simps)
      also have "\<dots> = take_digits (acc * 10 + int n) cs" by (rule take_digit [OF True])
      also have "acc * 10 + int n = acc * 10 ^ length (dec_digits n) + int n" unfolding d by simp
      finally show ?thesis .
    next
      case False
      have m: "n mod 10 < 10" by simp
      have "take_digits acc (dec_digits n @ cs) =
          take_digits (acc * 10 ^ length (dec_digits (n div 10)) + int (n div 10))
            (char_of (48 + n mod 10) # cs)"
        using 1 [OF False] False by (simp add: dec_digits.simps [of n])
      also have "\<dots> = take_digits ((acc * 10 ^ length (dec_digits (n div 10)) + int (n div 10)) * 10 +
          int (n mod 10)) cs"
        by (rule take_digit [OF m])
      also have "(acc * 10 ^ length (dec_digits (n div 10)) + int (n div 10)) * 10 + int (n mod 10) =
          acc * 10 ^ length (dec_digits n) + int n"
      proof -
        have "length (dec_digits n) = Suc (length (dec_digits (n div 10)))"
          using False by (simp add: dec_digits.simps [of n])
        moreover have "int n = int (n div 10) * 10 + int (n mod 10)"
          by (metis div_mult_mod_eq of_nat_add of_nat_mult of_nat_numeral)
        ultimately show ?thesis by (simp add: algebra_simps)
      qed
      finally show ?thesis .
    qed
  qed
qed

lemma dec_digits_head: "\<exists>k cs. dec_digits n = char_of (48 + k :: nat) # cs \<and> k < 10"
proof (induction n rule: dec_digits.induct)
  case (1 n)
  show ?case
  proof (cases "n < 10")
    case True
    then show ?thesis
      by (intro exI [of _ n] exI [of _ "[]"]) (simp add: dec_digits.simps [of n])
  next
    case False
    then obtain k cs where "dec_digits (n div 10) = char_of (48 + k :: nat) # cs" "k < 10"
      using 1 by blast
    then show ?thesis using False
      by (intro exI [of _ k] exI [of _ "cs @ [char_of (48 + n mod 10)]"]) (simp add: dec_digits.simps [of n])
  qed
qed

lemma digit_is_digit: "k < 10 \<Longrightarrow> is_digit (char_of (48 + k :: nat))"
  by (simp add: is_digit_def digit_char)

lemma digit_no_sign: "is_digit c \<Longrightarrow> \<not> is_space c \<and> c \<noteq> CHR ''-'' \<and> c \<noteq> CHR ''+''"
  by (auto simp: is_digit_def is_space_def)

lemma dec_digits_starts: "\<exists>c cs. dec_digits n = c # cs \<and> is_digit c"
  using dec_digits_head [of n] digit_is_digit by blast

lemma unsigned_number_dec: "unsigned_number (dec_digits n) = Some (int n)"
  using dec_digits_starts [of n] take_digits_app [of 0 n "[]"] by (auto simp: unsigned_number_def)

lemma number_to_string: "number (to_string i) = Some i"
proof (cases "i < 0")
  case True
  then show ?thesis by (simp add: to_string_def unsigned_number_dec is_space_def)
next
  case False
  then obtain c cs where c: "dec_digits (nat i) = c # cs" "is_digit c"
    using dec_digits_starts by blast
  have "number (dec_digits (nat i)) = unsigned_number (dec_digits (nat i))"
    using digit_no_sign [OF c(2)] by (simp add: c(1))
  then show ?thesis using False by (simp add: to_string_def unsigned_number_dec)
qed

lemma sint_range:
  "- (2 ^ 63) \<le> sint (w :: 64 word)" "sint (w :: 64 word) \<le> 2 ^ 63 - 1"
  "- (2 ^ 31) \<le> sint (v :: 32 word)" "sint (v :: 32 word) \<le> 2 ^ 31 - 1"
  using sint_range_size [of w] sint_range_size [of v] by (simp_all add: word_size)

lemma decimal_64: "atol (to_string (sint (w :: 64 word))) = sint w"
  using sint_range(1,2) [of w] by (simp add: atol_def number_to_string)

lemma stoi_to_string: "stoi (to_string (sint (v :: 32 word))) = Inr v"
  using sint_range(3,4) [of v] by (simp add: stoi_def checked_def number_to_string)

lemma stol_to_string: "stol (to_string (sint (w :: 64 word))) = Inr w"
  using sint_range(1,2) [of w] by (simp add: stol_def checked_def number_to_string)

lemma stoul_to_string: "stoul (to_string (uint (w :: 64 word))) = Inr w"
proof -
  have "uint w < 2 ^ 64" using uint_lt2p [of w] by simp
  moreover have "- (2 ^ 64 - 1) \<le> uint w" by (rule order_trans [OF _ uint_ge_0]) simp
  ultimately show ?thesis by (simp add: stoul_def checked_def number_to_string)
qed

lemma stoull_to_string: "stoull (to_string (uint (w :: 64 word))) = Inr w"
proof -
  have "uint w < 2 ^ 64" using uint_lt2p [of w] by simp
  moreover have "- (2 ^ 64 - 1) \<le> uint w" by (rule order_trans [OF _ uint_ge_0]) simp
  ultimately show ?thesis by (simp add: stoull_def checked_def number_to_string)
qed

text \<open>Digits only, also behind leading zeros.\<close>

lemma dec_digits_all: "list_all is_digit (dec_digits n)"
proof (induction n rule: dec_digits.induct)
  case (1 n)
  then show ?case
    by (cases "n < 10") (simp_all add: dec_digits.simps [of n] digit_is_digit)
qed

lemma take_digits_zeros: "take_digits 0 (replicate k CHR ''0'' @ cs) = take_digits 0 cs"
  by (induction k) (simp_all add: is_digit_def)

lemma number_zeros: "number (replicate k CHR ''0'' @ dec_digits n) = Some (int n)"
proof (cases k)
  case 0
  then show ?thesis using number_to_string [of "int n"] by (simp add: to_string_def)
next
  case (Suc j)
  have "take_digits 0 (replicate k CHR ''0'' @ dec_digits n) = int n"
    using take_digits_app [of 0 n "[]"] by (simp add: take_digits_zeros)
  then show ?thesis using Suc by (simp add: unsigned_number_def is_digit_def is_space_def)
qed

lemma to_string_no_NUL: "CHR 0x00 \<notin> set (to_string i)"
proof -
  have "CHR 0x00 \<notin> set (dec_digits n)" for n
    using dec_digits_all [of n] by (auto simp: list_all_iff is_digit_def)
  then show ?thesis by (simp add: to_string_def)
qed

lemma dec_digits_length: "n < 10 ^ k \<Longrightarrow> 0 < k \<Longrightarrow> length (dec_digits n) \<le> k"
proof (induction k arbitrary: n)
  case (Suc k)
  show ?case
  proof (cases "n < 10")
    case True
    then show ?thesis by (simp add: dec_digits.simps [of n])
  next
    case False
    then have "0 < k" using Suc.prems by (cases k) auto
    moreover have "n div 10 < 10 ^ k" using Suc.prems by (simp add: less_mult_imp_div_less mult.commute)
    ultimately have "length (dec_digits (n div 10)) \<le> k" using Suc.IH by blast
    then show ?thesis using False by (simp add: dec_digits.simps [of n])
  qed
qed simp

end
