(* ===== verification/MySQLConnector.thy ===== *)
theory MySQLConnector
  imports EpollPoller ConnString Decimal
begin

text \<open>
  The connection of \<^verbatim>\<open>MySQLImpl/MySQLConnector.cpp\<close>, with the base class of
  \<^verbatim>\<open>db/DbConnection.h\<close>: connecting, setting the character set, running one query at a time over
  the non-blocking interface of the MariaDB client, and closing.

  The client library, the logger and the user's callbacks are parameters, collected in the
  record \<open>client\<close>: each function of the library maps its arguments and a library state \<open>'m\<close> to
  its results; \<open>fatal_exits\<close> tells whether a message of severity \<^verbatim>\<open>FATAL\<close> ends the process, as
  the documentation of the logger says it does; \<open>user\<close> is what a callback does.  All handlers
  run in the loop's thread.
\<close>

section \<open>Statuses and constants\<close>

datatype connect_status = NotConnected | Connecting | SettingCharacterSet | ConnOk | Bad
datatype exec_status = NoExec | RealQuery | StoreResult | NextResult

text \<open>The bits by which the library says what it waits for, and two of its error numbers.\<close>

definition MYSQL_WAIT_READ :: mask where "MYSQL_WAIT_READ = 1"
definition MYSQL_WAIT_WRITE :: mask where "MYSQL_WAIT_WRITE = 2"
definition MYSQL_WAIT_EXCEPT :: mask where "MYSQL_WAIT_EXCEPT = 4"
definition MYSQL_WAIT_TIMEOUT :: mask where "MYSQL_WAIT_TIMEOUT = 8"

lemmas wait_bits = MYSQL_WAIT_READ_def MYSQL_WAIT_WRITE_def MYSQL_WAIT_EXCEPT_def
  MYSQL_WAIT_TIMEOUT_def

definition CR_SERVER_GONE_ERROR :: nat where "CR_SERVER_GONE_ERROR = 2006"
definition CR_SERVER_LOST :: nat where "CR_SERVER_LOST = 2013"

section \<open>Text of values\<close>

text \<open>
  A bound parameter: the format code of \<^verbatim>\<open>db/DbTypes.h\<close> with the value that the pointer of that
  format refers to; \<open>PUnknown\<close> is any other code.
\<close>

datatype sql_param =
    MySqlTiny "8 word"
  | MySqlShort "16 word"
  | MySqlLong "32 word"
  | MySqlLongLong "64 word"
  | MySqlNull
  | MySqlString string
  | DrogonDefaultValue
  | PUnknown int

fun param_text :: "(string \<Rightarrow> string) \<Rightarrow> sql_param \<Rightarrow> fault + string" where
  "param_text esc (MySqlTiny w) = Inr (to_string (sint w))"
| "param_text esc (MySqlShort w) = Inr (to_string (sint w))"
| "param_text esc (MySqlLong w) = Inr (to_string (sint w))"
| "param_text esc (MySqlLongLong w) = Inr (to_string (sint w))"
| "param_text esc MySqlNull = Inr ''NULL''"
| "param_text esc (MySqlString v) = Inr (CHR 0x27 # esc v @ [CHR 0x27])"
| "param_text esc DrogonDefaultValue = Inr ''default''"
| "param_text esc (PUnknown c) = Inl ProcessExit"

text \<open>\<^verbatim>\<open>sql.find('?', pos)\<close> on the text from \<^verbatim>\<open>pos\<close> on: what is before and after it.\<close>

fun find_mark :: "string \<Rightarrow> (string \<times> string) option" where
  "find_mark [] = None"
| "find_mark (c # cs) =
     (if c = CHR ''?'' then Some ([], cs)
      else map_option (\<lambda>(pre, post). (c # pre, post)) (find_mark cs))"

fun bind_params :: "(string \<Rightarrow> string) \<Rightarrow> string \<Rightarrow> sql_param list \<Rightarrow> fault + string" where
  "bind_params esc rest [] = Inr rest"
| "bind_params esc rest (p # ps) =
     (case find_mark rest of
        None \<Rightarrow> Inr rest
      | Some (pre, post) \<Rightarrow>
          obind (param_text esc p) (\<lambda>t. obind (bind_params esc post ps) (\<lambda>r. Inr (pre @ t @ r))))"

section \<open>The connection\<close>

text \<open>What the connection calls, as the log of a run records it, and what it queues.\<close>

datatype user_call =
    ResultCall nat "nat option" nat nat
  | ExceptCall nat exn
  | OkCall
  | CloseCall
  | IdleCall

datatype conn_task =
    InitTask
  | OutputErrorTask
  | GetResultTask "nat option"
  | ExecTask string nat "sql_param list" "nat option" "nat option"

text \<open>
  \<open>mysql\<close> is \<^verbatim>\<open>mysqlPtr_\<close>, \<open>disp\<close> is \<^verbatim>\<open>eventDispatcherPtr_\<close>, both null when \<open>None\<close>; \<open>pl\<close> is the
  poller; a callback is the number of a closure; \<open>queued\<close> is what the connection has put into
  the loop's queue, \<open>timeouts\<close> the timers it has asked for.
\<close>

record ('m, 'p) conn =
  mysql :: "'m option"
  cstatus :: connect_status
  execStatus :: exec_status
  waitStatus :: mask
  disp :: "unit dispatcher option"
  pl :: 'p
  host :: string
  user_name :: string
  passwd :: string
  dbname :: string
  port :: string
  characterSet :: string
  sql :: string
  isWorking :: bool
  callback :: "nat option"
  exceptionCallback :: "nat option"
  okSet :: bool
  closeSet :: bool
  idleSet :: bool
  queued :: "conn_task list"
  timeouts :: "nat list"
  calls :: "user_call list"

record conn_args =
  a_host :: "string option"
  a_user :: "string option"
  a_passwd :: "string option"
  a_dbname :: "string option"
  a_port :: "32 word"

record ('m, 'p) client =
  set_option :: "string \<Rightarrow> nat \<Rightarrow> 'm \<Rightarrow> 'm"
  real_connect_start :: "conn_args \<Rightarrow> 'm \<Rightarrow> mask \<times> bool \<times> 'm"
  real_connect_cont :: "mask \<Rightarrow> 'm \<Rightarrow> mask \<times> bool \<times> 'm"
  set_character_set_start :: "string \<Rightarrow> 'm \<Rightarrow> mask \<times> int \<times> 'm"
  set_character_set_cont :: "mask \<Rightarrow> 'm \<Rightarrow> mask \<times> int \<times> 'm"
  real_query_start :: "string \<Rightarrow> 'm \<Rightarrow> mask \<times> int \<times> 'm"
  real_query_cont :: "mask \<Rightarrow> 'm \<Rightarrow> mask \<times> int \<times> 'm"
  store_result_start :: "'m \<Rightarrow> mask \<times> nat option \<times> 'm"
  store_result_cont :: "mask \<Rightarrow> 'm \<Rightarrow> mask \<times> nat option \<times> 'm"
  next_result_start :: "'m \<Rightarrow> mask \<times> int \<times> 'm"
  next_result_cont :: "mask \<Rightarrow> 'm \<Rightarrow> mask \<times> int \<times> 'm"
  more_results :: "'m \<Rightarrow> bool"
  client_errno :: "'m \<Rightarrow> nat"
  client_error :: "'m \<Rightarrow> string"
  affected_rows :: "'m \<Rightarrow> nat"
  insert_id :: "'m \<Rightarrow> nat"
  get_socket :: "'m \<Rightarrow> int"
  get_timeout_value :: "'m \<Rightarrow> nat"
  escape_string :: "'m \<Rightarrow> string \<Rightarrow> string"
  cupd :: "(unit, 'p) registrar"
  crem :: "(unit, 'p) registrar"
  cloop :: nat
  fatal_exits :: bool
  user :: "user_call \<Rightarrow> (('m, 'p) conn, fault) act"

type_synonym ('m, 'p) step = "(('m, 'p) conn, fault) act"

section \<open>Building blocks\<close>

definition log_fatal :: "('m, 'p) client \<Rightarrow> ('m, 'p) step" where
  "log_fatal env s = (if fatal_exits env then raise ProcessExit s else skip s)"

text \<open>An access through a null pointer, be it \<^verbatim>\<open>mysqlPtr_\<close> or \<^verbatim>\<open>eventDispatcherPtr_\<close>.\<close>

definition with_mysql :: "('m \<Rightarrow> ('m, 'p) step) \<Rightarrow> ('m, 'p) step" where
  "with_mysql f s = (case mysql s of None \<Rightarrow> raise NullDeref s | Some m \<Rightarrow> f m s)"

definition on_disp :: "(unit, 'p) registrar \<Rightarrow> ('m, 'p) step" where
  "on_disp f s =
     (case disp s of
        None \<Rightarrow> raise NullDeref s
      | Some d \<Rightarrow>
          (case f d (pl s) of Inl e \<Rightarrow> raise e s
           | Inr (d', p') \<Rightarrow> skip (s\<lparr>disp := Some d', pl := p'\<rparr>)))"

definition bad_function_call :: fault where
  "bad_function_call = Throw (mk_exn StdException ''bad_function_call'')"

definition call_user :: "('m, 'p) client \<Rightarrow> user_call option \<Rightarrow> ('m, 'p) step" where
  "call_user env c s = (case c of None \<Rightarrow> raise bad_function_call s | Some u \<Rightarrow> user env u s)"

definition enqueue_task :: "conn_task \<Rightarrow> ('m, 'p) step" where
  "enqueue_task t s = skip (s\<lparr>queued := queued s @ [t]\<rparr>)"

text \<open>The optional callbacks guarded by \<^verbatim>\<open>if (okCallback_)\<close> and \<^verbatim>\<open>if (closeCallback_)\<close>.\<close>

definition call_ok :: "('m, 'p) client \<Rightarrow> ('m, 'p) step" where
  "call_ok env s = (if okSet s then user env OkCall s else skip s)"

definition call_close :: "('m, 'p) client \<Rightarrow> ('m, 'p) step" where
  "call_close env s = (if closeSet s then user env CloseCall s else skip s)"

definition call_idle :: "('m, 'p) client \<Rightarrow> ('m, 'p) step" where
  "call_idle env s = call_user env (if idleSet s then Some IdleCall else None) s"

section \<open>What the dispatcher watches\<close>

definition setEventDispatcher :: "('m, 'p) client \<Rightarrow> ('m, 'p) step" where
  "setEventDispatcher env =
     andThen (\<lambda>s.
       if waitStatus s AND MYSQL_WAIT_READ \<noteq> 0 \<or> waitStatus s AND MYSQL_WAIT_EXCEPT \<noteq> 0 then
         on_disp (\<lambda>d p. if \<not> isReading d then enableReading (cupd env) d p else Inr (d, p)) s
       else skip s)
    (andThen (\<lambda>s.
       if waitStatus s AND MYSQL_WAIT_WRITE \<noteq> 0 then
         on_disp (\<lambda>d p. if \<not> isWriting d then enableWriting (cupd env) d p else Inr (d, p)) s
       else
         on_disp (\<lambda>d p. if isWriting d then disableWriting (cupd env) d p else Inr (d, p)) s)
     (\<lambda>s.
       if waitStatus s AND MYSQL_WAIT_TIMEOUT \<noteq> 0 then
         with_mysql (\<lambda>m s. skip (s\<lparr>timeouts := timeouts s @ [get_timeout_value env m]\<rparr>)) s
       else skip s))"

definition shut_dispatcher :: "('m, 'p) client \<Rightarrow> ('m, 'p) step" where
  "shut_dispatcher env =
     andThen (on_disp (disableAll (cupd env))) (on_disp (remove_dispatcher (crem env)))"

section \<open>Closing\<close>

definition handleClosed :: "('m, 'p) client \<Rightarrow> ('m, 'p) step" where
  "handleClosed env s =
     (if cstatus s = Bad then skip s
      else
        andThen (shut_dispatcher env)
          (\<lambda>s. if \<not> closeSet s then raise AssertFail s else user env CloseCall s)
          (s\<lparr>cstatus := Bad\<rparr>))"

text \<open>The closure that \<^verbatim>\<open>disconnect\<close> runs in the loop and waits for.\<close>

definition disconnect_in_loop :: "('m, 'p) client \<Rightarrow> ('m, 'p) step" where
  "disconnect_in_loop env s =
     andThen (shut_dispatcher env) (\<lambda>s. skip (s\<lparr>mysql := None\<rparr>)) (s\<lparr>cstatus := Bad\<rparr>)"

section \<open>Queries\<close>

definition outputError :: "('m, 'p) client \<Rightarrow> ('m, 'p) step" where
  "outputError env =
     andThen (on_disp (disableAll (cupd env)))
       (with_mysql (\<lambda>m.
          let lost = client_errno env m = CR_SERVER_GONE_ERROR \<or> client_errno env m = CR_SERVER_LOST in
          andThen (log_fatal env)
         (andThen (\<lambda>s.
            if isWorking s then
              andThen (\<lambda>s. call_user env (map_option (\<lambda>c. ExceptCall c
                        (mk_SqlError (client_error env m) (sql s) None)) (exceptionCallback s)) s)
             (andThen (\<lambda>s. skip (s\<lparr>callback := None, exceptionCallback := None, isWorking := False\<rparr>))
               (\<lambda>s. if \<not> lost then call_idle env s else skip s)) s
            else skip s)
          (\<lambda>s. if lost then handleClosed env s else skip s))))"

text \<open>
  \<^verbatim>\<open>startStoreResult\<close> and \<^verbatim>\<open>getResult\<close> call each other when results are there at once; the fuel
  bounds how often.
\<close>

fun startStoreResult :: "('m, 'p) client \<Rightarrow> nat \<Rightarrow> bool \<Rightarrow> ('m, 'p) step"
  and getResult :: "('m, 'p) client \<Rightarrow> nat \<Rightarrow> nat option \<Rightarrow> ('m, 'p) step" where
  "startStoreResult env n queueIt s =
     with_mysql (\<lambda>m s.
       let (w, ret, m') = store_result_start env m;
           s1 = s\<lparr>execStatus := StoreResult, waitStatus := w, mysql := Some m'\<rparr> in
       if w \<noteq> 0 then skip s1
       else
         let s2 = s1\<lparr>execStatus := NoExec\<rparr> in
         if ret = None \<and> client_errno env m' \<noteq> 0 then
           if queueIt then enqueue_task OutputErrorTask s2 else outputError env s2
         else if queueIt then enqueue_task (GetResultTask ret) s2
         else (case n of 0 \<Rightarrow> raise NotReturned s2 | Suc k \<Rightarrow> getResult env k ret s2)) s"
| "getResult env n res s =
     with_mysql (\<lambda>m s.
       if \<not> isWorking s then skip s
       else
         andThen (\<lambda>s. call_user env (map_option (\<lambda>c. ResultCall c res (affected_rows env m) (insert_id env m))
                    (callback s)) s)
           (with_mysql (\<lambda>m s.
              if \<not> more_results env m then
                andThen (\<lambda>s. skip (s\<lparr>callback := None, exceptionCallback := None, isWorking := False\<rparr>))
                  (call_idle env) s
              else
                let (w, err, m') = next_result_start env m;
                    s1 = s\<lparr>execStatus := NextResult, waitStatus := w, mysql := Some m'\<rparr> in
                if w \<noteq> 0 then skip s1
                else if err \<noteq> 0 then
                  andThen (log_fatal env) (outputError env) (s1\<lparr>execStatus := NoExec\<rparr>)
                else (case n of 0 \<Rightarrow> raise NotReturned s1
                      | Suc k \<Rightarrow> startStoreResult env k False s1))) s) s"

declare startStoreResult.simps [simp del] getResult.simps [simp del]

definition startQuery :: "('m, 'p) client \<Rightarrow> nat \<Rightarrow> ('m, 'p) step" where
  "startQuery env n =
     with_mysql (\<lambda>m s.
       let (w, err, m') = real_query_start env (sql s) m;
           s1 = s\<lparr>waitStatus := w, execStatus := RealQuery, mysql := Some m'\<rparr> in
       if w \<noteq> 0 then skip s1
       else if err \<noteq> 0 then andThen (log_fatal env) (enqueue_task OutputErrorTask) s1
       else startStoreResult env n True s1)"

text \<open>
  \<open>npara\<close> is \<^verbatim>\<open>paraNum\<close>; the three vectors are one list, so that the first assertion stands for
  the three on their sizes.
\<close>

definition execSqlInLoop ::
  "('m, 'p) client \<Rightarrow> nat \<Rightarrow> string \<Rightarrow> nat \<Rightarrow> sql_param list \<Rightarrow> nat option \<Rightarrow> nat option \<Rightarrow> ('m, 'p) step" where
  "execSqlInLoop env n q npara ps rcb ecb s =
     (if npara \<noteq> length ps \<or> rcb = None \<or> isWorking s \<or> q = [] then raise AssertFail s
      else
        let s1 = s\<lparr>callback := rcb, isWorking := True, exceptionCallback := ecb, sql := []\<rparr> in
        with_mysql (\<lambda>m s.
          case (if npara > 0 then bind_params (escape_string env m) q ps else Inr q) of
            Inl e \<Rightarrow> raise e s
          | Inr t \<Rightarrow> andThen (startQuery env n) (setEventDispatcher env) (s\<lparr>sql := t\<rparr>)) s1)"

definition execSql ::
  "('m, 'p) client \<Rightarrow> nat \<Rightarrow> bool \<Rightarrow> string \<Rightarrow> nat \<Rightarrow> sql_param list \<Rightarrow> nat option \<Rightarrow> nat option \<Rightarrow> ('m, 'p) step"
where
  "execSql env n inloop q npara ps rcb ecb s =
     (if inloop then execSqlInLoop env n q npara ps rcb ecb s
      else enqueue_task (ExecTask q npara ps rcb ecb) s)"

definition batchSql :: "('m, 'p) step" where
  "batchSql s = raise ProcessExit s"

section \<open>Events of a query\<close>

definition handleCmd :: "('m, 'p) client \<Rightarrow> nat \<Rightarrow> mask \<Rightarrow> ('m, 'p) step" where
  "handleCmd env n status s =
     (case execStatus s of
        RealQuery \<Rightarrow>
          with_mysql (\<lambda>m s.
            let (w, err, m') = real_query_cont env status m; s1 = s\<lparr>waitStatus := w, mysql := Some m'\<rparr> in
            if w = 0 \<and> err \<noteq> 0 then
              andThen (log_fatal env) (outputError env) (s1\<lparr>execStatus := NoExec\<rparr>)
            else andThen (if w = 0 then startStoreResult env n False else skip) (setEventDispatcher env) s1) s
      | StoreResult \<Rightarrow>
          with_mysql (\<lambda>m s.
            let (w, ret, m') = store_result_cont env status m; s1 = s\<lparr>waitStatus := w, mysql := Some m'\<rparr> in
            if w = 0 \<and> ret = None \<and> client_errno env m' \<noteq> 0 then
              andThen (log_fatal env) (outputError env) (s1\<lparr>execStatus := NoExec\<rparr>)
            else andThen (if w = 0 then getResult env n ret else skip) (setEventDispatcher env) s1) s
      | NextResult \<Rightarrow>
          with_mysql (\<lambda>m s.
            let (w, err, m') = next_result_cont env status m; s1 = s\<lparr>waitStatus := w, mysql := Some m'\<rparr> in
            if w = 0 \<and> err \<noteq> 0 then
              andThen (log_fatal env) (outputError env) (s1\<lparr>execStatus := NoExec\<rparr>)
            else andThen (if w = 0 then startStoreResult env n False else skip) (setEventDispatcher env) s1) s
      | NoExec \<Rightarrow> if waitStatus s = 0 then handleClosed env s else skip s)"

section \<open>Connecting\<close>

definition connected :: "('m, 'p) client \<Rightarrow> ('m, 'p) step" where
  "connected env s = call_ok env (s\<lparr>cstatus := ConnOk\<rparr>)"

text \<open>The two messages before a failed step of connecting closes the connection.\<close>

definition connect_failed :: "('m, 'p) client \<Rightarrow> ('m, 'p) step" where
  "connect_failed env = andThen (log_fatal env) (andThen (log_fatal env) (handleClosed env))"

definition startSetCharacterSet :: "('m, 'p) client \<Rightarrow> ('m, 'p) step" where
  "startSetCharacterSet env =
     with_mysql (\<lambda>m s.
       let (w, err, m') = set_character_set_start env (characterSet s) m;
           s1 = s\<lparr>waitStatus := w, mysql := Some m'\<rparr> in
       if w = 0 \<and> err \<noteq> 0 then connect_failed env s1
       else
         andThen (\<lambda>s. if w = 0 then connected env s else skip (s\<lparr>cstatus := SettingCharacterSet\<rparr>))
           (setEventDispatcher env) s1)"

definition continueSetCharacterSet :: "('m, 'p) client \<Rightarrow> mask \<Rightarrow> ('m, 'p) step" where
  "continueSetCharacterSet env status =
     with_mysql (\<lambda>m s.
       let (w, err, m') = set_character_set_cont env status m;
           s1 = s\<lparr>waitStatus := w, mysql := Some m'\<rparr> in
       if w = 0 \<and> err \<noteq> 0 then connect_failed env s1
       else andThen (if w = 0 then connected env else skip) (setEventDispatcher env) s1)"

text \<open>The branch of \<^verbatim>\<open>handleEvent\<close> and \<^verbatim>\<open>handleTimeout\<close> for a connection being made.\<close>

definition continueConnect :: "('m, 'p) client \<Rightarrow> mask \<Rightarrow> ('m, 'p) step" where
  "continueConnect env status =
     with_mysql (\<lambda>m s.
       let (w, ret, m') = real_connect_cont env status m; s1 = s\<lparr>waitStatus := w, mysql := Some m'\<rparr> in
       if w \<noteq> 0 then setEventDispatcher env s1
       else if \<not> ret \<and> client_errno env m' \<noteq> 0 then connect_failed env s1
       else if characterSet s1 = [] then andThen (connected env) (setEventDispatcher env) s1
       else startSetCharacterSet env s1)"

definition handleTimeout :: "('m, 'p) client \<Rightarrow> ('m, 'p) step" where
  "handleTimeout env s =
     (case cstatus s of
        Connecting \<Rightarrow> continueConnect env MYSQL_WAIT_TIMEOUT s
      | SettingCharacterSet \<Rightarrow> continueSetCharacterSet env MYSQL_WAIT_TIMEOUT s
      | _ \<Rightarrow> skip s)"

definition ready_mask :: "mask \<Rightarrow> mask" where
  "ready_mask re =
     (if re AND POLLIN \<noteq> 0 then MYSQL_WAIT_READ else 0) OR
     (if re AND POLLOUT \<noteq> 0 then MYSQL_WAIT_WRITE else 0) OR
     (if re AND POLLPRI \<noteq> 0 then MYSQL_WAIT_EXCEPT else 0)"

definition handleEvent_conn :: "('m, 'p) client \<Rightarrow> nat \<Rightarrow> ('m, 'p) step" where
  "handleEvent_conn env n s =
     (case disp s of
        None \<Rightarrow> raise NullDeref s
      | Some d \<Rightarrow>
          let status = ready_mask (realEvents d) AND waitStatus s in
          (case cstatus s of
             Connecting \<Rightarrow> continueConnect env status s
           | ConnOk \<Rightarrow> handleCmd env n status s
           | SettingCharacterSet \<Rightarrow> continueSetCharacterSet env status s
           | _ \<Rightarrow> skip s))"

section \<open>Starting, and the queued closures\<close>

definition nonempty :: "string \<Rightarrow> string option" where
  "nonempty z = (if z = [] then None else Some z)"

definition connect_args :: "('m, 'p) conn \<Rightarrow> conn_args" where
  "connect_args s =
     \<lparr>a_host = nonempty (host s), a_user = nonempty (user_name s), a_passwd = nonempty (passwd s),
      a_dbname = nonempty (dbname s), a_port = (if port s = [] then 3306 else word_of_int (atol (port s)))\<rparr>"

text \<open>\<^verbatim>\<open>init\<close> queues the closure \<open>init_in_loop\<close>.\<close>

definition init :: "('m, 'p) step" where
  "init = enqueue_task InitTask"

text \<open>The options set before connecting, in seconds.\<close>

definition set_timeouts :: "('m, 'p) client \<Rightarrow> 'm \<Rightarrow> 'm" where
  "set_timeouts env m =
     set_option env ''MYSQL_OPT_WRITE_TIMEOUT'' 10
       (set_option env ''MYSQL_OPT_READ_TIMEOUT'' 10 (set_option env ''MYSQL_OPT_CONNECT_TIMEOUT'' 10 m))"

definition init_in_loop :: "('m, 'p) client \<Rightarrow> ('m, 'p) step" where
  "init_in_loop env s =
     with_mysql (\<lambda>m s.
       let (w, ret, m') = real_connect_start env (connect_args s) (set_timeouts env m);
           s1 = s\<lparr>waitStatus := w, mysql := Some m'\<rparr> in
       if w = 0 \<and> client_errno env m' \<noteq> 0 then andThen (log_fatal env) (call_close env) s1
       else if get_socket env m' < 0 then andThen (log_fatal env) (call_close env) s1
       else
         setEventDispatcher env
           (s1\<lparr>disp := Some (setEventCallback (Some ()) (mk_EventDispatcher (cloop env) (get_socket env m')))\<rparr>))
       (s\<lparr>cstatus := Connecting\<rparr>)"

definition run_conn_task :: "('m, 'p) client \<Rightarrow> nat \<Rightarrow> conn_task \<Rightarrow> ('m, 'p) step" where
  "run_conn_task env n t s =
     (case t of
        InitTask \<Rightarrow> init_in_loop env s
      | OutputErrorTask \<Rightarrow> outputError env s
      | GetResultTask r \<Rightarrow> getResult env n r s
      | ExecTask q k ps rcb ecb \<Rightarrow> execSqlInLoop env n q k ps rcb ecb s)"

definition run_next_task :: "('m, 'p) client \<Rightarrow> nat \<Rightarrow> ('m, 'p) step" where
  "run_next_task env n s =
     (case queued s of [] \<Rightarrow> skip s | t # ts \<Rightarrow> run_conn_task env n t (s\<lparr>queued := ts\<rparr>))"

text \<open>
  The constructors; \<open>m\<close> is the object of the library with the options for calls that do not block.
  The base class refuses a null loop and sets callbacks that only log (the
  closure \<open>0\<close>); the parameters of the connection string come in the order of the map, their
  keys in any case of letters.
\<close>

definition mk_DbConnection :: "nat option \<Rightarrow> 'm \<Rightarrow> 'p \<Rightarrow> fault + ('m, 'p) conn" where
  "mk_DbConnection lp m p =
     (case lp of
        None \<Rightarrow> Inl (Throw (mk_exn StdRuntimeError ''EventLoop is null!''))
      | Some _ \<Rightarrow>
          Inr \<lparr>mysql = Some m, cstatus = NotConnected, execStatus = NoExec, waitStatus = 0, disp = None,
               pl = p, host = [], user_name = [], passwd = [], dbname = [], port = [], characterSet = [],
               sql = [], isWorking = False, callback = Some 0, exceptionCallback = Some 0,
               okSet = True, closeSet = True, idleSet = True, queued = [], timeouts = [], calls = []\<rparr>)"

definition apply_param :: "string \<times> string \<Rightarrow> ('m, 'p) conn \<Rightarrow> ('m, 'p) conn" where
  "apply_param kv s =
     (let key = map lower_char (fst kv); v = snd kv in
      if key = ''host'' then s\<lparr>host := v\<rparr>
      else if key = ''user'' then s\<lparr>user_name := v\<rparr>
      else if key = ''dbname'' then s\<lparr>dbname := v\<rparr>
      else if key = ''port'' then s\<lparr>port := v\<rparr>
      else if key = ''password'' then s\<lparr>passwd := v\<rparr>
      else if key = ''client_encoding'' then s\<lparr>characterSet := v\<rparr>
      else s)"

definition mk_MySQLConnector ::
  "nat option \<Rightarrow> string \<Rightarrow> 'm \<Rightarrow> 'p \<Rightarrow> fault + ('m, 'p) conn" where
  "mk_MySQLConnector lp connInfo m p =
     obind (mk_DbConnection lp m p) (\<lambda>s. Inr (fold apply_param (parseConnString connInfo) s))"

definition setOkCallback :: "bool \<Rightarrow> ('m, 'p) conn \<Rightarrow> ('m, 'p) conn" where
  "setOkCallback b s = s\<lparr>okSet := b\<rparr>"

definition setConnCloseCallback :: "bool \<Rightarrow> ('m, 'p) conn \<Rightarrow> ('m, 'p) conn" where
  "setConnCloseCallback b s = s\<lparr>closeSet := b\<rparr>"

definition setIdleCallback :: "bool \<Rightarrow> ('m, 'p) conn \<Rightarrow> ('m, 'p) conn" where
  "setIdleCallback b s = s\<lparr>idleSet := b\<rparr>"

section \<open>Binding parameters\<close>

lemma find_mark_None: "find_mark z = None \<longleftrightarrow> CHR ''?'' \<notin> set z"
  by (induction z) auto

lemma find_mark_append:
  "CHR ''?'' \<notin> set pre \<Longrightarrow> find_mark (pre @ CHR ''?'' # post) = Some (pre, post)"
  by (induction pre) auto

text \<open>A template: a first piece of text, then for each mark the piece that follows it.\<close>

fun template :: "string \<Rightarrow> string list \<Rightarrow> string" where
  "template z [] = z"
| "template z (p # ps) = z @ CHR ''?'' # template p ps"

fun filled :: "(string \<Rightarrow> string) \<Rightarrow> string \<Rightarrow> string list \<Rightarrow> sql_param list \<Rightarrow> string" where
  "filled esc z (p # ps) (v # vs) =
     (case param_text esc v of Inl _ \<Rightarrow> [] | Inr t \<Rightarrow> z @ t @ filled esc p ps vs)"
| "filled esc z ps [] = template z ps"
| "filled esc z [] vs = z"

definition known_param :: "sql_param \<Rightarrow> bool" where
  "known_param v \<longleftrightarrow> (\<forall>c. v \<noteq> PUnknown c)"

lemma known_param_text: "known_param v \<Longrightarrow> \<exists>t. param_text esc v = Inr t"
  by (cases v) (simp_all add: known_param_def)

text \<open>
  C17: binding fills the marks of a statement from left to right with the text of the values:
  each value goes to its own mark and nothing of it is taken for a mark or changed again, marks
  beyond the values stay, and values beyond the marks are ignored.
\<close>

theorem bind_params_fills_marks:
  assumes "list_all (\<lambda>p. CHR ''?'' \<notin> set p) (z # pieces)" and "list_all known_param vs"
  shows "bind_params esc (template z pieces) vs = Inr (filled esc z pieces vs)"
  using assms
proof (induction esc z pieces vs rule: filled.induct)
  case (1 esc z p ps v vs)
  obtain t where "param_text esc v = Inr t" using known_param_text 1(3) by auto
  moreover have "find_mark (template z (p # ps)) = Some (z, template p ps)"
    using 1(2) find_mark_append by simp
  ultimately show ?case using 1 by simp
next
  case (3 esc z v va)
  then have "find_mark z = None" by (simp add: find_mark_None)
  then show ?case by simp
qed simp

theorem bind_params_fills_marks_witness:
  "bind_params id ''a=? and b=?;'' [MySqlString ''x?'', MySqlTiny 255] =
   Inr (''a='' @ [CHR 0x27] @ ''x?'' @ [CHR 0x27] @ '' and b=-1;'')"
  using bind_params_fills_marks [of "''a=''" "['' and b='', '';'']"
      "[MySqlString ''x?'', MySqlTiny 255]" id]
  by (simp add: known_param_def to_string_def dec_digits.simps [of "Suc 0"] char_of_def bit_0)

text \<open>
  A bound integer of 32 or 64 bits becomes the decimal text of its signed value, from which
  the readers of the standard library get the same integer back, negative ones included.
\<close>

theorem bound_integers_read_back:
  "(\<exists>t. param_text esc (MySqlLong v) = Inr t \<and> stoi t = Inr v) \<and>
   (\<exists>t. param_text esc (MySqlLongLong w) = Inr t \<and> stol t = Inr w \<and> atol t = sint w)"
  by (simp add: stoi_to_string stol_to_string decimal_64)

section \<open>What every step of a connection preserves\<close>

lemma shut_dispatcher_result:
  fixes s :: "('m, 'p) conn"
  shows "\<exists>d p. fst (shut_dispatcher env s) = s\<lparr>disp := d, pl := p\<rparr>"
proof -
  have one: "\<exists>d p. fst (on_disp f s) = s\<lparr>disp := d, pl := p\<rparr>" for f and s :: "('m, 'p) conn"
    by (intro exI [of _ "disp (fst (on_disp f s))"] exI [of _ "pl (fst (on_disp f s))"])
      (auto simp: on_disp_def split: option.split sum.split)
  obtain s1 e where s1: "on_disp (disableAll (cupd env)) s = (s1, e)" by fastforce
  then obtain d p where d: "s1 = s\<lparr>disp := d, pl := p\<rparr>" using one [of "disableAll (cupd env)" s] by auto
  obtain d' p' where "fst (on_disp (remove_dispatcher (crem env)) s1) = s1\<lparr>disp := d', pl := p'\<rparr>"
    using one by blast
  then have "fst (on_disp (remove_dispatcher (crem env)) s1) = s\<lparr>disp := d', pl := p'\<rparr>"
    using d by simp
  then show ?thesis using s1 d by (cases e) (simp_all add: shut_dispatcher_def, blast+)
qed

text \<open>
  A predicate on connections that the single assignments of the code and the user's callbacks
  preserve is preserved by all its handlers.  \<open>delivered\<close> and \<open>failed\<close> are what is known of a
  connection when the callback of a statement, or of its error, has returned; \<open>close_kept\<close> is the
  change to a closed connection with the call that reports it.  The callback for an error is
  called only where a message of severity \<^verbatim>\<open>FATAL\<close> lets the process live.
\<close>

locale conn_handlers =
  fixes P :: "('m, 'p) conn \<Rightarrow> bool" and delivered failed :: "('m, 'p) conn \<Rightarrow> bool"
    and env :: "('m, 'p) client"
  assumes result_kept: "P s \<Longrightarrow> isWorking s \<Longrightarrow> callback s = Some c \<Longrightarrow>
      P (fst (user env (ResultCall c r a i) s)) \<and>
      (snd (user env (ResultCall c r a i) s) = None \<longrightarrow> delivered (fst (user env (ResultCall c r a i) s)))"
    and except_kept: "P s \<Longrightarrow> isWorking s \<Longrightarrow> exceptionCallback s = Some e \<Longrightarrow> \<not> fatal_exits env \<Longrightarrow>
      (if snd (user env (ExceptCall e ex) s) = None then failed (fst (user env (ExceptCall e ex) s))
       else P (fst (user env (ExceptCall e ex) s)))"
    and done_kept: "P s \<Longrightarrow> delivered s \<Longrightarrow>
      P (fst (call_idle env (s\<lparr>callback := None, exceptionCallback := None, isWorking := False\<rparr>)))"
    and failed_kept: "failed s \<Longrightarrow>
      P (s\<lparr>callback := None, exceptionCallback := None, isWorking := False\<rparr>) \<and>
      P (fst (call_idle env (s\<lparr>callback := None, exceptionCallback := None, isWorking := False\<rparr>)))"
    and close_kept: "P s \<Longrightarrow> cstatus s \<noteq> Bad \<Longrightarrow>
      P (s\<lparr>cstatus := Bad, disp := d, pl := p\<rparr>) \<and>
      P (fst (user env CloseCall (s\<lparr>cstatus := Bad, disp := d, pl := p\<rparr>)))"
    and ok_kept: "P s \<Longrightarrow> cstatus s \<in> {Connecting, SettingCharacterSet} \<Longrightarrow>
      P (s\<lparr>cstatus := ConnOk\<rparr>) \<and> P (fst (user env OkCall (s\<lparr>cstatus := ConnOk\<rparr>)))"
    and charset_kept: "P s \<Longrightarrow> cstatus s \<in> {Connecting, SettingCharacterSet} \<Longrightarrow> P (s\<lparr>cstatus := SettingCharacterSet\<rparr>)"
    and wait_kept: "P s \<Longrightarrow> P (s\<lparr>waitStatus := w\<rparr>)" and mysql_kept: "P s \<Longrightarrow> P (s\<lparr>mysql := m\<rparr>)"
    and exec_kept: "P s \<Longrightarrow> P (s\<lparr>execStatus := x\<rparr>)"
    and disp_kept: "P s \<Longrightarrow> P (s\<lparr>disp := d, pl := p\<rparr>)"
    and error_queued: "P s \<Longrightarrow> P (s\<lparr>queued := queued s @ [OutputErrorTask]\<rparr>)"
    and result_queued: "P s \<Longrightarrow> P (s\<lparr>queued := queued s @ [GetResultTask r]\<rparr>)"
    and timeouts_kept: "P s \<Longrightarrow> P (s\<lparr>timeouts := ts\<rparr>)" and sql_kept: "P s \<Longrightarrow> P (s\<lparr>sql := z\<rparr>)"
begin

lemma with_mysql_kept: "(\<And>m. kept any_outcome P (f m)) \<Longrightarrow> kept any_outcome P (with_mysql f)"
  by (rule kept_anyI) (auto simp: with_mysql_def kept_anyD split: option.split)

lemma on_disp_kept: "kept any_outcome P (on_disp f)"
  by (rule kept_anyI) (auto simp: on_disp_def disp_kept split: option.split sum.split)

lemma log_fatal_kept: "kept any_outcome P (log_fatal env)"
  by (rule kept_anyI) (simp add: log_fatal_def)

lemma setEventDispatcher_kept: "kept any_outcome P (setEventDispatcher env)"
  unfolding setEventDispatcher_def
  by (intro kept_andThen kept_if any_outcomeI on_disp_kept kept_skip with_mysql_kept kept_anyI)
    (simp add: timeouts_kept)

lemma enqueue_kept: "kept any_outcome P (enqueue_task OutputErrorTask)" "kept any_outcome P (enqueue_task (GetResultTask r))"
  by (rule kept_anyI, simp add: enqueue_task_def error_queued result_queued)+

lemma fatal_then: "(\<not> fatal_exits env \<Longrightarrow> kept any_outcome P a) \<Longrightarrow> kept any_outcome P (andThen (log_fatal env) a)"
  by (rule kept_anyI) (cases "fatal_exits env"; simp add: log_fatal_def andThen_def kept_anyD)

lemma handleClosed_kept: "kept any_outcome P (handleClosed env)"
proof (rule kept_anyI)
  fix s
  assume P: "P s"
  show "P (fst (handleClosed env s))"
  proof (cases "cstatus s = Bad")
    case True
    then show ?thesis using P by (simp add: handleClosed_def)
  next
    case False
    obtain s1 e where s1: "shut_dispatcher env (s\<lparr>cstatus := Bad\<rparr>) = (s1, e)" by fastforce
    then obtain d p where "s1 = s\<lparr>cstatus := Bad, disp := d, pl := p\<rparr>"
      using shut_dispatcher_result [where env = env and s = "s\<lparr>cstatus := Bad\<rparr>"] by auto
    then have "P s1" "P (fst (user env CloseCall s1))" using close_kept [OF P False] by simp_all
    then show ?thesis using False s1 by (cases e) (simp_all add: handleClosed_def)
  qed
qed

lemma outputError_kept: "kept any_outcome P (outputError env)"
proof -
  define idle where "idle = (\<lambda>s :: ('m, 'p) conn. s\<lparr>callback := None, exceptionCallback := None, isWorking := False\<rparr>)"
  have work: "kept any_outcome P (\<lambda>s. if isWorking s then
              andThen (\<lambda>s. call_user env (map_option (\<lambda>c. ExceptCall c
                        (mk_SqlError (client_error env m) (sql s) None)) (exceptionCallback s)) s)
             (andThen (\<lambda>s. skip (idle s)) (\<lambda>s. if \<not> lost then call_idle env s else skip s)) s
            else skip s)" if fatal: "\<not> fatal_exits env" for m lost
  proof (rule kept_anyI)
    fix s
    assume P: "P s"
    show "P (fst (if isWorking s then
              andThen (\<lambda>s. call_user env (map_option (\<lambda>c. ExceptCall c
                        (mk_SqlError (client_error env m) (sql s) None)) (exceptionCallback s)) s)
             (andThen (\<lambda>s. skip (idle s)) (\<lambda>s. if \<not> lost then call_idle env s else skip s)) s
            else skip s))"
    proof (cases "isWorking s \<and> exceptionCallback s \<noteq> None")
      case False
      then show ?thesis using P by (cases "isWorking s") (simp_all add: call_user_def andThen_def)
    next
      case True
      then obtain c where c: "exceptionCallback s = Some c" by blast
      obtain s1 e where s1: "user env (ExceptCall c (mk_SqlError (client_error env m) (sql s) None)) s = (s1, e)"
        by fastforce
      then have P1: "if e = None then failed s1 else P s1"
        using except_kept [OF P _ c fatal, of "mk_SqlError (client_error env m) (sql s) None"] True by (cases e) simp_all
      then show ?thesis using failed_kept [of s1] True s1 c
        by (cases e) (simp_all add: call_user_def andThen_def idle_def)
    qed
  qed
  show ?thesis
    unfolding outputError_def Let_def
    by (rule kept_andThen [OF any_outcomeI on_disp_kept], rule with_mysql_kept, rule fatal_then)
      (intro kept_andThen any_outcomeI work [unfolded idle_def] kept_if handleClosed_kept kept_skip)
qed

lemma store_and_get_kept:
  "kept any_outcome P (startStoreResult env n q) \<and> kept any_outcome P (getResult env n r)"
proof (induction n arbitrary: q r rule: less_induct)
  case (less n)
  have get: "kept any_outcome P (case n of 0 \<Rightarrow> raise NotReturned | Suc k \<Rightarrow> getResult env k r)" for r
    using less by (cases n) (simp_all add: kept_raise)
  have store: "kept any_outcome P (case n of 0 \<Rightarrow> raise NotReturned | Suc k \<Rightarrow> startStoreResult env k False)"
    using less by (cases n) (simp_all add: kept_raise)
  have a: "P (fst (startStoreResult env n q s))" if "P s" for s
  proof (cases "mysql s")
    case (Some m)
    obtain w ret m' where c: "store_result_start env m = (w, ret, m')" by (cases "store_result_start env m")
    define s1 where "s1 = s\<lparr>execStatus := StoreResult, waitStatus := w, mysql := Some m'\<rparr>"
    have "P s1" unfolding s1_def by (intro exec_kept wait_kept mysql_kept that)
    moreover from this have "P (s1\<lparr>execStatus := NoExec\<rparr>)" by (rule exec_kept)
    ultimately show ?thesis
      using that Some c kept_anyD [OF get] kept_anyD [OF outputError_kept] kept_anyD [OF enqueue_kept(1)] kept_anyD [OF enqueue_kept(2)]
      by (auto simp: startStoreResult.simps with_mysql_def s1_def Let_def split: nat.splits)
  qed (use that in \<open>simp add: startStoreResult.simps with_mysql_def\<close>)
  define A where "A = with_mysql (\<lambda>m s.
        if \<not> more_results env m then
          andThen (\<lambda>s. skip (s\<lparr>callback := None, exceptionCallback := None, isWorking := False\<rparr>))
            (call_idle env) s
        else
          let (w, err, m') = next_result_start env m;
              s1 = s\<lparr>execStatus := NextResult, waitStatus := w, mysql := Some m'\<rparr> in
          if w \<noteq> 0 then skip s1
          else if err \<noteq> 0 then andThen (log_fatal env) (outputError env) (s1\<lparr>execStatus := NoExec\<rparr>)
          else (case n of 0 \<Rightarrow> raise NotReturned s1 | Suc k \<Rightarrow> startStoreResult env k False s1))"
  have after: "P (fst (A s))" if "P s" "delivered s" for s
  proof (cases "mysql s")
    case (Some m)
    obtain w err m' where c: "next_result_start env m = (w, err, m')" by (cases "next_result_start env m")
    define s1 where "s1 = s\<lparr>execStatus := NextResult, waitStatus := w, mysql := Some m'\<rparr>"
    have P1: "P s1" unfolding s1_def by (intro exec_kept wait_kept mysql_kept that(1))
    have "P (fst (andThen (log_fatal env) (outputError env) (s1\<lparr>execStatus := NoExec\<rparr>)))"
      by (rule kept_anyD [OF kept_andThen [OF any_outcomeI log_fatal_kept outputError_kept]
            exec_kept [OF P1]])
    moreover have "P (fst ((case n of 0 \<Rightarrow> raise NotReturned | Suc k \<Rightarrow> startStoreResult env k False) s1))"
      by (rule kept_anyD [OF store P1])
    ultimately show ?thesis
      using Some c P1 done_kept [OF that] by (cases n; cases "w = 0") (simp_all add: A_def with_mysql_def s1_def Let_def)
  qed (use that in \<open>simp add: A_def with_mysql_def\<close>)
  have b: "P (fst (getResult env n r s))" if "P s" for s
  proof (cases "mysql s = None \<or> \<not> isWorking s \<or> callback s = None")
    case True
    then show ?thesis using that
      by (cases "mysql s"; cases "isWorking s") (simp_all add: getResult.simps with_mysql_def call_user_def andThen_def)
  next
    case False
    then obtain m c where m: "mysql s = Some m" "callback s = Some c" "isWorking s" by auto
    obtain s1 e where s1: "user env (ResultCall c r (affected_rows env m) (insert_id env m)) s = (s1, e)" by fastforce
    then have "P s1" "e = None \<longrightarrow> delivered s1"
      using result_kept [OF that m(3,2), of r "affected_rows env m" "insert_id env m"] by auto
    moreover have "getResult env n r s = andThen (user env (ResultCall c r (affected_rows env m) (insert_id env m))) A s"
      using m by (simp add: getResult.simps A_def with_mysql_def call_user_def andThen_def)
    ultimately show ?thesis using after s1 by (cases e) simp_all
  qed
  from a b show ?case by (intro conjI kept_anyI)
qed

lemmas startStoreResult_kept = conjunct1 [OF store_and_get_kept]
lemmas getResult_kept = conjunct2 [OF store_and_get_kept]

lemma andThen_any_kept: "kept any_outcome P a \<Longrightarrow> kept any_outcome P b \<Longrightarrow> kept any_outcome P (andThen a b)"
  by (rule kept_andThen [OF any_outcomeI])

lemmas error_kept = andThen_any_kept [OF log_fatal_kept outputError_kept]

lemma startQuery_kept: "kept any_outcome P (startQuery env n)"
  unfolding startQuery_def
proof (rule with_mysql_kept, rule kept_anyI)
  fix m s
  assume P: "P s"
  obtain w err m' where c: "real_query_start env (sql s) m = (w, err, m')"
    by (cases "real_query_start env (sql s) m")
  define s1 where "s1 = s\<lparr>waitStatus := w, execStatus := RealQuery, mysql := Some m'\<rparr>"
  have P1: "P s1" unfolding s1_def by (intro exec_kept wait_kept mysql_kept P)
  show "P (fst (let (w, err, m') = real_query_start env (sql s) m;
           s1 = s\<lparr>waitStatus := w, execStatus := RealQuery, mysql := Some m'\<rparr> in
       if w \<noteq> 0 then skip s1
       else if err \<noteq> 0 then andThen (log_fatal env) (enqueue_task OutputErrorTask) s1
       else startStoreResult env n True s1))"
    using P1 kept_anyD [OF andThen_any_kept [OF log_fatal_kept enqueue_kept(1)] P1]
      kept_anyD [OF startStoreResult_kept P1]
    by (cases "w = 0") (simp_all add: c s1_def [symmetric] Let_def, simp_all add: s1_def)
qed

text \<open>A statement that is taken: \<open>taken\<close> is the state with its callbacks.\<close>

lemma taken_kept:
  assumes P: "P s" and taken: "rcb \<noteq> None \<Longrightarrow> \<not> isWorking s \<Longrightarrow>
    P (s\<lparr>callback := rcb, isWorking := True, exceptionCallback := ecb, sql := []\<rparr>)"
  shows "P (fst (execSqlInLoop env n q k ps rcb ecb s))"
proof (cases "k \<noteq> length ps \<or> rcb = None \<or> isWorking s \<or> q = []")
  case True
  then show ?thesis using P by (simp add: execSqlInLoop_def)
next
  case False
  define s1 where "s1 = s\<lparr>callback := rcb, isWorking := True, exceptionCallback := ecb, sql := []\<rparr>"
  have P1: "P s1" unfolding s1_def using False taken by simp
  have go: "P (fst (andThen (startQuery env n) (setEventDispatcher env) (s1\<lparr>sql := t\<rparr>)))" for t
    by (rule kept_anyD [OF andThen_any_kept [OF startQuery_kept setEventDispatcher_kept] sql_kept [OF P1]])
  show ?thesis using False P P1 go
    by (simp add: execSqlInLoop_def s1_def [symmetric] with_mysql_def split: option.split sum.split)
qed

lemma handleCmd_kept: "kept any_outcome P (handleCmd env n status)"
proof (rule kept_anyI)
  fix s
  assume P: "P s"
  have upd: "P (s\<lparr>waitStatus := w, mysql := m'\<rparr>)" for w m' by (intro wait_kept mysql_kept P)
  have err: "P (fst (andThen (log_fatal env) (outputError env) (s\<lparr>waitStatus := w, mysql := m', execStatus := x\<rparr>)))"
    for w m' x by (rule kept_anyD [OF error_kept exec_kept [OF upd]])
  have "kept any_outcome P (if b then a else skip)" if "kept any_outcome P a" for a b
    using that by (cases b) (simp_all add: kept_skip)
  note ite = andThen_any_kept [OF this setEventDispatcher_kept]
  note st = kept_anyD [OF ite [OF startStoreResult_kept] upd]
    and gt = kept_anyD [OF ite [OF getResult_kept] upd]
  show "P (fst (handleCmd env n status s))"
  proof (cases "mysql s")
    case None
    then show ?thesis using P kept_anyD [OF handleClosed_kept P]
      by (simp add: handleCmd_def with_mysql_def split: exec_status.split)
  next
    case (Some m)
    obtain w1 e1 m1 where c1: "real_query_cont env status m = (w1, e1, m1)"
      by (cases "real_query_cont env status m")
    obtain w2 e2 m2 where c2: "store_result_cont env status m = (w2, e2, m2)"
      by (cases "store_result_cont env status m")
    obtain w3 e3 m3 where c3: "next_result_cont env status m = (w3, e3, m3)"
      by (cases "next_result_cont env status m")
    show ?thesis using P Some err st gt kept_anyD [OF handleClosed_kept P]
      by (simp add: handleCmd_def with_mysql_def c1 c2 c3 Let_def split: exec_status.split)
  qed
qed

lemma connected_kept:
  assumes "P s" "cstatus s \<in> {Connecting, SettingCharacterSet}"
  shows "P (fst (connected env s))"
  using ok_kept [OF assms] by (simp add: connected_def call_ok_def)

lemma connect_failed_kept: "kept any_outcome P (connect_failed env)"
  unfolding connect_failed_def by (intro andThen_any_kept log_fatal_kept handleClosed_kept)

lemma set_after:
  assumes "P (fst (a s))"
  shows "P (fst (andThen a (setEventDispatcher env) s))"
  using assms kept_anyD [OF setEventDispatcher_kept]
  by (cases "a s"; cases "snd (a s)") simp_all

lemma startSetCharacterSet_kept:
  assumes P: "P s" and ok: "cstatus s \<in> {Connecting, SettingCharacterSet}"
  shows "P (fst (startSetCharacterSet env s))"
proof (cases "mysql s")
  case (Some m)
  obtain w err m' where c: "set_character_set_start env (characterSet s) m = (w, err, m')"
    by (cases "set_character_set_start env (characterSet s) m")
  define s1 where "s1 = s\<lparr>waitStatus := w, mysql := Some m'\<rparr>"
  have P1: "P s1" "cstatus s1 \<in> {Connecting, SettingCharacterSet}" unfolding s1_def using ok by (simp_all add: wait_kept mysql_kept P)
  have "P (fst (andThen (\<lambda>s. if w = 0 then connected env s else skip (s\<lparr>cstatus := SettingCharacterSet\<rparr>))
           (setEventDispatcher env) s1))"
    by (rule set_after) (simp add: connected_kept [OF P1] charset_kept [OF P1])
  then show ?thesis using Some c kept_anyD [OF connect_failed_kept P1(1)]
    by (cases "w = 0") (simp_all add: startSetCharacterSet_def with_mysql_def s1_def Let_def)
qed (simp add: P startSetCharacterSet_def with_mysql_def)

lemma continueSetCharacterSet_kept:
  assumes P: "P s" and ok: "cstatus s \<in> {Connecting, SettingCharacterSet}"
  shows "P (fst (continueSetCharacterSet env status s))"
proof (cases "mysql s")
  case (Some m)
  obtain w err m' where c: "set_character_set_cont env status m = (w, err, m')"
    by (cases "set_character_set_cont env status m")
  define s1 where "s1 = s\<lparr>waitStatus := w, mysql := Some m'\<rparr>"
  have P1: "P s1" "cstatus s1 \<in> {Connecting, SettingCharacterSet}" unfolding s1_def using ok by (simp_all add: wait_kept mysql_kept P)
  have "P (fst (andThen (if w = 0 then connected env else skip) (setEventDispatcher env) s1))"
    by (rule set_after) (simp add: connected_kept [OF P1] P1)
  then show ?thesis using Some c kept_anyD [OF connect_failed_kept P1(1)]
    by (cases "w = 0") (simp_all add: continueSetCharacterSet_def with_mysql_def s1_def Let_def)
qed (simp add: P continueSetCharacterSet_def with_mysql_def)

lemma continueConnect_kept:
  assumes P: "P s" and ok: "cstatus s \<in> {Connecting, SettingCharacterSet}"
  shows "P (fst (continueConnect env status s))"
proof (cases "mysql s")
  case (Some m)
  obtain w ret m' where c: "real_connect_cont env status m = (w, ret, m')"
    by (cases "real_connect_cont env status m")
  define s1 where "s1 = s\<lparr>waitStatus := w, mysql := Some m'\<rparr>"
  have P1: "P s1" "cstatus s1 \<in> {Connecting, SettingCharacterSet}" unfolding s1_def using ok by (simp_all add: wait_kept mysql_kept P)
  have "P (fst (andThen (connected env) (setEventDispatcher env) s1))"
    by (rule set_after) (rule connected_kept [OF P1])
  then show ?thesis using Some c kept_anyD [OF connect_failed_kept P1(1)]
      kept_anyD [OF setEventDispatcher_kept P1(1)] startSetCharacterSet_kept [OF P1]
    by (cases "w = 0") (simp_all add: continueConnect_def with_mysql_def s1_def Let_def)
qed (simp add: P continueConnect_def with_mysql_def)

lemma handleTimeout_kept: "kept any_outcome P (handleTimeout env)"
  by (rule kept_anyI)
    (auto simp: handleTimeout_def continueConnect_kept continueSetCharacterSet_kept
      split: connect_status.split)

lemma handleEvent_conn_kept: "kept any_outcome P (handleEvent_conn env n)"
  by (rule kept_anyI)
    (auto simp: handleEvent_conn_def Let_def continueConnect_kept continueSetCharacterSet_kept
      kept_anyD [OF handleCmd_kept] split: connect_status.split option.split)

end

text \<open>The same for whole lives: statements are taken whenever the connection is free.\<close>

locale conn_invariant = conn_handlers P delivered failed env
  for P :: "('m, 'p) conn \<Rightarrow> bool" and delivered failed :: "('m, 'p) conn \<Rightarrow> bool" and env :: "('m, 'p) client" +
  assumes queued_kept: "P s \<Longrightarrow> P (s\<lparr>queued := qs\<rparr>)"
    and working_kept: "P s \<Longrightarrow> \<not> isWorking s \<Longrightarrow>
      P (s\<lparr>callback := Some c, isWorking := True, exceptionCallback := ec, sql := z\<rparr>)"
begin

lemma execSqlInLoop_kept: "kept any_outcome P (execSqlInLoop env n q k ps rcb ecb)"
proof (rule kept_anyI)
  fix s
  assume P: "P s"
  then show "P (fst (execSqlInLoop env n q k ps rcb ecb s))"
    by (rule taken_kept) (use working_kept [OF P] in blast)
qed

text \<open>A queued closure other than the one that starts to connect.\<close>

lemma run_conn_task_kept: "t \<noteq> InitTask \<Longrightarrow> kept any_outcome P (run_conn_task env n t)"
  using outputError_kept getResult_kept execSqlInLoop_kept
  by (cases t) (simp_all add: run_conn_task_def kept_def any_outcome_def)

end

section \<open>The life of a connection\<close>

text \<open>
  What happens to a connection once it has started to connect: the poller reports events, they
  are handled, timers fire, queued closures run, statements are executed, it is disconnected;
  each step with the outcome that it returns.
\<close>

definition report_events :: "mask \<Rightarrow> ('m, 'p) conn \<Rightarrow> ('m, 'p) conn" where
  "report_events m s = s\<lparr>disp := map_option (setRealEvents m) (disp s)\<rparr>"

inductive conn_steps :: "('m, 'p) client \<Rightarrow> nat \<Rightarrow> ('m, 'p) conn \<Rightarrow> ('m, 'p) conn \<Rightarrow> bool" for env n s0
where
  start: "conn_steps env n s0 s0"
| report: "conn_steps env n s0 s \<Longrightarrow> conn_steps env n s0 (report_events m s)"
| event: "conn_steps env n s0 s \<Longrightarrow> handleEvent_conn env n s = (s', None) \<Longrightarrow> conn_steps env n s0 s'"
| timeout: "conn_steps env n s0 s \<Longrightarrow> handleTimeout env s = (s', None) \<Longrightarrow> conn_steps env n s0 s'"
| task: "conn_steps env n s0 s \<Longrightarrow> queued s = t # ts \<Longrightarrow> t \<noteq> InitTask \<Longrightarrow>
    run_next_task env n s = (s', None) \<Longrightarrow> conn_steps env n s0 s'"
| exec: "conn_steps env n s0 s \<Longrightarrow> execSql env n inloop q k ps rcb ecb s = (s', None) \<Longrightarrow>
    conn_steps env n s0 s'"
| disconnect: "conn_steps env n s0 s \<Longrightarrow> disconnect_in_loop env s = (s', None) \<Longrightarrow>
    conn_steps env n s0 s'"

context conn_handlers begin

lemma disconnect_kept:
  assumes "P s" and bad: "\<And>s. P s \<Longrightarrow> P (s\<lparr>cstatus := Bad\<rparr>)"
  shows "P (fst (disconnect_in_loop env s))"
proof -
  obtain s1 e where s1: "shut_dispatcher env (s\<lparr>cstatus := Bad\<rparr>) = (s1, e)" by fastforce
  then obtain d p where "s1 = s\<lparr>cstatus := Bad\<rparr>\<lparr>disp := d, pl := p\<rparr>"
    using shut_dispatcher_result [where env = env and s = "s\<lparr>cstatus := Bad\<rparr>"] by auto
  then have "P s1" using disp_kept [OF bad [OF assms(1)]] by metis
  then show ?thesis using s1 mysql_kept by (cases e) (simp_all add: disconnect_in_loop_def)
qed

lemma init_in_loop_kept:
  assumes "P s" and status: "\<And>s. P s \<Longrightarrow> P (s\<lparr>cstatus := Connecting\<rparr>)" and close: "\<And>s. P s \<Longrightarrow> P (fst (user env CloseCall s))"
  shows "P (fst (init_in_loop env s))"
proof (cases "mysql s")
  case (Some m)
  obtain w ret m' where c: "real_connect_start env (connect_args (s\<lparr>cstatus := Connecting\<rparr>)) (set_timeouts env m) = (w, ret, m')"
    by (cases "real_connect_start env (connect_args (s\<lparr>cstatus := Connecting\<rparr>)) (set_timeouts env m)")
  define s1 where "s1 = s\<lparr>cstatus := Connecting, waitStatus := w, mysql := Some m'\<rparr>"
  have P1: "P s1" unfolding s1_def by (intro mysql_kept wait_kept status assms(1))
  have "P (s1\<lparr>disp := d, pl := pl s1\<rparr>)" for d using P1 by (rule disp_kept)
  then have d: "P (s1\<lparr>disp := d\<rparr>)" for d by simp
  have "kept any_outcome P (call_close env)" using close by (simp add: call_close_def kept_def any_outcome_def)
  then have "P (fst (andThen (log_fatal env) (call_close env) s1))"
    by (intro kept_anyD [OF andThen_any_kept [OF log_fatal_kept] P1])
  then show ?thesis using Some c kept_anyD [OF setEventDispatcher_kept d]
    by (cases "w = 0") (simp_all add: init_in_loop_def with_mysql_def Let_def s1_def)
qed (simp add: status assms(1) init_in_loop_def with_mysql_def)

lemma report_kept: "P s \<Longrightarrow> P (report_events m s)"
proof -
  assume "P s"
  then have "P (s\<lparr>disp := map_option (setRealEvents m) (disp s), pl := pl s\<rparr>)" by (rule disp_kept)
  then show ?thesis by (simp add: report_events_def)
qed

end

context conn_invariant begin

lemma steps_kept:
  assumes "conn_steps env n s0 s" "P s0" and bad: "\<And>s. P s \<Longrightarrow> P (s\<lparr>cstatus := Bad\<rparr>)"
  shows "P s"
  using assms(1,2)
proof induction
  case (report s m)
  then show ?case using report_kept by blast
next
  case (event s s')
  then show ?case using keptD [OF handleEvent_conn_kept _ _ any_outcomeI] by blast
next
  case (timeout s s')
  then show ?case using keptD [OF handleTimeout_kept _ _ any_outcomeI] by blast
next
  case (task s t ts s')
  then have "P (s\<lparr>queued := ts\<rparr>)" using queued_kept by blast
  moreover have "run_conn_task env n t (s\<lparr>queued := ts\<rparr>) = (s', None)"
    using task by (simp add: run_next_task_def)
  ultimately show ?case using keptD [OF run_conn_task_kept [OF task(3)] _ _ any_outcomeI] by blast
next
  case (exec s inloop q k ps rcb ecb s')
  then have P: "P s" by blast
  have "P (fst (execSql env n inloop q k ps rcb ecb s))"
    using kept_anyD [OF execSqlInLoop_kept P] queued_kept [OF P] by (simp add: execSql_def enqueue_task_def)
  then show ?case using exec by simp
next
  case (disconnect s s')
  then have "P (fst (disconnect_in_loop env s))" using disconnect_kept bad by blast
  then show ?case using disconnect by simp
qed

end

text \<open>
  User callbacks that are recorded before they do whatever they do (\<open>behave\<close>).
\<close>

definition recorded :: "(user_call \<Rightarrow> ('m, 'p) step) \<Rightarrow> user_call \<Rightarrow> ('m, 'p) step" where
  "recorded behave u s = behave u (s\<lparr>calls := calls s @ [u]\<rparr>)"

definition conn_inv :: "('m, 'p) conn \<Rightarrow> bool" where
  "conn_inv s \<longleftrightarrow>
     (isWorking s \<longrightarrow> callback s \<noteq> None) \<and> count_list (calls s) CloseCall \<le> 1 \<and>
     (CloseCall \<in> set (calls s) \<longrightarrow> cstatus s = Bad)"

lemma count_list_snoc [simp]: "count_list (xs @ [x]) y = count_list xs y + (if x = y then 1 else 0)"
  by (induction xs) auto

lemma count_list_notin: "x \<notin> set xs \<Longrightarrow> count_list xs x = 0"
  by (induction xs) auto

lemma recorded_kept:
  assumes "user env = recorded behave" "\<And>u. kept any_outcome P (behave u)"
    and "P (s\<lparr>calls := calls s @ [u]\<rparr>)"
  shows "P (fst (user env u s))"
  using kept_anyD [OF assms(2,3)] by (simp add: assms(1) recorded_def)

lemma conn_inv_invariant:
  fixes env :: "('m, 'p) client"
  assumes "user env = recorded behave" "\<And>u. kept any_outcome conn_inv (behave u)"
  shows "conn_invariant conn_inv (\<lambda>_. True) conn_inv env"
proof unfold_locales
  note call = recorded_kept [OF assms]
  fix s :: "('m, 'p) conn" and d and p :: 'p and c e r a i ex
  have res: "conn_inv s \<Longrightarrow> conn_inv (fst (user env (ResultCall c r a i) s))"
    and exc: "conn_inv s \<Longrightarrow> conn_inv (fst (user env (ExceptCall e ex) s))"
    and idl: "conn_inv s \<Longrightarrow> conn_inv (fst (user env IdleCall s))" for s c r a i e ex
    by (rule call; simp add: conn_inv_def)+
  show "conn_inv s \<Longrightarrow> conn_inv (fst (user env (ResultCall c r a i) s)) \<and>
      (snd (user env (ResultCall c r a i) s) = None \<longrightarrow> True)"
    "conn_inv s \<Longrightarrow> (if snd (user env (ExceptCall e ex) s) = None then conn_inv (fst (user env (ExceptCall e ex) s))
      else conn_inv (fst (user env (ExceptCall e ex) s)))"
    using res exc by simp_all
  have free: "conn_inv s \<Longrightarrow> conn_inv (s\<lparr>callback := None, exceptionCallback := None, isWorking := False\<rparr>)"
    by (simp add: conn_inv_def)
  then show "conn_inv s \<Longrightarrow>
      conn_inv (fst (call_idle env (s\<lparr>callback := None, exceptionCallback := None, isWorking := False\<rparr>)))"
    using idl by (simp add: call_idle_def call_user_def)
  then show "conn_inv s \<Longrightarrow> conn_inv (s\<lparr>callback := None, exceptionCallback := None, isWorking := False\<rparr>) \<and>
      conn_inv (fst (call_idle env (s\<lparr>callback := None, exceptionCallback := None, isWorking := False\<rparr>)))"
    using free by simp
  {
    assume h: "conn_inv s" "cstatus s \<noteq> Bad"
    then have "CloseCall \<notin> set (calls s)" by (auto simp: conn_inv_def)
    then have c: "count_list (calls s) CloseCall = 0" by (rule count_list_notin)
    show "conn_inv (s\<lparr>cstatus := Bad, disp := d, pl := p\<rparr>) \<and>
        conn_inv (fst (user env CloseCall (s\<lparr>cstatus := Bad, disp := d, pl := p\<rparr>)))"
      by (rule conjI, use h c in \<open>simp add: conn_inv_def\<close>, rule call, use h c in \<open>simp add: conn_inv_def\<close>)
  next
    assume h: "conn_inv s" "cstatus s \<in> {Connecting, SettingCharacterSet}"
    then have "CloseCall \<notin> set (calls s)" by (auto simp: conn_inv_def)
    then show "conn_inv (s\<lparr>cstatus := ConnOk\<rparr>) \<and> conn_inv (fst (user env OkCall (s\<lparr>cstatus := ConnOk\<rparr>)))"
      by (intro conjI call) (use h in \<open>simp_all add: conn_inv_def\<close>)
  }
qed (auto simp: conn_inv_def)

text \<open>Once closed: nothing but closed, and neither of the two connection callbacks is called.\<close>

definition closed_with :: "user_call list \<Rightarrow> ('m, 'p) conn \<Rightarrow> bool" where
  "closed_with L s \<longleftrightarrow> cstatus s = Bad \<and> filter (\<lambda>u. u \<in> {OkCall, CloseCall}) (calls s) = L"

lemma closed_invariant:
  fixes env :: "('m, 'p) client"
  assumes "user env = recorded behave" "\<And>u. kept any_outcome (closed_with L) (behave u)"
  shows "conn_invariant (closed_with L) (\<lambda>_. True) (closed_with L) env"
proof -
  have res: "closed_with L s \<Longrightarrow> closed_with L (fst (user env (ResultCall c r a i) s))"
    and exc: "closed_with L s \<Longrightarrow> closed_with L (fst (user env (ExceptCall e ex) s))"
    and idl: "closed_with L s \<Longrightarrow> closed_with L (fst (user env IdleCall s))" for s c r a i e ex
    by (rule recorded_kept [OF assms]; simp add: closed_with_def)+
  have free: "closed_with L s \<Longrightarrow> closed_with L (s\<lparr>callback := None, exceptionCallback := None, isWorking := False\<rparr>)"
    for s :: "('m, 'p) conn"
    by (simp add: closed_with_def)
  have "closed_with L s \<Longrightarrow>
      closed_with L (fst (call_idle env (s\<lparr>callback := None, exceptionCallback := None, isWorking := False\<rparr>)))" for s
    using free idl by (simp add: call_idle_def call_user_def)
  then show ?thesis using res exc free by unfold_locales (simp_all add: closed_with_def)
qed

interpretation conn_log: conn_invariant conn_inv "\<lambda>_. True" conn_inv "env\<lparr>user := recorded (\<lambda>_. skip)\<rparr>" for env
  by (rule conn_inv_invariant [where behave = "\<lambda>_. skip"]) (simp_all add: kept_skip)

interpretation closed_log: conn_invariant "closed_with L" "\<lambda>_. True" "closed_with L" "env\<lparr>user := recorded (\<lambda>_. skip)\<rparr>" for L env
  by (rule closed_invariant [where behave = "\<lambda>_. skip"]) (simp_all add: kept_skip)



section \<open>What the poller is told to watch\<close>

text \<open>The contract of the event loop, for dispatchers of connections.\<close>

locale conn_registry = event_registry upd rem sync known detached
  for upd :: "(unit, 'p) registrar" and rem sync known detached
begin

lemma on_disp_op:
  assumes "disp s = Some d" "f d (pl s) = Inr (d', p')"
  shows "on_disp f s = (s\<lparr>disp := Some d', pl := p'\<rparr>, None)"
  using assms by (simp add: on_disp_def)

lemma setEventDispatcher_ok:
  assumes "cupd env = upd" "disp s = Some d" "sync d (pl s)" "mysql s = Some m"
  shows "\<exists>s' d'. setEventDispatcher env s = (s', None) \<and> disp s' = Some d' \<and> sync d' (pl s') \<and>
    isWriting d' = (waitStatus s AND MYSQL_WAIT_WRITE \<noteq> 0) \<and>
    isReading d' = (isReading d \<or> waitStatus s AND MYSQL_WAIT_READ \<noteq> 0 \<or>
                    waitStatus s AND MYSQL_WAIT_EXCEPT \<noteq> 0) \<and>
    timeouts s' = timeouts s @
      (if waitStatus s AND MYSQL_WAIT_TIMEOUT \<noteq> 0 then [get_timeout_value env m] else [])"
proof -
  define rd where "rd = (waitStatus s AND MYSQL_WAIT_READ \<noteq> 0 \<or> waitStatus s AND MYSQL_WAIT_EXCEPT \<noteq> 0)"
  define fr where "fr = (\<lambda>d p. if \<not> isReading d then enableReading upd d p else Inr (d, p))"
  have "\<exists>d1 p1. (if rd then on_disp fr s else skip s) = (s\<lparr>disp := Some d1, pl := p1\<rparr>, None) \<and>
      sync d1 p1 \<and> isReading d1 = (isReading d \<or> rd) \<and> isWriting d1 = isWriting d"
  proof (cases "rd \<and> \<not> isReading d")
    case True
    then show ?thesis using enableReading_ok [OF assms(3)] on_disp_op [OF assms(2), of fr]
      by (fastforce simp: fr_def)
  next
    case False
    have "s = s\<lparr>disp := Some d, pl := pl s\<rparr>" using assms(2) by simp
    then show ?thesis using False assms(2,3) on_disp_op [OF assms(2), of fr d "pl s"]
      by (cases rd) (fastforce simp: fr_def)+
  qed
  then obtain d1 p1 where r: "(if rd then on_disp fr s else skip s) = (s\<lparr>disp := Some d1, pl := p1\<rparr>, None)"
      "sync d1 p1" "isReading d1 = (isReading d \<or> rd)" "isWriting d1 = isWriting d"
    by blast
  define s1 where "s1 = s\<lparr>disp := Some d1, pl := p1\<rparr>"
  define wr where "wr = (waitStatus s AND MYSQL_WAIT_WRITE \<noteq> 0)"
  define fw where "fw = (\<lambda>d p. if wr then (if \<not> isWriting d then enableWriting upd d p else Inr (d, p))
      else if isWriting d then disableWriting upd d p else Inr (d, p))"
  have s1: "disp s1 = Some d1" "pl s1 = p1" by (simp_all add: s1_def)
  obtain d2 p2 where w: "fw d1 p1 = Inr (d2, p2)" "sync d2 p2" "isReading d2 = isReading d1" "isWriting d2 = wr"
    using enableWriting_ok [OF r(2)] disableWriting_ok [OF r(2)] r(2)
    by (cases wr; cases "isWriting d1") (auto simp: fw_def)
  define s2 where "s2 = s\<lparr>disp := Some d2, pl := p2\<rparr>"
  have o: "on_disp fw s1 = (s2, None)"
    using on_disp_op [OF s1(1), of fw d2 p2] w(1) s1(2) by (simp add: s1_def s2_def)
  have fw: "(if wr then on_disp (\<lambda>d p. if \<not> isWriting d then enableWriting upd d p else Inr (d, p)) s1
      else on_disp (\<lambda>d p. if isWriting d then disableWriting upd d p else Inr (d, p)) s1) = (s2, None)"
    using o by (cases wr) (simp_all add: fw_def)
  have e: "setEventDispatcher env s = (if waitStatus s AND MYSQL_WAIT_TIMEOUT \<noteq> 0
      then with_mysql (\<lambda>m s. skip (s\<lparr>timeouts := timeouts s @ [get_timeout_value env m]\<rparr>)) s2 else skip s2)"
    using r(1) fw unfolding setEventDispatcher_def assms(1) rd_def wr_def fr_def s1_def
    by (simp add: andThen_def s2_def)
  show ?thesis unfolding e using w r(3) assms(4) rd_def wr_def
    by (auto simp: with_mysql_def s2_def)
qed

end

interpretation conn_table: conn_registry
    "loop_updateEventDispatcher (\<lambda>x. x = l) table_ctl l self"
    "loop_removeEventDispatcher (\<lambda>x. x = l) table_ctl l self"
    "watched table_interest table_pollable l self" "known_by table_interest table_pollable l self"
    "unwatched table_interest table_pollable l self" for l :: nat and self :: addr
  unfolding conn_registry_def by (rule table_client.is_registry)

text \<open>
  After each step the kernel watches the socket for what the library waits for: for writing
  exactly when it waits to write, for reading when it waits to read or for an exception (and
  from then on); and a timer is set when it asks for one.
\<close>

theorem setEventDispatcher_watches:
  assumes "epoll_kernel ctl interest pollable" and "inloop l"
    and "cupd env = loop_updateEventDispatcher inloop ctl l self" and "mysql s = Some m"
    and "disp s = Some d" and "watched interest pollable l self d (pl s)"
  shows "\<exists>s' d'. setEventDispatcher env s = (s', None) \<and> disp s' = Some d' \<and>
    (interest (kern (pl s')) (fd d') = Some (events d', self) \<or> events d' = 0) \<and>
    isWriting d' = (waitStatus s AND MYSQL_WAIT_WRITE \<noteq> 0) \<and>
    isReading d' = (isReading d \<or> waitStatus s AND MYSQL_WAIT_READ \<noteq> 0 \<or>
                    waitStatus s AND MYSQL_WAIT_EXCEPT \<noteq> 0) \<and>
    timeouts s' = timeouts s @
      (if waitStatus s AND MYSQL_WAIT_TIMEOUT \<noteq> 0 then [get_timeout_value env m] else [])"
proof -
  have c: "epoll_client ctl interest pollable inloop l"
    using assms(1,2) by (simp add: epoll_client_def epoll_client_axioms_def)
  have r: "conn_registry (loop_updateEventDispatcher inloop ctl l self)
      (loop_removeEventDispatcher inloop ctl l self) (watched interest pollable l self)
      (known_by interest pollable l self) (unwatched interest pollable l self)"
    unfolding conn_registry_def by (rule epoll_client.is_registry [OF c])
  have i: "interest (kern p) (fd d') = Some (events d', self) \<or> events d' = 0"
    if "watched interest pollable l self d' p" for d' :: "unit dispatcher" and p
    using that by (auto simp: watched_def kNoneEvent_def split: if_splits)
  from conn_registry.setEventDispatcher_ok [OF r assms(3,5,6,4)] i show ?thesis by blast
qed

section \<open>Results and errors of a statement\<close>

text \<open>
  \<open>served env m rs m'\<close>: after the result that is there in state \<open>m\<close>, the library has the
  further results \<open>rs\<close> ready at once and then no more.
\<close>

fun served :: "('m, 'p) client \<Rightarrow> 'm \<Rightarrow> nat option list \<Rightarrow> 'm \<Rightarrow> bool" where
  "served env m [] m' = (\<not> more_results env m \<and> m' = m)"
| "served env m (r # rs) m' =
     (more_results env m \<and>
      (case next_result_start env m of (w1, e1, m1) \<Rightarrow>
       case store_result_start env m1 of (w2, r2, m2) \<Rightarrow>
         w1 = 0 \<and> e1 = 0 \<and> w2 = 0 \<and> r2 = r \<and> (r \<noteq> None \<or> client_errno env m2 = 0) \<and>
         served env m2 rs m'))"

fun result_calls :: "('m, 'p) client \<Rightarrow> nat \<Rightarrow> 'm \<Rightarrow> nat option \<Rightarrow> nat option list \<Rightarrow> user_call list" where
  "result_calls env c m r [] = [ResultCall c r (affected_rows env m) (insert_id env m)]"
| "result_calls env c m r (r' # rs) =
     ResultCall c r (affected_rows env m) (insert_id env m) #
     result_calls env c (snd (snd (store_result_start env (snd (snd (next_result_start env m)))))) r' rs"

lemma getResult_delivers:
  assumes "user env = recorded (\<lambda>_. skip)"
  shows "served env m rs m' \<Longrightarrow> 2 * length rs \<le> n \<Longrightarrow> idleSet s \<Longrightarrow> isWorking s \<Longrightarrow>
    callback s = Some c \<Longrightarrow> mysql s = Some m \<Longrightarrow>
    \<exists>s'. getResult env n r s = (s', None) \<and> calls s' = calls s @ result_calls env c m r rs @ [IdleCall] \<and>
      \<not> isWorking s' \<and> callback s' = None \<and> exceptionCallback s' = None \<and> mysql s' = Some m' \<and>
      execStatus s' = (if rs = [] then execStatus s else NoExec)"
proof (induction rs arbitrary: n s m r)
  case Nil
  then show ?case
    by (simp add: getResult.simps with_mysql_def call_user_def call_idle_def assms recorded_def andThen_def)
next
  case (Cons r1 rs)
  obtain m1 m2 where c: "more_results env m" "next_result_start env m = (0, 0, m1)"
      "store_result_start env m1 = (0, r1, m2)" "r1 \<noteq> None \<or> client_errno env m2 = 0"
      "served env m2 rs m'"
    using Cons.prems(1) by auto
  obtain k where k: "n = Suc (Suc k)" "2 * length rs \<le> k"
    using Cons.prems(2) by (cases n; cases "n - 1") auto
  define s1 where "s1 = s\<lparr>calls := calls s @ [ResultCall c r (affected_rows env m) (insert_id env m)],
      waitStatus := 0, mysql := Some m2, execStatus := NoExec\<rparr>"
  have "getResult env n r s = getResult env k r1 s1"
    using Cons.prems(3-6) c k(1)
    by (auto simp: getResult.simps [of env "Suc (Suc k)"] startStoreResult.simps with_mysql_def call_user_def
        assms recorded_def andThen_def s1_def)
  moreover have "idleSet s1" "isWorking s1" "callback s1 = Some c" "mysql s1 = Some m2"
    using Cons.prems(3-5) by (simp_all add: s1_def)
  note Cons.IH [OF c(5) k(2) this, of r1]
  moreover have "execStatus s1 = NoExec" "calls s1 = calls s @
      [ResultCall c r (affected_rows env m) (insert_id env m)]"
    by (simp_all add: s1_def)
  ultimately show ?case using c(2,3) by auto
qed

lemma handleCmd_delivers:
  assumes "user env = recorded (\<lambda>_. skip)" and "execStatus s = RealQuery"
    and "isWorking s" and "callback s = Some c" and "idleSet s" and "mysql s = Some m"
    and "real_query_cont env status m = (0, 0, m0)" and "store_result_start env m0 = (0, r, m1)"
    and "r \<noteq> None \<or> client_errno env m1 = 0" and "served env m1 rs m2" and "2 * length rs < n"
  shows "\<exists>s'. handleCmd env n status s = setEventDispatcher env s' \<and>
    calls s' = calls s @ result_calls env c m1 r rs @ [IdleCall] \<and> \<not> isWorking s' \<and>
    callback s' = None \<and> exceptionCallback s' = None \<and> execStatus s' = NoExec \<and> mysql s' = Some m2"
proof -
  obtain k where k: "n = Suc k" "2 * length rs \<le> k" using assms(11) by (cases n) auto
  define s0 where "s0 = s\<lparr>waitStatus := 0, mysql := Some m1, execStatus := NoExec\<rparr>"
  have "idleSet s0" "isWorking s0" "callback s0 = Some c" "mysql s0 = Some m1"
    using assms by (simp_all add: s0_def)
  from getResult_delivers [OF assms(1,10) k(2) this, of r] obtain s' where
    s': "getResult env k r s0 = (s', None)" "calls s' = calls s0 @ result_calls env c m1 r rs @ [IdleCall]"
      "\<not> isWorking s'" "callback s' = None" "exceptionCallback s' = None" "mysql s' = Some m2"
      "execStatus s' = (if rs = [] then execStatus s0 else NoExec)"
    by blast
  have "startStoreResult env n False (s\<lparr>waitStatus := 0, mysql := Some m0\<rparr>) = (s', None)"
    using s'(1) assms(8,9) k(1)
    by (auto simp: startStoreResult.simps with_mysql_def s0_def)
  then have "handleCmd env n status s = setEventDispatcher env s'"
    using assms(2,6,7) by (simp add: handleCmd_def with_mysql_def)
  then show ?thesis using s' by (intro exI [of _ s']) (simp add: s0_def)
qed

text \<open>
  A statement whose query and results come at once: its callback is called once for each
  result set, in order, then the idle callback, once; both callbacks of the statement are
  cleared and the connection takes the next statement.
\<close>

theorem results_delivered_in_order:
  assumes "user env = recorded (\<lambda>_. skip)" and "execStatus s = RealQuery"
    and "isWorking s" and "callback s = Some c" and "idleSet s" and "mysql s = Some m"
    and "real_query_cont env status m = (0, 0, m0)" and "store_result_start env m0 = (0, r, m1)"
    and "r \<noteq> None \<or> client_errno env m1 = 0" and "served env m1 rs m2" and "2 * length rs < n"
  shows "\<exists>s'. handleCmd env n status s = setEventDispatcher env s' \<and>
    calls s' = calls s @ result_calls env c m1 r rs @ [IdleCall] \<and> \<not> isWorking s' \<and>
    callback s' = None \<and> exceptionCallback s' = None \<and> execStatus s' = NoExec \<and> mysql s' = Some m2"
  using assms by (rule handleCmd_delivers)

text \<open>
  A single result that had to be waited for is delivered too, but leaves the execution
  status at \<open>StoreResult\<close>: the connection is idle, and yet the next event on the socket is not
  taken for the closing of the connection, which it is after a result that came at once.
\<close>

theorem awaited_result_leaves_status:
  assumes "user env = recorded (\<lambda>_. skip)" and "execStatus s = StoreResult"
    and "isWorking s" and "callback s = Some c" and "idleSet s" and "mysql s = Some m"
    and "store_result_cont env status m = (0, Some r, m1)" and "\<not> more_results env m1"
  shows "\<exists>s'. handleCmd env n status s = setEventDispatcher env s' \<and>
    calls s' = calls s @ [ResultCall c (Some r) (affected_rows env m1) (insert_id env m1), IdleCall] \<and>
    \<not> isWorking s' \<and> execStatus s' = StoreResult \<and> waitStatus s' = 0"
  using assms
  by (intro exI [of _ "s\<lparr>waitStatus := 0, mysql := Some m1, callback := None,
      exceptionCallback := None, isWorking := False, calls := calls s @
        [ResultCall c (Some r) (affected_rows env m1) (insert_id env m1), IdleCall]\<rparr>"])
    (simp add: handleCmd_def with_mysql_def getResult.simps andThen_def call_user_def call_idle_def
      recorded_def)

text \<open>
  An error of the running statement.  Where the logger returns from a fatal message, the
  statement's error callback gets the library's message with the statement, its callbacks are
  cleared and the idle callback follows; where the logger ends the process, as documented, no
  callback is called at all.
\<close>

theorem statement_error:
  assumes "user env = recorded (\<lambda>_. skip)" and "isWorking s" and "exceptionCallback s = Some c"
    and "idleSet s" and "mysql s = Some m" and "disp s = Some d"
    and "disableAll (cupd env) d (pl s) = Inr (d', p')"
    and "client_errno env m \<noteq> CR_SERVER_GONE_ERROR" and "client_errno env m \<noteq> CR_SERVER_LOST"
  shows "(\<not> fatal_exits env \<longrightarrow>
      (\<exists>s'. outputError env s = (s', None) \<and>
        calls s' = calls s @ [ExceptCall c (mk_SqlError (client_error env m) (sql s) None), IdleCall] \<and>
        \<not> isWorking s' \<and> callback s' = None \<and> exceptionCallback s' = None)) \<and>
    (fatal_exits env \<longrightarrow>
      (\<exists>s'. outputError env s = (s', Some ProcessExit) \<and> calls s' = calls s))"
  using assms
  by (simp add: outputError_def on_disp_def with_mysql_def log_fatal_def andThen_def call_user_def
      call_idle_def recorded_def Let_def)

text \<open>
  A connection that the library makes at once, without waiting, is never reported: the status
  stays that of connecting, no callback is called, nothing is queued, no timer set, and the
  dispatcher is not registered, so that no event will ever continue it.
\<close>

theorem immediate_connection_unreported:
  assumes "mysql s = Some m" and "real_connect_start env (connect_args s) (set_timeouts env m) = (0, ret, m')"
    and "client_errno env m' = 0" and "get_socket env m' \<ge> 0"
  shows "\<exists>s' d. init_in_loop env s = (s', None) \<and> cstatus s' = Connecting \<and> calls s' = calls s \<and>
    queued s' = queued s \<and> timeouts s' = timeouts s \<and> pl s' = pl s \<and>
    disp s' = Some d \<and> dstate d = kNew \<and> events d = 0"
proof -
  have "connect_args (s\<lparr>cstatus := Connecting\<rparr>) = connect_args s" by (simp add: connect_args_def)
  then show ?thesis using assms
    by (simp add: init_in_loop_def with_mysql_def Let_def setEventDispatcher_def
        andThen_def on_disp_def isWriting_def setEventCallback_def poller_states)
qed

text \<open>
  Disconnecting while the result of a statement is still queued for delivery makes that
  delivery use the library object that is gone.
\<close>

theorem disconnect_before_delivery_faults:
  assumes "disconnect_in_loop env s = (s', None)" and "queued s = GetResultTask r # ts"
  shows "snd (run_next_task env n s') = Some NullDeref"
proof -
  obtain s1 e where s1: "shut_dispatcher env (s\<lparr>cstatus := Bad\<rparr>) = (s1, e)" by fastforce
  then obtain d p where "s1 = s\<lparr>cstatus := Bad, disp := d, pl := p\<rparr>"
    using shut_dispatcher_result [where env = env and s = "s\<lparr>cstatus := Bad\<rparr>"] by auto
  moreover have "s' = s1\<lparr>mysql := None\<rparr>"
    using assms(1) s1 by (cases e) (simp_all add: disconnect_in_loop_def)
  ultimately show ?thesis using assms(2)
    by (simp add: run_next_task_def run_conn_task_def getResult.simps with_mysql_def)
qed

section \<open>A connection from its connection string\<close>

definition conn_param :: "('m, 'p) conn \<Rightarrow> string \<Rightarrow> string" where
  "conn_param s key =
     (if key = ''host'' then host s else if key = ''user'' then user_name s
      else if key = ''dbname'' then dbname s else if key = ''port'' then port s
      else if key = ''password'' then passwd s else characterSet s)"

definition param_keys :: "string set" where
  "param_keys = {''host'', ''user'', ''dbname'', ''port'', ''password'', ''client_encoding''}"

lemma conn_param_apply:
  "key \<in> param_keys \<Longrightarrow>
     conn_param (apply_param (k, v) s) key = (if map lower_char k = key then v else conn_param s key)"
  by (auto simp: param_keys_def conn_param_def apply_param_def Let_def)

lemma conn_param_fold:
  assumes "key \<in> param_keys" and "distinct (map fst ps)" and "list_all (\<lambda>(k, v). map lower_char k = k) ps"
  shows "conn_param (fold apply_param ps s) key =
    (case map_of ps key of None \<Rightarrow> conn_param s key | Some v \<Rightarrow> v)"
  using assms(2,3)
proof (induction ps arbitrary: s)
  case (Cons kv ps)
  obtain k v where kv: "kv = (k, v)" by (cases kv)
  have "map_of ps k = None" using Cons.prems(1) by (simp add: kv map_of_eq_None_iff)
  then show ?case
    using Cons conn_param_apply [OF assms(1), of k v s] by (auto simp: kv split: option.split)
qed simp

text \<open>
  The constructor of the connection takes host, user, database, port, password and character
  set from its connection string, the last pair with the key when there are several, and leaves
  empty what the string does not name.
\<close>

theorem connector_takes_params:
  assumes "list_all plain_pair kvs" and "list_all (\<lambda>(k, v). map lower_char k = k) kvs"
    and "key \<in> param_keys"
  shows "\<exists>s. mk_MySQLConnector (Some l) (conn_text kvs) m p = Inr s \<and>
    conn_param s key = (case map_of (rev kvs) key of None \<Rightarrow> [] | Some v \<Rightarrow> v)"
proof -
  define ps where "ps = parseConnString (conn_text kvs)"
  have ps: "map_of ps = map_of (rev kvs)"
    using assms(1) by (simp add: ps_def parseConnString_def parseLoop_text map_of_fold_put)
  have "sorted_wrt (<) (map fst ps)" by (simp add: ps_def parseConnString_def parseLoop_sorted)
  then have d: "distinct (map fst ps)" by (simp add: strict_sorted_iff)
  have "fst ` set ps = fst ` set kvs" using ps dom_map_of_conv_image_fst [of ps] dom_map_of_conv_image_fst [of "rev kvs"] by simp
  then have "list_all (\<lambda>(k, v). map lower_char k = k) ps"
    using assms(2) by (fastforce simp: list_all_iff image_iff)
  note * = conn_param_fold [OF assms(3) d this]
  obtain s0 where "mk_DbConnection (Some l) m p = Inr s0" "conn_param s0 key = []"
    by (simp add: mk_DbConnection_def conn_param_def)
  then show ?thesis
    by (simp add: mk_MySQLConnector_def * ps flip: ps_def split: option.split)
qed

theorem connector_takes_params_witness:
  "\<exists>s. mk_MySQLConnector (Some 1) (conn_text [(''host'', ''db''), (''port'', ''3306'')]) () () = Inr s \<and>
     conn_param s ''port'' = ''3306''"
  using connector_takes_params [of "[(''host'', ''db''), (''port'', ''3306'')]" "''port''" 1 "()" "()"]
  by (simp add: plain_pair_def is_word_char_def is_blank_def less_eq_char_def lower_char_def param_keys_def)

section \<open>Concrete runs\<close>

text \<open>A library whose state is the number of results still to come and that never waits.\<close>

definition demo_client :: "bool \<Rightarrow> (nat, epoll_table poller) client" where
  "demo_client b =
     \<lparr>set_option = (\<lambda>_ _ m. m), real_connect_start = (\<lambda>_ m. (0, True, m)), real_connect_cont = (\<lambda>_ m. (0, True, m)),
      set_character_set_start = (\<lambda>_ m. (0, 0, m)), set_character_set_cont = (\<lambda>_ m. (0, 0, m)),
      real_query_start = (\<lambda>_ m. (0, 0, m)), real_query_cont = (\<lambda>_ m. (0, 0, m)),
      store_result_start = (\<lambda>m. (0, Some m, m)), store_result_cont = (\<lambda>_ m. (0, Some m, m)),
      next_result_start = (\<lambda>m. (0, 0, m - 1)), next_result_cont = (\<lambda>_ m. (0, 0, m - 1)),
      more_results = (\<lambda>m. m > 0), client_errno = (\<lambda>_. 0), client_error = (\<lambda>_. ''no''),
      affected_rows = id, insert_id = id, get_socket = (\<lambda>_. 5), get_timeout_value = (\<lambda>_. 1),
      escape_string = (\<lambda>_ z. z), cupd = loop_updateEventDispatcher (\<lambda>x. x = 0) table_ctl 0 9,
      crem = loop_removeEventDispatcher (\<lambda>x. x = 0) table_ctl 0 9, cloop = 0, fatal_exits = b,
      user = recorded (\<lambda>_. skip)\<rparr>"

definition demo_disp :: "unit dispatcher" where
  "demo_disp = (mk_EventDispatcher 0 5)\<lparr>events := kReadEvent, dstate := kAdded\<rparr>"

definition demo_conn :: "connect_status \<Rightarrow> exec_status \<Rightarrow> nat \<Rightarrow> (nat, epoll_table poller) conn" where
  "demo_conn c x m =
     (projr (mk_DbConnection (Some 0) m (mk_EpollPoller [5 \<mapsto> (kReadEvent, 9)] 0)))
       \<lparr>cstatus := c, execStatus := x, disp := Some demo_disp\<rparr>"

lemma demo_conn_simps [simp]:
  "mysql (demo_conn c x m) = Some m" "cstatus (demo_conn c x m) = c" "execStatus (demo_conn c x m) = x"
  "waitStatus (demo_conn c x m) = 0" "disp (demo_conn c x m) = Some demo_disp"
  "pl (demo_conn c x m) = mk_EpollPoller [5 \<mapsto> (kReadEvent, 9)] 0"
  "characterSet (demo_conn c x m) = []" "isWorking (demo_conn c x m) = False"
  "callback (demo_conn c x m) = Some 0" "exceptionCallback (demo_conn c x m) = Some 0"
  "okSet (demo_conn c x m)" "closeSet (demo_conn c x m)" "idleSet (demo_conn c x m)"
  "queued (demo_conn c x m) = []" "timeouts (demo_conn c x m) = []" "calls (demo_conn c x m) = []"
  "sql (demo_conn c x m) = []"
  by (simp_all add: demo_conn_def mk_DbConnection_def)

lemma demo_disp_simps [simp]:
  "isReading demo_disp" "\<not> isWriting demo_disp" "realEvents demo_disp = 0" "fd demo_disp = 5"
  "events demo_disp = kReadEvent" "dstate demo_disp = kAdded" "dloop demo_disp = 0"
  by (simp_all add: demo_disp_def isReading_def isWriting_def event_bits mk_EventDispatcher_def)

lemma demo_watched:
  "watched table_interest table_pollable 0 9 demo_disp (pl (demo_conn c x m))"
  by (simp add: watched_def known_by_def table_interest_def table_pollable_def poller_states)

lemma demo_close:
  "\<exists>d' p'. disableAll (cupd (demo_client b)) demo_disp (pl (demo_conn c x m)) = Inr (d', p')"
  using event_registry.disableAll_ok [OF table_client.is_registry demo_watched]
  by (fastforce simp: demo_client_def)



theorem setEventDispatcher_watches_witness:
  "\<exists>s' d'. setEventDispatcher (demo_client True) ((demo_conn ConnOk NoExec 0)\<lparr>waitStatus := 2\<rparr>) = (s', None) \<and>
     disp s' = Some d' \<and> isWriting d' \<and> isReading d'"
proof -
  let ?s = "(demo_conn ConnOk NoExec 0)\<lparr>waitStatus := 2\<rparr>"
  have w: "watched table_interest table_pollable 0 9 demo_disp (pl ?s)" using demo_watched by simp
  have "cupd (demo_client True) = loop_updateEventDispatcher (\<lambda>x. x = 0) table_ctl 0 9"
    by (simp add: demo_client_def)
  from setEventDispatcher_watches [OF table.epoll_kernel_axioms _ this _ _ w, of 0]
  show ?thesis by (fastforce simp: wait_bits)
qed

theorem results_delivered_in_order_witness:
  "\<exists>s'. handleCmd (demo_client True) 3 0 ((demo_conn ConnOk RealQuery 1)\<lparr>isWorking := True, callback := Some 4\<rparr>) =
       setEventDispatcher (demo_client True) s' \<and>
     calls s' = [ResultCall 4 (Some 1) 1 1, ResultCall 4 (Some 0) 0 0, IdleCall] \<and> \<not> isWorking s'"
  using results_delivered_in_order [where env = "demo_client True" and n = 3 and status = 0 and c = 4
      and m = 1 and ?m0.0 = 1 and ?m1.0 = 1 and ?m2.0 = 0 and r = "Some 1" and rs = "[Some 0]"
      and s = "(demo_conn ConnOk RealQuery 1)\<lparr>isWorking := True, callback := Some 4\<rparr>"]
  by (fastforce simp: demo_client_def)

theorem awaited_result_leaves_status_witness:
  "\<exists>s'. handleCmd (demo_client True) 3 0 ((demo_conn ConnOk StoreResult 0)\<lparr>isWorking := True, callback := Some 4\<rparr>) =
       setEventDispatcher (demo_client True) s' \<and>
     calls s' = [ResultCall 4 (Some 0) 0 0, IdleCall] \<and> execStatus s' = StoreResult"
  using awaited_result_leaves_status [where env = "demo_client True" and n = 3 and status = 0 and c = 4
      and m = 0 and ?m1.0 = 0 and r = 0
      and s = "(demo_conn ConnOk StoreResult 0)\<lparr>isWorking := True, callback := Some 4\<rparr>"]
  by (fastforce simp: demo_client_def)

theorem statement_error_witness:
  "\<exists>s'. outputError (demo_client False) ((demo_conn ConnOk NoExec 0)\<lparr>isWorking := True\<rparr>) = (s', None) \<and>
     calls s' = [ExceptCall 0 (mk_SqlError ''no'' [] None), IdleCall]"
proof -
  obtain d' p' where d: "disableAll (cupd (demo_client False)) demo_disp (pl (demo_conn ConnOk NoExec 0)) = Inr (d', p')"
    using demo_close by blast
  let ?s = "(demo_conn ConnOk NoExec 0)\<lparr>isWorking := True\<rparr>"
  have "disableAll (cupd (demo_client False)) demo_disp (pl ?s) = Inr (d', p')" using d by simp
  note facts = statement_error [OF _ _ _ _ _ _ this, of 0 0]
  have "user (demo_client False) = recorded (\<lambda>_. skip)" "\<not> fatal_exits (demo_client False)"
    "client_errno (demo_client False) = (\<lambda>_. 0)" "client_error (demo_client False) = (\<lambda>_. ''no'')"
    by (simp_all add: demo_client_def)
  with facts show ?thesis by (auto simp: CR_SERVER_GONE_ERROR_def CR_SERVER_LOST_def)
qed

theorem immediate_connection_unreported_witness:
  "\<exists>s'. init_in_loop (demo_client True) (demo_conn NotConnected NoExec 0) = (s', None) \<and>
     cstatus s' = Connecting \<and> calls s' = []"
  using immediate_connection_unreported [of "demo_conn NotConnected NoExec 0" 0 "demo_client True" True 0]
  by (fastforce simp: demo_client_def set_timeouts_def)

theorem disconnect_before_delivery_faults_witness:
  "\<exists>s'. disconnect_in_loop (demo_client True) ((demo_conn ConnOk NoExec 0)\<lparr>queued := [GetResultTask None]\<rparr>) = (s', None) \<and>
     snd (run_next_task (demo_client True) 0 s') = Some NullDeref"
proof -
  let ?s = "(demo_conn ConnOk NoExec 0)\<lparr>queued := [GetResultTask None]\<rparr>"
  obtain d' p' where "obind (disableAll (cupd (demo_client True)) demo_disp (pl ?s))
      (\<lambda>(d1, p1). remove_dispatcher (crem (demo_client True)) d1 p1) = Inr (d', p')"
    using event_registry.shutdown_ok [OF table_client.is_registry demo_watched, of c x m]
    by (fastforce simp: demo_client_def)
  then obtain s' where s': "disconnect_in_loop (demo_client True) ?s = (s', None)"
    by (auto simp: disconnect_in_loop_def shut_dispatcher_def andThen_def on_disp_def outcome_simps)
  then show ?thesis using disconnect_before_delivery_faults [OF s', of None "[]"] by auto
qed

end
