(* ===== verification/Statements.thy ===== *)
theory Statements
  imports MySQLConnector
begin

text \<open>
  The protocol of statements on a connection of \<^verbatim>\<open>MySQLImpl/MySQLConnector.cpp\<close>: what its user is
  told about the statements, in which order, over the whole life of the connection.
\<close>

section \<open>The phases of a connection\<close>

text \<open>
  What the calls so far amount to: no statement has been told about since the last was done, the
  statement with result callback \<open>c\<close> has delivered results, or a statement has failed.
\<close>

datatype phase = Free | Delivering nat | Failed

fun next_phase :: "phase \<Rightarrow> user_call \<Rightarrow> phase option" where
  "next_phase p (ResultCall c r a i) =
     (case p of Delivering d \<Rightarrow> if c = d then Some p else None | _ \<Rightarrow> Some (Delivering c))"
| "next_phase p (ExceptCall e x) = Some Failed"
| "next_phase p IdleCall = (if p = Free then None else Some Free)"
| "next_phase p OkCall = Some p"
| "next_phase p CloseCall = Some p"

definition phase_of :: "user_call list \<Rightarrow> phase option" where
  "phase_of us = foldl (\<lambda>p u. Option.bind p (\<lambda>q. next_phase q u)) (Some Free) us"

lemma phase_of_Nil [simp]: "phase_of [] = Some Free"
  by (simp add: phase_of_def)

lemma phase_of_snoc [simp]: "phase_of (us @ [u]) = Option.bind (phase_of us) (\<lambda>q. next_phase q u)"
  by (simp add: phase_of_def)

text \<open>
  The invariant: the calls are in order, and the statement that has delivered something is the one
  being worked on.
\<close>

definition stmt_inv :: "('m, 'p) conn \<Rightarrow> bool" where
  "stmt_inv s \<longleftrightarrow> idleSet s \<and> (isWorking s \<longrightarrow> callback s \<noteq> None) \<and>
     (\<exists>p. phase_of (calls s) = Some p \<and> (\<forall>c. p = Delivering c \<longrightarrow> isWorking s \<and> callback s = Some c))"

definition now_delivering :: "('m, 'p) conn \<Rightarrow> bool" where
  "now_delivering s \<longleftrightarrow> (\<exists>c. phase_of (calls s) = Some (Delivering c))"

definition now_failed :: "('m, 'p) conn \<Rightarrow> bool" where
  "now_failed s \<longleftrightarrow> phase_of (calls s) = Some Failed"

text \<open>
  What the user's callbacks may do: anything that keeps the invariant, a further statement in the
  idle callback for example; those for results and errors make no call of their own.
\<close>

definition orderly :: "(user_call \<Rightarrow> ('m, 'p) step) \<Rightarrow> bool" where
  "orderly behave \<longleftrightarrow>
     (\<forall>u. kept any_outcome stmt_inv (behave u)) \<and>
     (\<forall>u s s'. u \<notin> {OkCall, CloseCall, IdleCall} \<longrightarrow> behave u s = (s', None) \<longrightarrow> calls s' = calls s)"

lemma stmt_invariant:
  fixes env :: "('m, 'p) client"
  assumes env: "user env = recorded behave" and behave: "orderly behave"
  shows "conn_invariant stmt_inv now_delivering (\<lambda>s. stmt_inv s \<and> now_failed s) env"
proof -
  have kept: "kept any_outcome stmt_inv (behave u)" for u using behave by (simp add: orderly_def)
  note call = recorded_kept [OF env kept]
  have same: "calls s' = calls s @ [u]" if "user env u s = (s', None)" "u \<notin> {OkCall, CloseCall, IdleCall}" for u s s'
    using behave that by (auto simp: orderly_def env recorded_def)
  let ?free = "\<lambda>s :: ('m, 'p) conn. s\<lparr>callback := None, exceptionCallback := None, isWorking := False\<rparr>"
  have idle: "stmt_inv (fst (call_idle env (?free s)))" if "stmt_inv s" "now_delivering s \<or> now_failed s" for s
  proof -
    have "stmt_inv ((?free s)\<lparr>calls := calls s @ [IdleCall]\<rparr>)"
      using that by (auto simp: stmt_inv_def now_delivering_def now_failed_def)
    then have "stmt_inv (fst (user env IdleCall (?free s)))" using call [of "?free s" IdleCall] by simp
    then show ?thesis using that(1) by (simp add: call_idle_def call_user_def stmt_inv_def)
  qed
  show ?thesis
  proof unfold_locales
    fix s :: "('m, 'p) conn" and c e r a i ex
    {
      assume h: "stmt_inv s" "isWorking s" "callback s = Some c"
      then obtain p where p: "phase_of (calls s) = Some p" "\<forall>d. p = Delivering d \<longrightarrow> d = c" by (auto simp: stmt_inv_def)
      have ph: "phase_of (calls s @ [ResultCall c r a i]) = Some (Delivering c)"
        using p by (cases p) simp_all
      then have "stmt_inv (s\<lparr>calls := calls s @ [ResultCall c r a i]\<rparr>)" using h by (simp add: stmt_inv_def)
      then have "stmt_inv (fst (user env (ResultCall c r a i) s))" by (rule call)
      moreover have "now_delivering (fst (user env (ResultCall c r a i) s))"
        if "snd (user env (ResultCall c r a i) s) = None"
        using same [of "ResultCall c r a i" s] that ph by (cases "user env (ResultCall c r a i) s") (simp add: now_delivering_def)
      ultimately show "stmt_inv (fst (user env (ResultCall c r a i) s)) \<and>
          (snd (user env (ResultCall c r a i) s) = None \<longrightarrow> now_delivering (fst (user env (ResultCall c r a i) s)))"
        by blast
    next
      assume h: "stmt_inv s" "isWorking s"
      then have ph: "phase_of (calls s @ [ExceptCall e ex]) = Some Failed" by (auto simp: stmt_inv_def)
      then have "stmt_inv (s\<lparr>calls := calls s @ [ExceptCall e ex]\<rparr>)" using h by (simp add: stmt_inv_def)
      then have "stmt_inv (fst (user env (ExceptCall e ex) s))" by (rule call)
      moreover have "now_failed (fst (user env (ExceptCall e ex) s))" if "snd (user env (ExceptCall e ex) s) = None"
        using same [of "ExceptCall e ex" s] that ph by (cases "user env (ExceptCall e ex) s") (simp add: now_failed_def)
      ultimately show "if snd (user env (ExceptCall e ex) s) = None
          then stmt_inv (fst (user env (ExceptCall e ex) s)) \<and> now_failed (fst (user env (ExceptCall e ex) s))
          else stmt_inv (fst (user env (ExceptCall e ex) s))"
        by simp
    next
      assume h: "stmt_inv s" "now_delivering s"
      then show "stmt_inv (fst (call_idle env (?free s)))" using idle by blast
    next
      assume h: "stmt_inv s \<and> now_failed s"
      then have "stmt_inv (?free s)" by (auto simp: stmt_inv_def now_failed_def)
      then show "stmt_inv (?free s) \<and> stmt_inv (fst (call_idle env (?free s)))" using idle h by blast
    }
  next
    fix s :: "('m, 'p) conn" and d p
    assume h: "stmt_inv s"
    then have "stmt_inv (s\<lparr>cstatus := Bad, disp := d, pl := p\<rparr>)" by (simp add: stmt_inv_def)
    moreover have "stmt_inv (s\<lparr>cstatus := Bad, disp := d, pl := p, calls := calls s @ [CloseCall]\<rparr>)"
      using h by (auto simp: stmt_inv_def)
    then have "stmt_inv (fst (user env CloseCall (s\<lparr>cstatus := Bad, disp := d, pl := p\<rparr>)))"
      using call [of "s\<lparr>cstatus := Bad, disp := d, pl := p\<rparr>" CloseCall] by simp
    ultimately show "stmt_inv (s\<lparr>cstatus := Bad, disp := d, pl := p\<rparr>) \<and>
        stmt_inv (fst (user env CloseCall (s\<lparr>cstatus := Bad, disp := d, pl := p\<rparr>)))" by blast
  next
    fix s :: "('m, 'p) conn"
    assume h: "stmt_inv s"
    then have "stmt_inv (s\<lparr>cstatus := ConnOk\<rparr>)" by (simp add: stmt_inv_def)
    moreover have "stmt_inv (s\<lparr>cstatus := ConnOk, calls := calls s @ [OkCall]\<rparr>)"
      using h by (auto simp: stmt_inv_def)
    then have "stmt_inv (fst (user env OkCall (s\<lparr>cstatus := ConnOk\<rparr>)))"
      using call [of "s\<lparr>cstatus := ConnOk\<rparr>" OkCall] by simp
    ultimately show "stmt_inv (s\<lparr>cstatus := ConnOk\<rparr>) \<and> stmt_inv (fst (user env OkCall (s\<lparr>cstatus := ConnOk\<rparr>)))"
      by blast
  next
    fix s :: "('m, 'p) conn" and c ec z
    assume "stmt_inv s" "\<not> isWorking s"
    then show "stmt_inv (s\<lparr>callback := Some c, isWorking := True, exceptionCallback := ec, sql := z\<rparr>)"
      by (auto simp: stmt_inv_def)
  qed (simp_all add: stmt_inv_def)
qed

section \<open>What the user is told\<close>

text \<open>The calls about statements, and those about one statement from its first result to its end.\<close>

definition about_statement :: "user_call \<Rightarrow> bool" where
  "about_statement u \<longleftrightarrow> u \<notin> {OkCall, CloseCall}"

lemma about_statement_simps [simp]:
  "about_statement (ResultCall c r a i)" "about_statement (ExceptCall e x)" "about_statement IdleCall"
  "\<not> about_statement OkCall" "\<not> about_statement CloseCall"
  by (simp_all add: about_statement_def)

definition result_of :: "nat \<Rightarrow> user_call \<Rightarrow> bool" where
  "result_of c u \<longleftrightarrow> (\<exists>r a i. u = ResultCall c r a i)"

definition answered :: "user_call list \<Rightarrow> bool" where
  "answered us \<longleftrightarrow>
     (\<exists>c rs. list_all (result_of c) rs \<and>
       (rs \<noteq> [] \<and> us = rs @ [IdleCall] \<or> (\<exists>e x. us = rs @ [ExceptCall e x] \<or> us = rs @ [ExceptCall e x, IdleCall])))"

lemma phase_answers:
  "phase_of us = Some p \<Longrightarrow> \<exists>fin cur. filter about_statement us = concat fin @ cur \<and> list_all answered fin \<and>
     (case p of Free \<Rightarrow> cur = []
      | Delivering c \<Rightarrow> cur \<noteq> [] \<and> list_all (result_of c) cur
      | Failed \<Rightarrow> cur = [] \<and> (\<exists>pre c rs e x. fin = pre @ [rs @ [ExceptCall e x]] \<and> list_all (result_of c) rs))"
proof (induction us arbitrary: p rule: rev_induct)
  case Nil
  then show ?case by (intro exI [of _ "[]"]) simp
next
  case (snoc u us)
  then obtain q where q: "phase_of us = Some q" "next_phase q u = Some p" by (auto simp: bind_eq_Some_conv)
  obtain fin cur where d: "filter about_statement us = concat fin @ cur" "list_all answered fin"
      "case q of Free \<Rightarrow> cur = []
      | Delivering c \<Rightarrow> cur \<noteq> [] \<and> list_all (result_of c) cur
      | Failed \<Rightarrow> cur = [] \<and> (\<exists>pre c rs e x. fin = pre @ [rs @ [ExceptCall e x]] \<and> list_all (result_of c) rs)"
    using snoc.IH [OF q(1)] by blast
  show ?case
  proof (cases u)
    case (ResultCall c r a i)
    have u: "filter about_statement (us @ [u]) = concat fin @ (cur @ [u])"
      by (simp add: d(1) ResultCall)
    have "p = Delivering c" "cur = [] \<or> list_all (result_of c) cur"
      using q(2) d(3) by (auto simp: ResultCall split: phase.splits if_splits)
    then show ?thesis using u d(2) by (intro exI [of _ "fin"] exI [of _ "cur @ [u]"]) (auto simp: ResultCall result_of_def)
  next
    case (ExceptCall e x)
    have u: "filter about_statement (us @ [u]) = concat (fin @ [cur @ [u]]) @ []"
      by (simp add: d(1) ExceptCall)
    obtain c where c: "list_all (result_of c) cur" using d(3) by (cases q) auto
    then have "answered (cur @ [u])" by (auto simp: answered_def ExceptCall)
    then show ?thesis using u d(2) c q(2)
      by (intro exI [of _ "fin @ [cur @ [u]]"] exI [of _ "[]"]) (auto simp: ExceptCall)
  next
    case IdleCall
    then have p: "p = Free" "q \<noteq> Free" using q(2) by (auto split: if_splits)
    show ?thesis
    proof (cases q)
      case Free
      then show ?thesis using p by simp
    next
      case (Delivering c)
      have "answered (cur @ [u])" using d(3) by (auto simp: answered_def IdleCall Delivering)
      then show ?thesis using d(1,2) p
        by (intro exI [of _ "fin @ [cur @ [u]]"] exI [of _ "[]"]) (simp add: IdleCall)
    next
      case Failed
      then obtain pre c rs e x where f: "cur = []" "fin = pre @ [rs @ [ExceptCall e x]]" "list_all (result_of c) rs"
        using d(3) by auto
      then have "answered (rs @ [ExceptCall e x, IdleCall])" by (auto simp: answered_def)
      then show ?thesis using d(1,2) p f
        by (intro exI [of _ "pre @ [rs @ [ExceptCall e x, IdleCall]]"] exI [of _ "[]"])
          (simp add: IdleCall)
    qed
  next
    case OkCall
    then show ?thesis using q(2) d by (intro exI [of _ "fin"] exI [of _ "cur"]) simp
  next
    case CloseCall
    then show ?thesis using q(2) d by (intro exI [of _ "fin"] exI [of _ "cur"]) simp
  qed
qed

text \<open>
  C5: what the user of a connection is told about statements, at any point of the connection's
  life, whatever the library answers.  Statement after statement, each with its results, all to its
  own callback, and then either the one call that says that the connection is idle or its error
  callback, after which the connection is idle or lost; nothing of two statements is mixed, no
  statement is told about again once it has ended, and the connection does not become idle without
  an answer.  Behind these there are at most results of the statement that is being worked on.
\<close>

theorem statements_answered_in_order:
  assumes "user env = recorded behave" and "orderly behave" and "conn_steps env n s0 s"
    and "calls s0 = []" and "\<not> isWorking s0" and "idleSet s0"
  shows "\<exists>fin cur. filter about_statement (calls s) = concat fin @ cur \<and> list_all answered fin \<and>
    (cur \<noteq> [] \<longrightarrow> isWorking s \<and> (\<exists>c. callback s = Some c \<and> list_all (result_of c) cur))"
proof -
  have "stmt_inv s"
    by (rule conn_invariant.steps_kept [OF stmt_invariant [OF assms(1,2)] assms(3)])
      (use assms(4-6) in \<open>simp_all add: stmt_inv_def\<close>)
  then obtain p where p: "phase_of (calls s) = Some p" "\<forall>c. p = Delivering c \<longrightarrow> isWorking s \<and> callback s = Some c"
    by (auto simp: stmt_inv_def)
  from phase_answers [OF p(1)] obtain fin cur where "filter about_statement (calls s) = concat fin @ cur" "list_all answered fin"
      "case p of Free \<Rightarrow> cur = [] | Delivering c \<Rightarrow> cur \<noteq> [] \<and> list_all (result_of c) cur
       | Failed \<Rightarrow> cur = [] \<and> (\<exists>pre c rs e x. fin = pre @ [rs @ [ExceptCall e x]] \<and> list_all (result_of c) rs)"
    by blast
  then show ?thesis using p(2) by (intro exI [of _ "fin"] exI [of _ "cur"]) (cases p; auto)
qed

lemma orderly_skip: "orderly (\<lambda>_. skip)"
  by (simp add: orderly_def kept_skip)

section \<open>Errors of statements\<close>

definition no_error :: "('m, 'p) conn \<Rightarrow> bool" where
  "no_error s \<longleftrightarrow> (\<forall>e x. ExceptCall e x \<notin> set (calls s))"

lemma no_error_invariant:
  fixes env :: "('m, 'p) client"
  assumes env: "user env = recorded behave" and behave: "\<And>u. kept any_outcome no_error (behave u)" and fatal: "fatal_exits env"
  shows "conn_invariant no_error (\<lambda>_. True) no_error env"
proof -
  note call = recorded_kept [OF env behave]
  have u: "no_error s \<Longrightarrow> \<forall>e x. u \<noteq> ExceptCall e x \<Longrightarrow> no_error (fst (user env u s))" for s u
    by (rule call) (auto simp: no_error_def)
  have same: "no_error s \<Longrightarrow> calls s' = calls s \<Longrightarrow> no_error s'" for s s' :: "('m, 'p) conn"
    by (simp add: no_error_def)
  have idle: "no_error (fst (call_idle env s))" if "no_error s" for s
    using that u [OF that, of IdleCall] by (simp add: call_idle_def call_user_def)
  show ?thesis
  proof unfold_locales
    fix s :: "('m, 'p) conn" and d p
    assume s: "no_error s"
    show "no_error (s\<lparr>cstatus := Bad, disp := d, pl := p\<rparr>) \<and>
        no_error (fst (user env CloseCall (s\<lparr>cstatus := Bad, disp := d, pl := p\<rparr>)))"
      by (intro conjI u) (simp_all add: same [OF s])
    show "no_error (s\<lparr>cstatus := ConnOk\<rparr>) \<and> no_error (fst (user env OkCall (s\<lparr>cstatus := ConnOk\<rparr>)))"
      by (intro conjI u) (simp_all add: same [OF s])
    show "no_error (s\<lparr>callback := None, exceptionCallback := None, isWorking := False\<rparr>) \<and>
        no_error (fst (call_idle env (s\<lparr>callback := None, exceptionCallback := None, isWorking := False\<rparr>)))"
      by (intro conjI idle) (simp_all add: same [OF s])
    show "no_error (fst (call_idle env (s\<lparr>callback := None, exceptionCallback := None, isWorking := False\<rparr>)))"
      by (rule idle) (simp add: same [OF s])
  qed (use fatal u in \<open>simp_all add: no_error_def\<close>)
qed


text \<open>A statement with two results, run from the loop's thread, and delivered by the closure it queues.\<close>

lemma demo_two_results:
  "\<exists>s. conn_steps (demo_client True) 9 (demo_conn ConnOk NoExec 1) s \<and> length (calls s) = 3 \<and> \<not> isWorking s"
proof -
  let ?e = "demo_client True" and ?s0 = "demo_conn ConnOk NoExec 1"
  define s1 where "s1 = fst (execSql ?e 9 True ''q'' 0 [] (Some 4) (Some 5) ?s0)"
  define s2 where "s2 = fst (run_next_task ?e 9 s1)"
  have s1: "execSql ?e 9 True ''q'' 0 [] (Some 4) (Some 5) ?s0 = (s1, None)" "queued s1 = [GetResultTask (Some 1)]"
      "mysql s1 = Some 1" "isWorking s1" "callback s1 = Some 4" "idleSet s1" "calls s1 = []"
    by (simp_all add: s1_def execSql_def execSqlInLoop_def with_mysql_def startQuery_def startStoreResult.simps Let_def
        demo_client_def setEventDispatcher_def andThen_def on_disp_def enqueue_task_def)
  have s2: "run_next_task ?e 9 s1 = (s2, None)" "length (calls s2) = 3" "\<not> isWorking s2"
    using s1(2-7)
    by (simp_all add: s2_def run_next_task_def run_conn_task_def getResult.simps startStoreResult.simps with_mysql_def Let_def
        demo_client_def call_user_def call_idle_def recorded_def andThen_def numeral_eq_Suc)
  have "conn_steps ?e 9 ?s0 s1" by (rule conn_steps.exec [OF conn_steps.start s1(1)])
  then have "conn_steps ?e 9 ?s0 s2" by (rule conn_steps.task [OF _ s1(2) _ s2(1)]) simp
  then show ?thesis using s2(2,3) by blast
qed

theorem statements_answered_in_order_witness:
  "\<exists>s. conn_steps (demo_client True) 9 (demo_conn ConnOk NoExec 1) s \<and> length (calls s) = 3 \<and>
     (\<exists>fin. filter about_statement (calls s) = concat fin \<and> list_all answered fin)"
proof -
  obtain s where s: "conn_steps (demo_client True) 9 (demo_conn ConnOk NoExec 1) s" "length (calls s) = 3" "\<not> isWorking s"
    using demo_two_results by blast
  obtain fin cur where f: "filter about_statement (calls s) = concat fin @ cur" "list_all answered fin"
      "cur \<noteq> [] \<longrightarrow> isWorking s"
    using statements_answered_in_order [OF _ orderly_skip s(1)] by (auto simp: demo_client_def)
  then have "cur = []" using s(3) by blast
  then show ?thesis using s f(1,2) by (intro exI [of _ s] conjI exI [of _ fin]) simp_all
qed


end
