(* ===== verification/DbResult.thy ===== *)
theory DbResult
  imports Decimal Utils ArrayParser
begin

text \<open>
  Query results: the interface \<^verbatim>\<open>ResultImpl\<close> and its implementation \<^verbatim>\<open>MySQLResultImpl\<close>, the
  classes \<^verbatim>\<open>Result\<close>, \<^verbatim>\<open>Row\<close> and \<^verbatim>\<open>Field\<close> over it, and the iterators of \<^verbatim>\<open>ResultIterator.h\<close> and
  \<^verbatim>\<open>RowIterator.h\<close>.  A virtual call goes through a record of functions; sizes and indices are the
  64-bit words they are in the code, where an iterator in front of the first row is index $-1$.

  The functions of the MariaDB client that read a stored result are the record \<open>res_lib\<close>; a
  cell is a null pointer or the bytes in front of the NUL that the library puts after them.
\<close>

section \<open>The stored result of the client library\<close>

type_synonym cell = "string option"

record 'r res_lib =
  num_rows :: "'r \<Rightarrow> 64 word"
  fetch_fields :: "'r \<Rightarrow> string list"
  num_fields :: "'r \<Rightarrow> 32 word"
  fetch_row :: "'r \<Rightarrow> cell list option \<times> 'r"
  fetch_lengths :: "'r \<Rightarrow> 64 word list"

text \<open>
  The contract of the library for a result with these rows: \<^verbatim>\<open>mysql_fetch_row\<close> returns them one by
  one and then a null pointer, \<^verbatim>\<open>mysql_fetch_lengths\<close> the lengths of the current row, 0 for a null
  cell.
\<close>

definition cell_length :: "cell \<Rightarrow> 64 word" where
  "cell_length x = (case x of None \<Rightarrow> 0 | Some z \<Rightarrow> of_nat (length z))"

fun serves :: "'r res_lib \<Rightarrow> 'r \<Rightarrow> cell list list \<Rightarrow> bool" where
  "serves lib r [] \<longleftrightarrow> fst (fetch_row lib r) = None"
| "serves lib r (row # rows) \<longleftrightarrow>
     (case fetch_row lib r of
        (Some row', r') \<Rightarrow> row' = row \<and> fetch_lengths lib r' = map cell_length row \<and> serves lib r' rows
      | (None, _) \<Rightarrow> False)"

definition short_cells :: "cell list \<Rightarrow> bool" where
  "short_cells row \<longleftrightarrow> list_all (\<lambda>x. case x of None \<Rightarrow> True | Some z \<Rightarrow> length z < 2 ^ 64) row"

definition stored :: "'r res_lib \<Rightarrow> 'r \<Rightarrow> string list \<Rightarrow> cell list list \<Rightarrow> bool" where
  "stored lib r names rows \<longleftrightarrow>
     serves lib r rows \<and> num_rows lib r = of_nat (length rows) \<and> length rows < 2 ^ 63 \<and>
     fetch_fields lib r = names \<and> num_fields lib r = of_nat (length names) \<and> length names < 2 ^ 32 \<and>
     list_all (\<lambda>row. length row = length names \<and> short_cells row) rows"

section \<open>MySQLResultImpl\<close>

record mysql_impl =
  rowsNumber :: "64 word"
  fieldArray :: "string list option"
  fieldsNumber :: "64 word"
  affected :: "64 word"
  inserted :: "64 word"
  fieldsMap :: "(string \<Rightarrow> 64 word option) option"
  rowsPtr :: "(cell list \<times> 64 word list) list option"

definition field_map :: "string list \<Rightarrow> nat \<Rightarrow> string \<Rightarrow> 64 word option" where
  "field_map names n =
     fold (\<lambda>i m. m(map lower_char (names ! i) \<mapsto> of_nat i)) [0..<n] Map.empty"

partial_function (option) fetch_rows ::
  "'r res_lib \<Rightarrow> 'r \<Rightarrow> (cell list \<times> 64 word list) list \<Rightarrow> (cell list \<times> 64 word list) list option" where
  "fetch_rows lib r acc =
     (case fetch_row lib r of
        (None, _) \<Rightarrow> Some acc
      | (Some row, r') \<Rightarrow> fetch_rows lib r' (acc @ [(row, fetch_lengths lib r')]))"

text \<open>The constructor; \<open>None\<close> is a loop over rows that never ends.\<close>

definition mk_MySQLResultImpl ::
  "'r res_lib \<Rightarrow> 'r option \<Rightarrow> 64 word \<Rightarrow> 64 word \<Rightarrow> mysql_impl option" where
  "mk_MySQLResultImpl lib res aff ins =
     (let n = (case res of None \<Rightarrow> 0 | Some r \<Rightarrow> num_rows lib r);
          fields = map_option (fetch_fields lib) res;
          m = (case res of None \<Rightarrow> 0 | Some r \<Rightarrow> ucast (num_fields lib r));
          base = \<lparr>rowsNumber = n, fieldArray = fields, fieldsNumber = m, affected = aff, inserted = ins,
                  fieldsMap = (if m > 0 then Some (field_map (case fields of None \<Rightarrow> [] | Some f \<Rightarrow> f) (unat m))
                               else None),
                  rowsPtr = None\<rparr>
      in if n > 0
         then map_option (\<lambda>rs. base\<lparr>rowsPtr := Some rs\<rparr>)
                (case res of None \<Rightarrow> Some [] | Some r \<Rightarrow> fetch_rows lib r [])
         else Some base)"

definition impl_size :: "mysql_impl \<Rightarrow> 64 word" where
  "impl_size x = rowsNumber x"

definition impl_columns :: "mysql_impl \<Rightarrow> 64 word" where
  "impl_columns x = fieldsNumber x"

definition impl_columnName :: "mysql_impl \<Rightarrow> 64 word \<Rightarrow> fault + string" where
  "impl_columnName x n =
     (if \<not> n < fieldsNumber x then Inl AssertFail
      else (case fieldArray x of Some f \<Rightarrow> Inr (f ! unat n) | None \<Rightarrow> Inr []))"

definition impl_affectedRows :: "mysql_impl \<Rightarrow> 64 word" where
  "impl_affectedRows x = affected x"

definition impl_columnNumber :: "mysql_impl \<Rightarrow> string \<Rightarrow> fault + 64 word" where
  "impl_columnNumber x col =
     (case fieldsMap x of
        None \<Rightarrow> Inr (-1)
      | Some m \<Rightarrow>
          (case m (map lower_char col) of
             Some n \<Rightarrow> Inr n
           | None \<Rightarrow> Inl (Throw (mk_exn RangeError (''no column named '' @ col)))))"

text \<open>The element of row and column of \<^verbatim>\<open>*rowsPtr_\<close>; an index beyond the vector is a read outside it.\<close>

definition impl_at :: "(cell list \<times> 64 word list \<Rightarrow> 'a list) \<Rightarrow> mysql_impl \<Rightarrow> 64 word \<Rightarrow> 64 word \<Rightarrow> fault + 'a" where
  "impl_at f x r c =
     (case rowsPtr x of
        None \<Rightarrow> Inl NullDeref
      | Some rs \<Rightarrow>
          if unat r < length rs \<and> unat c < length (f (rs ! unat r)) then Inr (f (rs ! unat r) ! unat c)
          else Inl OutOfBounds)"

definition impl_getValue :: "mysql_impl \<Rightarrow> 64 word \<Rightarrow> 64 word \<Rightarrow> fault + cell" where
  "impl_getValue x r c =
     (if rowsNumber x = 0 \<or> fieldsNumber x = 0 then Inr None
      else if \<not> r < rowsNumber x then Inl AssertFail
      else if \<not> c < fieldsNumber x then Inl AssertFail
      else impl_at fst x r c)"

definition impl_isNull :: "mysql_impl \<Rightarrow> 64 word \<Rightarrow> 64 word \<Rightarrow> fault + bool" where
  "impl_isNull x r c = obind (impl_getValue x r c) (\<lambda>v. Inr (v = None))"

definition impl_getLength :: "mysql_impl \<Rightarrow> 64 word \<Rightarrow> 64 word \<Rightarrow> fault + 64 word" where
  "impl_getLength x r c =
     (if rowsNumber x = 0 \<or> fieldsNumber x = 0 then Inr 0
      else if \<not> r < rowsNumber x then Inl AssertFail
      else if \<not> c < fieldsNumber x then Inl AssertFail
      else impl_at snd x r c)"

definition impl_insertId :: "mysql_impl \<Rightarrow> 64 word" where
  "impl_insertId x = inserted x"

section \<open>ResultImpl and Result\<close>

text \<open>The table of virtual functions; \<open>v_insertId\<close> and \<open>v_oid\<close> have a default in the base class.\<close>

record 'i result_vt =
  v_size :: "'i \<Rightarrow> 64 word"
  v_columns :: "'i \<Rightarrow> 64 word"
  v_columnName :: "'i \<Rightarrow> 64 word \<Rightarrow> fault + string"
  v_affectedRows :: "'i \<Rightarrow> 64 word"
  v_columnNumber :: "'i \<Rightarrow> string \<Rightarrow> fault + 64 word"
  v_getValue :: "'i \<Rightarrow> 64 word \<Rightarrow> 64 word \<Rightarrow> fault + cell"
  v_isNull :: "'i \<Rightarrow> 64 word \<Rightarrow> 64 word \<Rightarrow> fault + bool"
  v_getLength :: "'i \<Rightarrow> 64 word \<Rightarrow> 64 word \<Rightarrow> fault + 64 word"
  v_insertId :: "'i \<Rightarrow> 64 word"
  v_oid :: "'i \<Rightarrow> 64 word \<Rightarrow> 32 word"

definition base_insertId :: "'i \<Rightarrow> 64 word" where
  "base_insertId x = 0"

definition base_oid :: "'i \<Rightarrow> 64 word \<Rightarrow> 32 word" where
  "base_oid x c = 0"

definition mysql_vt :: "mysql_impl result_vt" where
  "mysql_vt =
     \<lparr>v_size = impl_size, v_columns = impl_columns, v_columnName = impl_columnName,
      v_affectedRows = impl_affectedRows, v_columnNumber = impl_columnNumber,
      v_getValue = impl_getValue, v_isNull = impl_isNull, v_getLength = impl_getLength,
      v_insertId = impl_insertId, v_oid = base_oid\<rparr>"

record 'i result =
  vt :: "'i result_vt"
  impl :: 'i

text \<open>\<^verbatim>\<open>makeResult\<close>, by which the connection wraps a result of the library.\<close>

definition makeResult :: "'r res_lib \<Rightarrow> 'r option \<Rightarrow> 64 word \<Rightarrow> 64 word \<Rightarrow> mysql_impl result option" where
  "makeResult lib res aff ins = map_option (\<lambda>x. \<lparr>vt = mysql_vt, impl = x\<rparr>) (mk_MySQLResultImpl lib res aff ins)"

definition Result_size :: "'i result \<Rightarrow> 64 word" where
  "Result_size r = v_size (vt r) (impl r)"

definition Result_capacity :: "'i result \<Rightarrow> 64 word" where
  "Result_capacity r = Result_size r"

definition Result_empty :: "'i result \<Rightarrow> bool" where
  "Result_empty r \<longleftrightarrow> Result_size r = 0"

definition Result_columns :: "'i result \<Rightarrow> 64 word" where
  "Result_columns r = v_columns (vt r) (impl r)"

definition Result_columnName :: "'i result \<Rightarrow> 64 word \<Rightarrow> fault + string" where
  "Result_columnName r n = v_columnName (vt r) (impl r) n"

definition Result_affectedRows :: "'i result \<Rightarrow> 64 word" where
  "Result_affectedRows r = v_affectedRows (vt r) (impl r)"

definition Result_columnNumber :: "'i result \<Rightarrow> string \<Rightarrow> fault + 64 word" where
  "Result_columnNumber r col = v_columnNumber (vt r) (impl r) col"

definition Result_getValue :: "'i result \<Rightarrow> 64 word \<Rightarrow> 64 word \<Rightarrow> fault + cell" where
  "Result_getValue r row col = v_getValue (vt r) (impl r) row col"

definition Result_isNull :: "'i result \<Rightarrow> 64 word \<Rightarrow> 64 word \<Rightarrow> fault + bool" where
  "Result_isNull r row col = v_isNull (vt r) (impl r) row col"

definition Result_getLength :: "'i result \<Rightarrow> 64 word \<Rightarrow> 64 word \<Rightarrow> fault + 64 word" where
  "Result_getLength r row col = v_getLength (vt r) (impl r) row col"

definition Result_insertId :: "'i result \<Rightarrow> 64 word" where
  "Result_insertId r = v_insertId (vt r) (impl r)"

definition Result_oid :: "'i result \<Rightarrow> 64 word \<Rightarrow> 32 word" where
  "Result_oid r col = v_oid (vt r) (impl r) col"

definition Result_swap :: "'i result \<Rightarrow> 'i result \<Rightarrow> 'i result \<times> 'i result" where
  "Result_swap r other = (other, r)"

section \<open>Rows\<close>

record 'i row =
  row_result :: "'i result"
  row_index :: "64 word"
  row_end :: "64 word"

definition mk_Row :: "'i result \<Rightarrow> 64 word \<Rightarrow> 'i row" where
  "mk_Row r index = \<lparr>row_result = r, row_index = index, row_end = Result_columns r\<rparr>"

definition Result_front :: "'i result \<Rightarrow> 'i row" where
  "Result_front r = mk_Row r 0"

definition Result_back :: "'i result \<Rightarrow> 'i row" where
  "Result_back r = mk_Row r (Result_size r - 1)"

definition Result_index :: "'i result \<Rightarrow> 64 word \<Rightarrow> fault + 'i row" where
  "Result_index r index = (if \<not> index < Result_size r then Inl AssertFail else Inr (mk_Row r index))"

definition Result_at :: "'i result \<Rightarrow> 64 word \<Rightarrow> fault + 'i row" where
  "Result_at r index =
     (if index \<ge> Result_size r then Inl (Throw (mk_exn RangeError ''Result index is out of range''))
      else Result_index r index)"

definition Row_size :: "'i row \<Rightarrow> 64 word" where
  "Row_size w = row_end w"

section \<open>Fields\<close>

record 'i field =
  field_row :: "64 word"
  field_column :: "64 word"
  field_result :: "'i result"

definition mk_Field :: "'i row \<Rightarrow> 64 word \<Rightarrow> 'i field" where
  "mk_Field w columnNum = \<lparr>field_row = row_index w, field_column = columnNum, field_result = row_result w\<rparr>"

definition Row_index :: "'i row \<Rightarrow> 64 word \<Rightarrow> fault + 'i field" where
  "Row_index w index = (if \<not> index < row_end w then Inl AssertFail else Inr (mk_Field w index))"

definition Row_index_int :: "'i row \<Rightarrow> 32 word \<Rightarrow> fault + 'i field" where
  "Row_index_int w index =
     (if sint index < 0 then Inl AssertFail
      else let i = scast index in if \<not> i < row_end w then Inl AssertFail else Inr (mk_Field w i))"

definition Row_named :: "'i row \<Rightarrow> string \<Rightarrow> fault + 'i field" where
  "Row_named w columnName = obind (Result_columnNumber (row_result w) columnName) (\<lambda>n. Inr (mk_Field w n))"

definition Row_at :: "'i row \<Rightarrow> 64 word \<Rightarrow> fault + 'i field" where
  "Row_at w index =
     (if index \<ge> row_end w then Inl (Throw (mk_exn RangeError ''Row index is out of range''))
      else Inr (mk_Field w index))"

definition Row_at_named :: "'i row \<Rightarrow> string \<Rightarrow> fault + 'i field" where
  "Row_at_named w columnName = obind (Result_columnNumber (row_result w) columnName) (\<lambda>n. Inr (mk_Field w n))"

definition Field_name :: "'i field \<Rightarrow> fault + string" where
  "Field_name f = Result_columnName (field_result f) (field_column f)"

definition Field_isNull :: "'i field \<Rightarrow> fault + bool" where
  "Field_isNull f = Result_isNull (field_result f) (field_row f) (field_column f)"

definition Field_value :: "'i field \<Rightarrow> fault + cell" where
  "Field_value f = Result_getValue (field_result f) (field_row f) (field_column f)"

definition Field_length :: "'i field \<Rightarrow> fault + 64 word" where
  "Field_length f = Result_getLength (field_result f) (field_row f) (field_column f)"

text \<open>The bytes from a pointer on, as many as a length says.\<close>

definition bytes :: "cell \<Rightarrow> 64 word \<Rightarrow> fault + string" where
  "bytes p n =
     (case p of
        None \<Rightarrow> if n = 0 then Inr [] else Inl NullDeref
      | Some z \<Rightarrow> if unat n \<le> length z then Inr (take (unat n) z) else Inl OutOfBounds)"

text \<open>\<^verbatim>\<open>as<std::string>\<close> and \<^verbatim>\<open>as<std::vector<char>>\<close>; 17 is the type \<^verbatim>\<open>bytea\<close> of PostgreSQL.\<close>

definition hex_field :: "(string \<Rightarrow> fault + string) \<Rightarrow> string \<Rightarrow> fault + string" where
  "hex_field conv sv =
     (if length sv < 2 \<or> sv ! 0 \<noteq> CHR 0x5C \<or> sv ! 1 \<noteq> CHR ''x'' then Inr [] else conv (drop 2 sv))"

definition Field_as_bytes :: "(string \<Rightarrow> fault + string) \<Rightarrow> 'i field \<Rightarrow> fault + string" where
  "Field_as_bytes conv f =
     obind (Field_value f) (\<lambda>data. obind (Field_length f) (\<lambda>len. obind (bytes data len) (\<lambda>sv.
       if Result_oid (field_result f) (field_column f) \<noteq> 17 then Inr sv else hex_field conv sv)))"

definition Field_as_string :: "'i field \<Rightarrow> fault + string" where
  "Field_as_string f = Field_as_bytes hexToBinaryString f"

definition Field_as_vector :: "'i field \<Rightarrow> fault + char list" where
  "Field_as_vector f = Field_as_bytes hexToBinaryVector f"

definition Field_as_string_view :: "'i field \<Rightarrow> fault + cell \<times> 64 word" where
  "Field_as_string_view f = obind (Field_value f) (\<lambda>p. obind (Field_length f) (\<lambda>n. Inr (p, n)))"

definition Field_c_str :: "'i field \<Rightarrow> fault + cell" where
  "Field_c_str f = Field_value f"

definition Field_as_bool :: "'i field \<Rightarrow> fault + bool" where
  "Field_as_bool f =
     obind (Field_length f) (\<lambda>n.
       if n \<noteq> 1 then Inr False
       else obind (Field_value f) (\<lambda>p.
         case p of
           None \<Rightarrow> Inl NullDeref
         | Some [] \<Rightarrow> Inr False
         | Some (c # _) \<Rightarrow> Inr (c = CHR ''t'' \<or> c = CHR ''1'')))"

text \<open>The numeric conversions: a default for a null field, else a reader on the C string.\<close>

definition cstr :: "string \<Rightarrow> string" where
  "cstr z = takeWhile (\<lambda>c. c \<noteq> CHR 0x00) z"

definition or_null :: "'v \<Rightarrow> (string \<Rightarrow> fault + 'v) \<Rightarrow> 'i field \<Rightarrow> fault + 'v" where
  "or_null dflt reader f =
     obind (Field_isNull f) (\<lambda>b.
       if b then Inr dflt
       else obind (Field_value f) (\<lambda>p. case p of None \<Rightarrow> Inl NullDeref | Some z \<Rightarrow> reader (cstr z)))"

definition Field_as_int :: "'i field \<Rightarrow> fault + 32 word" where
  "Field_as_int f = or_null 0 stoi f"

definition Field_as_long :: "'i field \<Rightarrow> fault + 64 word" where
  "Field_as_long f = or_null 0 stol f"

definition Field_as_int8 :: "'i field \<Rightarrow> fault + 8 word" where
  "Field_as_int8 f = or_null 0 (\<lambda>z. Inr (ucast (atoi z))) f"

definition Field_as_long_long :: "'i field \<Rightarrow> fault + 64 word" where
  "Field_as_long_long f = or_null 0 (\<lambda>z. Inr (word_of_int (atol z))) f"

definition Field_as_uint :: "'i field \<Rightarrow> fault + 32 word" where
  "Field_as_uint f = or_null 0 (\<lambda>z. obind (stoul z) (\<lambda>n. Inr (ucast n))) f"

definition Field_as_ulong :: "'i field \<Rightarrow> fault + 64 word" where
  "Field_as_ulong f = or_null 0 stoul f"

definition Field_as_uint8 :: "'i field \<Rightarrow> fault + 8 word" where
  "Field_as_uint8 f = or_null 0 (\<lambda>z. Inr (ucast (atoi z))) f"

definition Field_as_ulong_long :: "'i field \<Rightarrow> fault + 64 word" where
  "Field_as_ulong_long f = or_null 0 stoull f"

text \<open>The template for any other type, where \<open>extract\<close> is the \<^verbatim>\<open>operator>>\<close> of that type.\<close>

definition Field_as :: "(string \<Rightarrow> 'v) \<Rightarrow> 'v \<Rightarrow> 'i field \<Rightarrow> fault + 'v" where
  "Field_as extract dflt f =
     obind (Field_isNull f) (\<lambda>b.
       if b then Inr dflt
       else obind (Field_value f) (\<lambda>p. Inr (case p of None \<Rightarrow> dflt | Some z \<Rightarrow> extract (cstr z))))"

definition getArrayParser :: "'i field \<Rightarrow> fault + array_parser" where
  "getArrayParser f = obind (Field_value f) (\<lambda>p. Inr (mk_ArrayParser (map_option cstr p)))"

definition Field_asArray :: "(string \<Rightarrow> 'v) \<Rightarrow> 'i field \<Rightarrow> fault + 'v option list" where
  "Field_asArray extract f = obind (getArrayParser f) (asArray extract)"

section \<open>Iterators over rows\<close>

text \<open>
  \<^verbatim>\<open>ConstResultIterator\<close> is a row whose index moves; dereferencing it gives the row.  The
  comparisons are those of the signed index.
\<close>

definition rit_deref :: "'i row \<Rightarrow> 'i row" where
  "rit_deref it = it"

definition rit_inc :: "'i row \<Rightarrow> 'i row" where
  "rit_inc it = it\<lparr>row_index := row_index it + 1\<rparr>"

definition rit_dec :: "'i row \<Rightarrow> 'i row" where
  "rit_dec it = it\<lparr>row_index := row_index it - 1\<rparr>"

definition rit_post_inc :: "'i row \<Rightarrow> 'i row \<times> 'i row" where
  "rit_post_inc it = (it, it\<lparr>row_index := row_index it + 1\<rparr>)"

definition rit_post_dec :: "'i row \<Rightarrow> 'i row \<times> 'i row" where
  "rit_post_dec it = (it, it\<lparr>row_index := row_index it - 1\<rparr>)"

definition rit_add :: "'i row \<Rightarrow> 64 word \<Rightarrow> 'i row" where
  "rit_add it i = it\<lparr>row_index := row_index it + i\<rparr>"

definition rit_sub :: "'i row \<Rightarrow> 64 word \<Rightarrow> 'i row" where
  "rit_sub it i = it\<lparr>row_index := row_index it - i\<rparr>"

definition rit_eq :: "'i row \<Rightarrow> 'i row \<Rightarrow> bool" where
  "rit_eq it other \<longleftrightarrow> row_index it = row_index other"

definition rit_less :: "'i row \<Rightarrow> 'i row \<Rightarrow> bool" where
  "rit_less it other \<longleftrightarrow> sint (row_index it) < sint (row_index other)"

definition rit_leq :: "'i row \<Rightarrow> 'i row \<Rightarrow> bool" where
  "rit_leq it other \<longleftrightarrow> sint (row_index it) \<le> sint (row_index other)"

definition Result_begin :: "'i result \<Rightarrow> 'i row" where
  "Result_begin r = mk_Row r 0"

definition Result_end :: "'i result \<Rightarrow> 'i row" where
  "Result_end r = mk_Row r (Result_size r)"

text \<open>\<^verbatim>\<open>ConstReverseResultIterator\<close>: an iterator one step behind the one it is made from, that moves
  the other way.\<close>

definition rrit_make :: "'i row \<Rightarrow> 'i row" where
  "rrit_make it = rit_dec it"

definition rrit_base :: "'i row \<Rightarrow> 'i row" where
  "rrit_base it = rit_inc it"

definition rrit_inc :: "'i row \<Rightarrow> 'i row" where
  "rrit_inc it = rit_dec it"

definition rrit_dec :: "'i row \<Rightarrow> 'i row" where
  "rrit_dec it = rit_inc it"

definition rrit_post_inc :: "'i row \<Rightarrow> 'i row \<times> 'i row" where
  "rrit_post_inc it = (it, rit_dec it)"

definition rrit_post_dec :: "'i row \<Rightarrow> 'i row \<times> 'i row" where
  "rrit_post_dec it = (it, rit_inc it)"

definition rrit_add :: "'i row \<Rightarrow> 64 word \<Rightarrow> 'i row" where
  "rrit_add it i = rit_sub it i"

definition rrit_sub :: "'i row \<Rightarrow> 64 word \<Rightarrow> 'i row" where
  "rrit_sub it i = rit_add it i"

definition rrit_eq :: "'i row \<Rightarrow> 'i row \<Rightarrow> bool" where
  "rrit_eq it other \<longleftrightarrow> row_index it = row_index other"

definition rrit_less :: "'i row \<Rightarrow> 'i row \<Rightarrow> bool" where
  "rrit_less it other \<longleftrightarrow> sint (row_index it) > sint (row_index other)"

definition Result_rbegin :: "'i result \<Rightarrow> 'i row" where
  "Result_rbegin r = rrit_make (Result_end r)"

definition Result_rend :: "'i result \<Rightarrow> 'i row" where
  "Result_rend r = rrit_make (Result_begin r)"

section \<open>Iterators over fields\<close>

definition fit_deref :: "'i field \<Rightarrow> 'i field" where
  "fit_deref it = it"

definition fit_inc :: "'i field \<Rightarrow> 'i field" where
  "fit_inc it = it\<lparr>field_column := field_column it + 1\<rparr>"

definition fit_dec :: "'i field \<Rightarrow> 'i field" where
  "fit_dec it = it\<lparr>field_column := field_column it - 1\<rparr>"

definition fit_post_inc :: "'i field \<Rightarrow> 'i field \<times> 'i field" where
  "fit_post_inc it = (it, it\<lparr>field_column := field_column it + 1\<rparr>)"

definition fit_post_dec :: "'i field \<Rightarrow> 'i field \<times> 'i field" where
  "fit_post_dec it = (it, it\<lparr>field_column := field_column it - 1\<rparr>)"

definition fit_add :: "'i field \<Rightarrow> 64 word \<Rightarrow> 'i field" where
  "fit_add it i = it\<lparr>field_column := field_column it + i\<rparr>"

definition fit_sub :: "'i field \<Rightarrow> 64 word \<Rightarrow> 'i field" where
  "fit_sub it i = it\<lparr>field_column := field_column it - i\<rparr>"

definition fit_eq :: "'i field \<Rightarrow> 'i field \<Rightarrow> bool" where
  "fit_eq it other \<longleftrightarrow> field_column it = field_column other"

definition fit_less :: "'i field \<Rightarrow> 'i field \<Rightarrow> bool" where
  "fit_less it other \<longleftrightarrow> sint (field_column it) < sint (field_column other)"

definition Row_begin :: "'i row \<Rightarrow> 'i field" where
  "Row_begin w = mk_Field w 0"

definition Row_end :: "'i row \<Rightarrow> 'i field" where
  "Row_end w = mk_Field w (Row_size w)"

definition rfit_make :: "'i field \<Rightarrow> 'i field" where
  "rfit_make it = fit_dec it"

definition rfit_base :: "'i field \<Rightarrow> 'i field" where
  "rfit_base it = fit_inc it"

definition rfit_inc :: "'i field \<Rightarrow> 'i field" where
  "rfit_inc it = fit_dec it"

definition rfit_dec :: "'i field \<Rightarrow> 'i field" where
  "rfit_dec it = fit_inc it"

definition rfit_post_inc :: "'i field \<Rightarrow> 'i field \<times> 'i field" where
  "rfit_post_inc it = (it, fit_dec it)"

definition rfit_post_dec :: "'i field \<Rightarrow> 'i field \<times> 'i field" where
  "rfit_post_dec it = (it, fit_inc it)"

definition rfit_add :: "'i field \<Rightarrow> 64 word \<Rightarrow> 'i field" where
  "rfit_add it i = fit_sub it i"

definition rfit_sub :: "'i field \<Rightarrow> 64 word \<Rightarrow> 'i field" where
  "rfit_sub it i = fit_add it i"

definition rfit_eq :: "'i field \<Rightarrow> 'i field \<Rightarrow> bool" where
  "rfit_eq it other \<longleftrightarrow> field_column it = field_column other"

definition rfit_less :: "'i field \<Rightarrow> 'i field \<Rightarrow> bool" where
  "rfit_less it other \<longleftrightarrow> sint (field_column it) > sint (field_column other)"

definition Row_rbegin :: "'i row \<Rightarrow> 'i field" where
  "Row_rbegin w = rfit_make (Row_end w)"

definition Row_rend :: "'i row \<Rightarrow> 'i field" where
  "Row_rend w = rfit_make (Row_begin w)"

section \<open>Loops over a range\<close>

text \<open>
  \<^verbatim>\<open>for (it = first; it != stop; ++it)\<close>, which collects what it visits.  The loop may run for
  ever: then it has no value.
\<close>

partial_function (option) visit :: "('a \<Rightarrow> 'a) \<Rightarrow> ('a \<Rightarrow> 'a \<Rightarrow> bool) \<Rightarrow> 'a \<Rightarrow> 'a \<Rightarrow> 'a list \<Rightarrow> 'a list option" where
  "visit nxt eq it stop acc = (if eq it stop then Some acc else visit nxt eq (nxt it) stop (acc @ [it]))"

text \<open>An iterator that counts up, and one that counts down: what a step and a comparison do to the
  position.\<close>

locale iterator_up =
  fixes at :: "64 word \<Rightarrow> 'a" and nxt :: "'a \<Rightarrow> 'a" and eq :: "'a \<Rightarrow> 'a \<Rightarrow> bool"
  assumes nxt_at: "nxt (at w) = at (w + 1)" and eq_at: "eq (at v) (at w) \<longleftrightarrow> v = w"
begin

lemma visit_up:
  "i \<le> n \<Longrightarrow> n < 2 ^ 64 \<Longrightarrow>
     visit nxt eq (at (of_nat i)) (at (of_nat n)) acc = Some (acc @ map (\<lambda>j. at (of_nat j)) [i..<n])"
proof (induction "n - i" arbitrary: i acc)
  case 0
  then show ?case by (subst visit.simps) (simp add: eq_at)
next
  case (Suc k)
  have "of_nat i \<noteq> (of_nat n :: 64 word)"
    using Suc.hyps(2) Suc.prems by (auto simp: of_nat_eq_iff word_of_nat_eq_iff take_bit_nat_eq_self)
  moreover have "visit nxt eq (at (of_nat (Suc i))) (at (of_nat n)) (acc @ [at (of_nat i)]) =
      Some ((acc @ [at (of_nat i)]) @ map (\<lambda>j. at (of_nat j)) [Suc i..<n])"
    using Suc by (intro Suc.hyps) auto
  ultimately show ?case
    using Suc.hyps(2) upt_conv_Cons [of i n]
    by (subst visit.simps) (simp add: eq_at nxt_at add.commute)
qed

end

locale iterator_down =
  fixes at :: "64 word \<Rightarrow> 'a" and nxt :: "'a \<Rightarrow> 'a" and eq :: "'a \<Rightarrow> 'a \<Rightarrow> bool"
  assumes nxt_at: "nxt (at w) = at (w - 1)" and eq_at: "eq (at v) (at w) \<longleftrightarrow> v = w"
begin

lemma visit_down:
  "n < 2 ^ 64 \<Longrightarrow>
     visit nxt eq (at (of_nat n - 1)) (at (0 - 1)) acc = Some (acc @ map (\<lambda>j. at (of_nat j)) (rev [0..<n]))"
proof (induction n arbitrary: acc)
  case 0
  then show ?case by (subst visit.simps) (simp add: eq_at)
next
  case (Suc n)
  have "of_nat (Suc n) - 1 = (of_nat n :: 64 word)" by simp
  moreover have "of_nat n \<noteq> (0 - 1 :: 64 word)"
  proof
    assume "of_nat n = (0 - 1 :: 64 word)"
    then have "of_nat (Suc n) = (0 :: 64 word)" by simp
    with Suc.prems show False by (simp only: word_of_nat_eq_0_iff) (auto dest: dvd_imp_le)
  qed
  ultimately show ?case using Suc.IH [of "acc @ [at (of_nat n)]"] Suc.prems
    by (subst visit.simps) (simp add: eq_at nxt_at)
qed

end

text \<open>The four iterators of the code.\<close>

interpretation row_up: iterator_up "mk_Row r" rit_inc rit_eq for r :: "'i result"
  by unfold_locales (simp_all add: mk_Row_def rit_inc_def rit_eq_def)

interpretation row_down: iterator_down "mk_Row r" rrit_inc rrit_eq for r :: "'i result"
  by unfold_locales (simp_all add: mk_Row_def rit_dec_def rrit_inc_def rrit_eq_def)

interpretation field_up: iterator_up "mk_Field w" fit_inc fit_eq for w :: "'i row"
  by unfold_locales (simp_all add: mk_Field_def fit_inc_def fit_eq_def)

interpretation field_down: iterator_down "mk_Field w" rfit_inc rfit_eq for w :: "'i row"
  by unfold_locales (simp_all add: mk_Field_def fit_dec_def rfit_inc_def rfit_eq_def)

definition all_rows :: "'i result \<Rightarrow> 'i row list option" where
  "all_rows r = visit rit_inc rit_eq (Result_begin r) (Result_end r) []"

definition all_fields :: "'i row \<Rightarrow> 'i field list option" where
  "all_fields w = visit fit_inc fit_eq (Row_begin w) (Row_end w) []"

lemma all_rows_eq: "all_rows r = Some (map (\<lambda>i. mk_Row r (of_nat i)) [0..<unat (Result_size r)])"
  using row_up.visit_up [of 0 "unat (Result_size r)" r "[]"] unsigned_less [of "Result_size r"]
  by (simp add: all_rows_def Result_begin_def Result_end_def)

lemma all_fields_eq: "all_fields w = Some (map (\<lambda>i. mk_Field w (of_nat i)) [0..<unat (row_end w)])"
  using field_up.visit_up [of 0 "unat (row_end w)" w "[]"] unsigned_less [of "row_end w"]
  by (simp add: all_fields_def Row_begin_def Row_end_def Row_size_def)

text \<open>
  C27: a range loop over the rows of a result, or over the fields of a row, ends, for every size;
  it visits the elements in order, and the loop over the reverse iterators visits the same
  elements in the opposite order, down to the first one, although its end is position $-1$.
\<close>

theorem iteration_orders:
  "all_rows r = Some (map (\<lambda>i. mk_Row r (of_nat i)) [0..<unat (Result_size r)]) \<and>
   visit rrit_inc rrit_eq (Result_rbegin r) (Result_rend r) [] =
     Some (map (\<lambda>i. mk_Row r (of_nat i)) (rev [0..<unat (Result_size r)])) \<and>
   all_fields w = Some (map (\<lambda>i. mk_Field w (of_nat i)) [0..<unat (row_end w)]) \<and>
   visit rfit_inc rfit_eq (Row_rbegin w) (Row_rend w) [] =
     Some (map (\<lambda>i. mk_Field w (of_nat i)) (rev [0..<unat (row_end w)]))"
proof (intro conjI all_rows_eq all_fields_eq)
  have rb: "Result_rbegin r = mk_Row r (of_nat (unat (Result_size r)) - 1)" "Result_rend r = mk_Row r (0 - 1)"
    by (simp_all add: Result_rbegin_def Result_rend_def Result_begin_def Result_end_def rrit_make_def
        rit_dec_def mk_Row_def)
  show "visit rrit_inc rrit_eq (Result_rbegin r) (Result_rend r) [] =
      Some (map (\<lambda>i. mk_Row r (of_nat i)) (rev [0..<unat (Result_size r)]))"
    unfolding rb using row_down.visit_down [of "unat (Result_size r)" r "[]"] unsigned_less [of "Result_size r"]
    by simp
  have fb: "Row_rbegin w = mk_Field w (of_nat (unat (row_end w)) - 1)" "Row_rend w = mk_Field w (0 - 1)"
    by (simp_all add: Row_rbegin_def Row_rend_def Row_begin_def Row_end_def rfit_make_def
        fit_dec_def mk_Field_def Row_size_def)
  show "visit rfit_inc rfit_eq (Row_rbegin w) (Row_rend w) [] =
      Some (map (\<lambda>i. mk_Field w (of_nat i)) (rev [0..<unat (row_end w)]))"
    unfolding fb using field_down.visit_down [of "unat (row_end w)" w "[]"] unsigned_less [of "row_end w"]
    by simp
qed

section \<open>The contract of an implementation of results\<close>

definition cell_text :: "cell \<Rightarrow> string" where
  "cell_text x = (case x of None \<Rightarrow> [] | Some z \<Rightarrow> z)"

fun all_of :: "('a \<Rightarrow> 'e + 'b) \<Rightarrow> 'a list \<Rightarrow> 'e + 'b list" where
  "all_of f [] = Inr []"
| "all_of f (x # xs) = obind (f x) (\<lambda>y. obind (all_of f xs) (\<lambda>ys. Inr (y # ys)))"

lemma all_of_map:
  "(\<And>j. j \<in> set js \<Longrightarrow> h (f j) = Inr (g j)) \<Longrightarrow> all_of h (map f js) = Inr (map g js)"
  by (induction js) simp_all

text \<open>A client that reads a row, or all rows, as strings.\<close>

definition read_row :: "'i row \<Rightarrow> fault + string list" where
  "read_row w = (case all_fields w of None \<Rightarrow> Inl NotReturned | Some fs \<Rightarrow> all_of Field_as_string fs)"

definition read_table :: "'i result \<Rightarrow> fault + string list list" where
  "read_table r = (case all_rows r of None \<Rightarrow> Inl NotReturned | Some ws \<Rightarrow> all_of read_row ws)"

definition field_at :: "'i result \<Rightarrow> nat \<Rightarrow> nat \<Rightarrow> 'i field" where
  "field_at r i j = mk_Field (mk_Row r (of_nat i)) (of_nat j)"

locale result_source =
  fixes V :: "'i result_vt" and good :: "'i \<Rightarrow> bool" and cols :: "'i \<Rightarrow> string list"
    and table :: "'i \<Rightarrow> cell list list"
  assumes size: "good x \<Longrightarrow> v_size V x = of_nat (length (table x)) \<and> length (table x) < 2 ^ 64"
    and columns: "good x \<Longrightarrow> v_columns V x = of_nat (length (cols x)) \<and> length (cols x) < 2 ^ 64"
    and width: "good x \<Longrightarrow> i < length (table x) \<Longrightarrow> length (table x ! i) = length (cols x)"
    and fits: "good x \<Longrightarrow> i < length (table x) \<Longrightarrow> j < length (cols x) \<Longrightarrow> table x ! i ! j = Some z \<Longrightarrow>
               length z < 2 ^ 64"
    and val: "good x \<Longrightarrow> i < length (table x) \<Longrightarrow> j < length (cols x) \<Longrightarrow>
                v_getValue V x (of_nat i) (of_nat j) = Inr (table x ! i ! j)"
    and null: "good x \<Longrightarrow> i < length (table x) \<Longrightarrow> j < length (cols x) \<Longrightarrow>
               v_isNull V x (of_nat i) (of_nat j) = Inr (table x ! i ! j = None)"
    and len: "good x \<Longrightarrow> i < length (table x) \<Longrightarrow> j < length (cols x) \<Longrightarrow>
              v_getLength V x (of_nat i) (of_nat j) = Inr (cell_length (table x ! i ! j))"
    and oid: "good x \<Longrightarrow> v_oid V x c \<noteq> 17"
begin

lemmas field_defs = field_at_def mk_Field_def mk_Row_def Field_value_def Field_isNull_def Field_length_def
  Result_getValue_def Result_isNull_def Result_getLength_def Result_oid_def

lemma field_string:
  assumes "good x" and "i < length (table x)" and "j < length (cols x)"
  shows "Field_as_string (field_at \<lparr>vt = V, impl = x\<rparr> i j) = Inr (cell_text (table x ! i ! j))"
  using fits [OF assms] val [OF assms] len [OF assms] oid [OF assms(1)]
  by (cases "table x ! i ! j")
    (simp_all add: Field_as_string_def Field_as_bytes_def field_defs bytes_def cell_length_def cell_text_def
      unat_of_nat take_bit_nat_eq_self)

lemma read_row_at:
  assumes "good x" and "i < length (table x)"
  shows "read_row (mk_Row \<lparr>vt = V, impl = x\<rparr> (of_nat i)) = Inr (map cell_text (table x ! i))"
proof -
  let ?w = "mk_Row \<lparr>vt = V, impl = x\<rparr> (of_nat i)"
  have n: "unat (row_end ?w) = length (cols x)"
    using columns [OF assms(1)]
    by (simp add: mk_Row_def Result_columns_def unat_of_nat take_bit_nat_eq_self)
  have "all_of Field_as_string (map (\<lambda>j. mk_Field ?w (of_nat j)) [0..<length (cols x)]) =
      Inr (map (\<lambda>j. cell_text (table x ! i ! j)) [0..<length (cols x)])"
    by (rule all_of_map) (use field_string [OF assms] in \<open>simp add: field_at_def\<close>)
  moreover have "map (\<lambda>j. cell_text (table x ! i ! j)) [0..<length (cols x)] = map cell_text (table x ! i)"
    using width [OF assms] by (intro nth_equalityI) simp_all
  ultimately show ?thesis by (simp add: read_row_def all_fields_eq n)
qed

lemma read_all:
  assumes "good x"
  shows "read_table \<lparr>vt = V, impl = x\<rparr> = Inr (map (map cell_text) (table x))"
proof -
  let ?r = "\<lparr>vt = V, impl = x\<rparr>"
  have n: "unat (Result_size ?r) = length (table x)"
    using size [OF assms] by (simp add: Result_size_def unat_of_nat take_bit_nat_eq_self)
  have "all_of read_row (map (\<lambda>i. mk_Row ?r (of_nat i)) [0..<length (table x)]) =
      Inr (map (\<lambda>i. map cell_text (table x ! i)) [0..<length (table x)])"
    by (rule all_of_map) (use read_row_at [OF assms] in simp)
  moreover have "map (\<lambda>i. map cell_text (table x ! i)) [0..<length (table x)] = map (map cell_text) (table x)"
    by (intro nth_equalityI) simp_all
  ultimately show ?thesis by (simp add: read_table_def all_rows_eq n)
qed

lemma field_number:
  assumes "good x" and "i < length (table x)" and "j < length (cols x)"
  shows "or_null dflt reader (field_at \<lparr>vt = V, impl = x\<rparr> i j) =
    (case table x ! i ! j of None \<Rightarrow> Inr dflt | Some z \<Rightarrow> reader (cstr z))"
  using val [OF assms] null [OF assms]
  by (cases "table x ! i ! j") (simp_all add: or_null_def field_defs)

end

section \<open>MySQLResultImpl keeps the contract\<close>

definition impl_table :: "mysql_impl \<Rightarrow> cell list list" where
  "impl_table x = (case rowsPtr x of None \<Rightarrow> [] | Some rs \<Rightarrow> map fst rs)"

definition impl_cols :: "mysql_impl \<Rightarrow> string list" where
  "impl_cols x = (case fieldArray x of None \<Rightarrow> [] | Some f \<Rightarrow> f)"

definition wf_impl :: "mysql_impl \<Rightarrow> bool" where
  "wf_impl x \<longleftrightarrow>
     rowsNumber x = of_nat (length (impl_table x)) \<and> length (impl_table x) < 2 ^ 63 \<and>
     fieldsNumber x = of_nat (length (impl_cols x)) \<and> length (impl_cols x) < 2 ^ 32 \<and>
     list_all (\<lambda>(row, ls). length row = length (impl_cols x) \<and> ls = map cell_length row \<and> short_cells row)
       (case rowsPtr x of None \<Rightarrow> [] | Some rs \<Rightarrow> rs)"

lemma wf_implD:
  assumes "wf_impl x" and "i < length (impl_table x)"
  obtains rs where "rowsPtr x = Some rs" "impl_table x = map fst rs" "i < length rs"
    "length (fst (rs ! i)) = length (impl_cols x)" "snd (rs ! i) = map cell_length (fst (rs ! i))"
    "short_cells (fst (rs ! i))"
proof (cases "rowsPtr x")
  case None
  with assms(2) show ?thesis by (simp add: impl_table_def)
next
  case (Some rs)
  with assms have "i < length rs" "impl_table x = map fst rs" by (simp_all add: impl_table_def)
  moreover have "length (fst (rs ! i)) = length (impl_cols x) \<and>
      snd (rs ! i) = map cell_length (fst (rs ! i)) \<and> short_cells (fst (rs ! i))"
    using assms(1) Some \<open>i < length rs\<close>
    by (cases "rs ! i") (simp add: wf_impl_def list_all_length split: prod.splits)
  ultimately show ?thesis using Some that by blast
qed

lemma small_index:
  fixes n :: nat
  assumes "i < n" and "n < 2 ^ 64"
  shows "(of_nat i :: 64 word) < of_nat n" "unat (of_nat i :: 64 word) = i" "(of_nat n :: 64 word) \<noteq> 0"
  using assms by (auto simp: word_less_nat_alt unat_of_nat take_bit_nat_eq_self word_of_nat_eq_0_iff dest: dvd_imp_le)

interpretation mysql: result_source mysql_vt wf_impl impl_cols impl_table
proof unfold_locales
  fix x :: mysql_impl and i j :: nat and z :: string and c :: "64 word"
  assume wf: "wf_impl x"
  then show "v_size mysql_vt x = of_nat (length (impl_table x)) \<and> length (impl_table x) < 2 ^ 64"
    by (simp add: mysql_vt_def impl_size_def wf_impl_def)
  show "v_columns mysql_vt x = of_nat (length (impl_cols x)) \<and> length (impl_cols x) < 2 ^ 64"
    using wf by (simp add: mysql_vt_def impl_columns_def wf_impl_def)
  show "v_oid mysql_vt x c \<noteq> 17" by (simp add: mysql_vt_def base_oid_def)
  assume i: "i < length (impl_table x)"
  obtain rs where rs: "rowsPtr x = Some rs" "impl_table x = map fst rs" "i < length rs"
    "length (fst (rs ! i)) = length (impl_cols x)" "snd (rs ! i) = map cell_length (fst (rs ! i))"
    "short_cells (fst (rs ! i))"
    using wf_implD [OF wf i] by blast
  show "length (impl_table x ! i) = length (impl_cols x)" using rs by simp
  assume j: "j < length (impl_cols x)"
  have row: "length (impl_table x) < 2 ^ 64" "length (impl_cols x) < 2 ^ 64"
    "rowsNumber x = of_nat (length (impl_table x))" "fieldsNumber x = of_nat (length (impl_cols x))"
    using wf by (simp_all add: wf_impl_def)
  note small = small_index [OF i row(1)] small_index [OF j row(2)]
  have v: "impl_getValue x (of_nat i) (of_nat j) = Inr (impl_table x ! i ! j)"
    using small rs j by (simp add: impl_getValue_def row(3,4) impl_at_def)
  then show "v_getValue mysql_vt x (of_nat i) (of_nat j) = Inr (impl_table x ! i ! j)"
    by (simp add: mysql_vt_def)
  show "v_isNull mysql_vt x (of_nat i) (of_nat j) = Inr (impl_table x ! i ! j = None)"
    by (simp add: mysql_vt_def impl_isNull_def v)
  show "v_getLength mysql_vt x (of_nat i) (of_nat j) = Inr (cell_length (impl_table x ! i ! j))"
    using small rs j by (simp add: mysql_vt_def impl_getLength_def row(3,4) impl_at_def)
  assume "impl_table x ! i ! j = Some z"
  then show "length z < 2 ^ 64"
    using rs j by (auto simp: short_cells_def list_all_length split: option.splits)
qed

lemma cstr_to_string: "cstr (to_string i) = to_string i"
  using to_string_no_NUL [of i] by (auto simp: cstr_def takeWhile_eq_all_conv)

section \<open>From the library to the client\<close>

lemma fetch_rows_all:
  "serves lib r rows \<Longrightarrow>
     fetch_rows lib r acc = Some (acc @ map (\<lambda>row. (row, map cell_length row)) rows)"
proof (induction rows arbitrary: r acc)
  case Nil
  then show ?case by (subst fetch_rows.simps) (auto split: prod.splits)
next
  case (Cons row rows)
  then obtain r' where "fetch_row lib r = (Some row, r')" "fetch_lengths lib r' = map cell_length row"
      "serves lib r' rows"
    by (auto split: prod.splits option.splits)
  then show ?case using Cons.IH [of r' "acc @ [(row, map cell_length row)]"]
    by (subst fetch_rows.simps) simp
qed

lemma mk_impl_result:
  assumes "stored lib r names rows"
  shows "\<exists>x. mk_MySQLResultImpl lib (Some r) aff ins = Some x \<and> wf_impl x \<and> impl_cols x = names \<and>
    impl_table x = rows \<and> affected x = aff \<and> inserted x = ins \<and>
    fieldsMap x = (if names = [] then None else Some (field_map names (length names)))"
proof -
  have st: "serves lib r rows" "num_rows lib r = of_nat (length rows)" "length rows < 2 ^ 63"
    "fetch_fields lib r = names" "num_fields lib r = of_nat (length names)" "length names < 2 ^ 32"
    "list_all (\<lambda>row. length row = length names \<and> short_cells row) rows"
    using assms by (simp_all add: stored_def)
  have m: "ucast (of_nat (length names) :: 32 word) = (of_nat (length names) :: 64 word)"
  proof -
    have "unat (of_nat (length names) :: 32 word) = length names"
      using st(6) by (simp add: unat_of_nat take_bit_nat_eq_self)
    then show ?thesis by (metis of_nat_unat)
  qed
  have m': "unat (of_nat (length names) :: 64 word) = length names"
    using st(6) by (simp add: unat_of_nat take_bit_nat_eq_self)
  have pos: "(0 :: 64 word) < of_nat (length names) \<longleftrightarrow> names \<noteq> []"
    using m' by (auto simp: word_less_nat_alt)
  have n': "unat (of_nat (length rows) :: 64 word) = length rows"
    using st(3) by (simp add: unat_of_nat take_bit_nat_eq_self)
  have posn: "(0 :: 64 word) < of_nat (length rows) \<longleftrightarrow> rows \<noteq> []"
    using n' by (auto simp: word_less_nat_alt)
  have fr: "fetch_rows lib r [] = Some (map (\<lambda>row. (row, map cell_length row)) rows)"
    using fetch_rows_all [OF st(1)] by simp
  have rows: "map fst (map (\<lambda>row. (row, map cell_length row)) rows) = rows" by (simp add: o_def)
  show ?thesis
    using st(3,6,7)
    by (cases "rows = []")
      (simp_all add: mk_MySQLResultImpl_def Let_def st(2,4,5) m m' pos posn fr wf_impl_def impl_cols_def
        impl_table_def list_all_iff o_def, auto)
qed

text \<open>
  C12: a client that loops over a result and over the fields of each row, and takes each field as
  a string, gets exactly the table the server sent, whatever bytes the cells hold, with the empty
  string for a null.  The constructor that copies the rows from the library returns.
\<close>

theorem result_delivers_table:
  assumes "stored lib r names rows"
  shows "\<exists>res. makeResult lib (Some r) aff ins = Some res \<and> read_table res = Inr (map (map cell_text) rows) \<and>
    Result_affectedRows res = aff \<and> Result_insertId res = ins"
proof -
  obtain x where x: "mk_MySQLResultImpl lib (Some r) aff ins = Some x" "wf_impl x" "impl_table x = rows"
      "affected x = aff" "inserted x = ins"
    using mk_impl_result [OF assms] by blast
  then show ?thesis
    using mysql.read_all [OF x(2)]
    by (simp add: makeResult_def Result_affectedRows_def Result_insertId_def mysql_vt_def
        impl_affectedRows_def impl_insertId_def)
qed

text \<open>
  The numbers of a result read back as what the server printed: a field with the text of a
  signed or unsigned 64-bit integer, or of a signed 32-bit one, converts to that integer, and
  \<^verbatim>\<open>as<unsigned int>\<close> keeps only the low half of a wider one without an error.
\<close>

theorem integer_fields:
  assumes "stored lib r names rows" and "i < length rows" and "j < length names"
  shows "\<exists>res. makeResult lib (Some r) aff ins = Some res \<and>
    (rows ! i ! j = Some (to_string (sint v)) \<longrightarrow> Field_as_int (field_at res i j) = Inr v) \<and>
    (rows ! i ! j = Some (to_string (sint w)) \<longrightarrow>
       Field_as_long (field_at res i j) = Inr w \<and> Field_as_long_long (field_at res i j) = Inr w) \<and>
    (rows ! i ! j = Some (to_string (uint w)) \<longrightarrow>
       Field_as_ulong (field_at res i j) = Inr w \<and> Field_as_ulong_long (field_at res i j) = Inr w \<and>
       Field_as_uint (field_at res i j) = Inr (ucast w)) \<and>
    (rows ! i ! j = None \<longrightarrow> Field_as_int (field_at res i j) = Inr 0)"
proof -
  obtain x where x: "mk_MySQLResultImpl lib (Some r) aff ins = Some x" "wf_impl x" "impl_table x = rows"
      "impl_cols x = names"
    using mk_impl_result [OF assms(1)] by blast
  have ij: "i < length (impl_table x)" "j < length (impl_cols x)" using assms x by simp_all
  note num = mysql.field_number [OF x(2) ij]
  show ?thesis
    by (simp add: makeResult_def x Field_as_int_def Field_as_long_def Field_as_long_long_def
        Field_as_ulong_def Field_as_ulong_long_def Field_as_uint_def num cstr_to_string
        stoi_to_string stol_to_string stoul_to_string stoull_to_string decimal_64)
qed


section \<open>Columns by name\<close>

lemma field_map_find:
  "field_map names n k = map_option of_nat (find (\<lambda>j. map lower_char (names ! j) = k) (rev [0..<n]))"
  by (induction n) (auto simp: field_map_def)

lemma named_column:
  assumes "stored lib r names rows" and "names \<noteq> []"
  shows "\<exists>res. makeResult lib (Some r) aff ins = Some res \<and>
    Row_named (mk_Row res (of_nat i)) col =
      (case find (\<lambda>j. map lower_char (names ! j) = map lower_char col) (rev [0..<length names]) of
         None \<Rightarrow> Inl (Throw (mk_exn RangeError (''no column named '' @ col)))
       | Some j \<Rightarrow> Inr (field_at res i j)) \<and>
    Row_at_named (mk_Row res (of_nat i)) col = Row_named (mk_Row res (of_nat i)) col \<and>
    (j < length names \<longrightarrow> Field_name (field_at res i j) = Inr (names ! j))"
proof -
  obtain x where x: "mk_MySQLResultImpl lib (Some r) aff ins = Some x" "wf_impl x" "impl_cols x = names"
      "fieldsMap x = Some (field_map names (length names))"
    using mk_impl_result [OF assms(1)] assms(2) by fastforce
  have n: "fieldsNumber x = of_nat (length names)" "length names < 2 ^ 64" "fieldArray x = Some names"
    using x(2,3) assms(2) by (auto simp: wf_impl_def impl_cols_def split: option.splits)
  have name: "Field_name (field_at \<lparr>vt = mysql_vt, impl = x\<rparr> i j) = Inr (names ! j)" if "j < length names"
    using small_index [OF that n(2)] n(1,3)
    by (simp add: Field_name_def Result_columnName_def field_at_def mk_Field_def mk_Row_def mysql_vt_def
        impl_columnName_def)
  have "Result_columnNumber \<lparr>vt = mysql_vt, impl = x\<rparr> col =
      (case find (\<lambda>j. map lower_char (names ! j) = map lower_char col) (rev [0..<length names]) of
         None \<Rightarrow> Inl (Throw (mk_exn RangeError (''no column named '' @ col))) | Some j \<Rightarrow> Inr (of_nat j))"
    by (simp add: Result_columnNumber_def mysql_vt_def impl_columnNumber_def x(4) field_map_find
        split: option.split)
  moreover have "row_result (mk_Row res k) = res" for res :: "mysql_impl result" and k
    by (simp add: mk_Row_def)
  ultimately show ?thesis using name
    by (simp add: makeResult_def x(1) Row_named_def Row_at_named_def field_at_def split: option.split)
qed


text \<open>
  The result of a statement without columns is empty, loops over it do nothing, and checked
  access by index throws; but access by a name, which the interface says throws for an unknown
  name, succeeds for every name and yields a field that reads as the empty string and as 0 and
  whose own name cannot be asked without failing an assertion.
\<close>

theorem result_without_columns:
  "\<exists>res f. makeResult lib None aff ins = Some res \<and> Result_empty res \<and> read_table res = Inr [] \<and>
     Result_at res i = Inl (Throw (mk_exn RangeError ''Result index is out of range'')) \<and>
     Row_at (Result_front res) i = Inl (Throw (mk_exn RangeError ''Row index is out of range'')) \<and>
     Row_named (Result_front res) col = Inr f \<and> field_column f = -1 \<and>
     Field_as_string f = Inr [] \<and> Field_as_int f = Inr 0 \<and> Field_name f = Inl AssertFail"
proof -
  define x where "x = \<lparr>rowsNumber = 0, fieldArray = None, fieldsNumber = 0, affected = aff, inserted = ins,
    fieldsMap = None, rowsPtr = None\<rparr>"
  define res where "res = \<lparr>vt = mysql_vt, impl = x\<rparr>"
  let ?f = "mk_Field (Result_front res) (-1)"
  have mk: "makeResult lib None aff ins = Some res"
    by (simp add: makeResult_def mk_MySQLResultImpl_def Let_def x_def res_def)
  have sz: "Result_size res = 0" "Result_columns res = 0"
    by (simp_all add: Result_size_def Result_columns_def res_def mysql_vt_def impl_size_def impl_columns_def x_def)
  have val: "Result_getValue res r c = Inr None" "Result_isNull res r c = Inr True"
      "Result_getLength res r c = Inr 0" "Result_oid res c = 0"
      "Result_columnNumber res col = Inr (-1)" "Result_columnName res c = Inl AssertFail" for r c
    by (simp_all add: Result_getValue_def Result_isNull_def Result_getLength_def Result_oid_def
        Result_columnNumber_def Result_columnName_def res_def mysql_vt_def x_def impl_getValue_def
        impl_isNull_def impl_getLength_def base_oid_def impl_columnNumber_def impl_columnName_def)
  have "read_table res = Inr []" by (simp add: read_table_def all_rows_eq sz)
  moreover have "Row_named (Result_front res) col = Inr ?f"
    by (simp add: Row_named_def Result_front_def mk_Row_def val)
  moreover have "Field_as_string ?f = Inr []" "Field_as_int ?f = Inr 0" "Field_name ?f = Inl AssertFail"
    by (simp_all add: Field_as_string_def Field_as_bytes_def Field_value_def Field_length_def Field_as_int_def
        or_null_def Field_isNull_def Field_name_def mk_Field_def Result_front_def mk_Row_def val bytes_def)
  ultimately show ?thesis
    using mk sz
    by (intro exI [of _ res] exI [of _ ?f])
      (simp add: Result_empty_def Result_at_def Row_at_def Result_front_def mk_Row_def mk_Field_def)
qed

section \<open>A concrete library\<close>

text \<open>A stored result: the names of the columns, the rows still to fetch, the current row.\<close>

definition list_lib :: "(string list \<times> cell list list \<times> cell list) res_lib" where
  "list_lib =
     \<lparr>num_rows = (\<lambda>(ns, rs, _). of_nat (length rs)), fetch_fields = (\<lambda>(ns, _, _). ns),
      num_fields = (\<lambda>(ns, _, _). of_nat (length ns)),
      fetch_row = (\<lambda>(ns, rs, c). case rs of [] \<Rightarrow> (None, ns, [], []) | row # rs' \<Rightarrow> (Some row, ns, rs', row)),
      fetch_lengths = (\<lambda>(_, _, c). map cell_length c)\<rparr>"

definition demo_names :: "string list" where
  "demo_names = [''Id'', ''name'', ''ID'']"

definition demo_rows :: "cell list list" where
  "demo_rows = [[Some ''7'', None, Some ''-1''], [Some ''8'', Some ''x'', Some ''abc'']]"

lemma demo_stored: "stored list_lib (demo_names, demo_rows, []) demo_names demo_rows"
  by (simp add: stored_def list_lib_def demo_names_def demo_rows_def short_cells_def)

theorem result_delivers_table_witness:
  "\<exists>res. makeResult list_lib (Some (demo_names, demo_rows, [])) 2 0 = Some res \<and>
     read_table res = Inr [[''7'', [], ''-1''], [''8'', ''x'', ''abc'']]"
  using result_delivers_table [OF demo_stored, of 2 0] by (auto simp: demo_rows_def cell_text_def)

theorem integer_fields_witness:
  "\<exists>res. makeResult list_lib (Some (demo_names, demo_rows, [])) 2 0 = Some res \<and>
     Field_as_int (field_at res 0 2) = Inr (-1) \<and> Field_as_int (field_at res 0 1) = Inr 0"
proof -
  have t: "to_string (- 1) = ''-1''" by (simp add: to_string_def dec_digits.simps [of "Suc 0"] char_of_def bit_0)
  have ij: "0 < length demo_rows" "2 < length demo_names" "1 < length demo_names"
    by (simp_all add: demo_names_def demo_rows_def)
  note fields = integer_fields [OF demo_stored ij(1,2), of 2 0 "-1" 0] integer_fields [OF demo_stored ij(1,3), of 2 0 0 0]
  have "demo_rows ! 0 ! 2 = Some ''-1''" "demo_rows ! 0 ! 1 = None" by (simp_all add: demo_rows_def)
  with fields t show ?thesis by auto
qed



end
