(* ===== verification/Program.thy ===== *)
theory Program
  imports Statements DbResult
begin

text \<open>
  The program of \<^verbatim>\<open>main.cpp\<close>: its main thread step by step, interleaved with the loop's thread, which
  runs the connection.  Results of the statement are read through the result sets of the library.
\<close>

section \<open>The callbacks\<close>

text \<open>
  The variables that main's closures assign are read off the calls of the connection: the closures
  \<open>1\<close> and \<open>2\<close> are those for results and for errors.  \<^verbatim>\<open>set_value\<close> throws on a promise that has a
  value.
\<close>

definition for_promise :: "user_call \<Rightarrow> bool" where
  "for_promise u = (case u of ResultCall c r a i \<Rightarrow> c = 1 | _ \<Rightarrow> False)"

definition main_user :: "user_call \<Rightarrow> ('m, 'p) step" where
  "main_user u s =
     (if for_promise u \<and> 1 < length (filter for_promise (calls s))
      then raise (Throw (mk_exn StdLogicError ''promise_already_satisfied'')) s
      else skip s)"

definition promised :: "('m, 'p) conn \<Rightarrow> (nat option \<times> nat \<times> nat) option" where
  "promised c = (case filter for_promise (calls c) of ResultCall _ r a i # _ \<Rightarrow> Some (r, a, i) | _ \<Rightarrow> None)"

text \<open>The last assignment to \<^verbatim>\<open>exceptionPtr\<close>.\<close>

definition exceptionPtr :: "('m, 'p) conn \<Rightarrow> exn option" where
  "exceptionPtr c = fold (\<lambda>u x. case u of ExceptCall e y \<Rightarrow> if e = 2 then Some y else x | _ \<Rightarrow> x) (calls c) None"

section \<open>The main thread\<close>

definition TEST_CONN_INFO :: string where
  "TEST_CONN_INFO = ''host=47.97.210.72 user=test password=123456 port=3306 dbname=test''"

text \<open>Where the main thread is: before which of its calls, in its last loop, or at its end.\<close>

datatype main_pc =
    CallInit
  | CallSetOk
  | CallSetClose
  | CheckEstablished
  | CallExec
  | CheckException
  | AwaitResult
  | PrintRows
  | CallQuit
  | Spin
  | Returned int
  | Terminated fault

text \<open>
  \<open>okFrom\<close> is the number of calls of the connection when main set its callback for a connection made;
  \<open>connectionHeld\<close> tells that \<^verbatim>\<open>connection_\<close> has not been reset.
\<close>

record ('m, 'p) process =
  mpc :: main_pc
  db :: "('m, 'p) conn"
  okFrom :: "nat option"
  printed :: string
  quitAsked :: bool
  connectionHeld :: bool

definition mk_main :: "'m \<Rightarrow> 'p \<Rightarrow> fault + ('m, 'p) process" where
  "mk_main m p =
     obind (mk_MySQLConnector (Some 0) TEST_CONN_INFO m p) (\<lambda>c.
       Inr \<lparr>mpc = CallInit, db = c, okFrom = None, printed = [], quitAsked = False, connectionHeld = True\<rparr>)"

definition connectionEstablished :: "('m, 'p) process \<Rightarrow> bool" where
  "connectionEstablished s = (case okFrom s of None \<Rightarrow> False | Some k \<Rightarrow> OkCall \<in> set (drop k (calls (db s))))"

text \<open>A call of the main thread on the connection; an exception that leaves \<^verbatim>\<open>main\<close> ends the process.\<close>

definition main_call :: "('m, 'p) step \<Rightarrow> main_pc \<Rightarrow> ('m, 'p) process \<Rightarrow> ('m, 'p) process" where
  "main_call a nxt s =
     (case a (db s) of
        (c, None) \<Rightarrow> s\<lparr>db := c, mpc := nxt\<rparr>
      | (c, Some e) \<Rightarrow> s\<lparr>db := c, mpc := Terminated e\<rparr>)"

text \<open>The pieces of a line in the order in which they are printed, up to the first that throws.\<close>

fun print_pieces :: "(fault + string) list \<Rightarrow> string \<times> fault option" where
  "print_pieces [] = ([], None)"
| "print_pieces (Inl e # ps) = ([], Some e)"
| "print_pieces (Inr z # ps) = (case print_pieces ps of (out, e) \<Rightarrow> (z @ out, e))"

definition row_pieces :: "'i row \<Rightarrow> (fault + string) list" where
  "row_pieces w =
     [Inr ''Row: '', obind (Row_at_named w ''id'') (\<lambda>f. obind (Field_as_int f) (\<lambda>v. Inr (to_string (sint v)))),
      Inr '', '', obind (Row_at_named w ''name'') Field_as_string,
      Inr '', '', obind (Row_at_named w ''email'') Field_as_string]"

definition print_result :: "'i result \<Rightarrow> string \<times> fault option" where
  "print_result r =
     (case all_rows r of None \<Rightarrow> ([], Some NotReturned) | Some ws \<Rightarrow> print_pieces (concat (map row_pieces ws)))"

definition the_query :: string where
  "the_query = ''SELECT * FROM test_users WHERE id = 1''"

text \<open>One step of the main thread; none when it waits for the promise or is at its end.\<close>

definition main_step ::
  "('m, 'p) client \<Rightarrow> nat \<Rightarrow> 'r res_lib \<Rightarrow> (nat \<Rightarrow> 'r) \<Rightarrow> ('m, 'p) process \<Rightarrow> ('m, 'p) process option" where
  "main_step env n lib obj s =
     (case mpc s of
        CallInit \<Rightarrow> Some (main_call init CallSetOk s)
      | CallSetOk \<Rightarrow> Some (s\<lparr>db := setOkCallback True (db s), okFrom := Some (length (calls (db s))), mpc := CallSetClose\<rparr>)
      | CallSetClose \<Rightarrow> Some (s\<lparr>db := setConnCloseCallback True (db s), mpc := CheckEstablished\<rparr>)
      | CheckEstablished \<Rightarrow> Some (s\<lparr>mpc := if connectionEstablished s then CallExec else Returned (- 1)\<rparr>)
      | CallExec \<Rightarrow> Some (main_call (execSql env n False the_query 0 [] (Some 1) (Some 2)) CheckException s)
      | CheckException \<Rightarrow>
          Some (s\<lparr>mpc := (case exceptionPtr (db s) of None \<Rightarrow> AwaitResult | Some x \<Rightarrow> Terminated (Throw x))\<rparr>)
      | AwaitResult \<Rightarrow> (if promised (db s) = None then None else Some (s\<lparr>mpc := PrintRows\<rparr>))
      | PrintRows \<Rightarrow>
          (case promised (db s) of
             None \<Rightarrow> None
           | Some (r, a, i) \<Rightarrow>
               (case makeResult lib (map_option obj r) (of_nat a) (of_nat i) of
                  None \<Rightarrow> Some (s\<lparr>mpc := Terminated NotReturned\<rparr>)
                | Some res \<Rightarrow>
                    if Result_empty res then Some (s\<lparr>mpc := Returned (- 1)\<rparr>)
                    else (case print_result res of
                            (out, None) \<Rightarrow> Some (s\<lparr>printed := out, mpc := CallQuit\<rparr>)
                          | (out, Some e) \<Rightarrow> Some (s\<lparr>printed := out, mpc := Terminated e\<rparr>))))
      | CallQuit \<Rightarrow> Some (s\<lparr>quitAsked := True, mpc := Spin\<rparr>)
      | Spin \<Rightarrow> Some s
      | Returned k \<Rightarrow> None
      | Terminated e \<Rightarrow> None)"

section \<open>The loop's thread\<close>

text \<open>
  What the loop's thread does to the connection: the poller reports events, they are handled, a
  timer that was asked for fires, or a queued closure runs.
\<close>

definition loop_does :: "('m, 'p) client \<Rightarrow> nat \<Rightarrow> ('m, 'p) conn \<Rightarrow> ('m, 'p) conn \<times> fault option \<Rightarrow> bool" where
  "loop_does env n c r \<longleftrightarrow>
     disp c \<noteq> None \<and> (\<exists>m. r = skip (report_events m c)) \<or> disp c \<noteq> None \<and> r = handleEvent_conn env n c \<or>
     timeouts c \<noteq> [] \<and> r = handleTimeout env c \<or> queued c \<noteq> [] \<and> r = run_next_task env n c"

text \<open>An exception that leaves the loop leaves its thread, and the process ends.\<close>

definition after_loop :: "('m, 'p) conn \<times> fault option \<Rightarrow> ('m, 'p) process \<Rightarrow> ('m, 'p) process" where
  "after_loop r s =
     (case r of (c, None) \<Rightarrow> s\<lparr>db := c\<rparr> | (c, Some e) \<Rightarrow> s\<lparr>db := c, mpc := Terminated e\<rparr>)"

text \<open>
  Asked to quit, the loop runs the closure that main has given it for its end, which resets
  main's pointer to the connection, and its thread is over.
\<close>

definition after_quit :: "('m, 'p) process \<Rightarrow> ('m, 'p) process" where
  "after_quit s = s\<lparr>connectionHeld := False\<rparr>"

lemma after_quit_simps [simp]:
  "mpc (after_quit s) = mpc s" "db (after_quit s) = db s" "okFrom (after_quit s) = okFrom s"
  "printed (after_quit s) = printed s" "quitAsked (after_quit s) = quitAsked s" "\<not> connectionHeld (after_quit s)"
  "connectionEstablished (after_quit s) = connectionEstablished s"
  by (simp_all add: after_quit_def connectionEstablished_def split: option.split)

definition ended :: "('m, 'p) process \<Rightarrow> bool" where
  "ended s = (case mpc s of Returned k \<Rightarrow> True | Terminated e \<Rightarrow> True | _ \<Rightarrow> False)"

inductive process_steps ::
  "('m, 'p) client \<Rightarrow> nat \<Rightarrow> 'r res_lib \<Rightarrow> (nat \<Rightarrow> 'r) \<Rightarrow> ('m, 'p) process \<Rightarrow> ('m, 'p) process \<Rightarrow> bool"
  for env n lib obj s0
where
  start: "process_steps env n lib obj s0 s0"
| main: "process_steps env n lib obj s0 s \<Longrightarrow> main_step env n lib obj s = Some s' \<Longrightarrow>
    process_steps env n lib obj s0 s'"
| loop: "process_steps env n lib obj s0 s \<Longrightarrow> \<not> ended s \<Longrightarrow> loop_does env n (db s) r \<Longrightarrow>
    connectionHeld s \<Longrightarrow> process_steps env n lib obj s0 (after_loop r s)"
| leave: "process_steps env n lib obj s0 s \<Longrightarrow> \<not> ended s \<Longrightarrow> quitAsked s \<Longrightarrow> connectionHeld s \<Longrightarrow>
    process_steps env n lib obj s0 (after_quit s)"

section \<open>One statement\<close>

text \<open>
  The stages of main's statement on the connection: nothing of it is queued or worked on and \<open>L\<close> is
  what was told about it; it is queued; or it is worked on.
\<close>

definition is_exec :: "conn_task \<Rightarrow> bool" where
  "is_exec t = (case t of ExecTask q k ps rcb ecb \<Rightarrow> True | _ \<Rightarrow> False)"

lemma is_exec_simps [simp]:
  "is_exec (ExecTask q k ps rcb ecb)" "\<not> is_exec InitTask" "\<not> is_exec OutputErrorTask" "\<not> is_exec (GetResultTask r)"
  by (simp_all add: is_exec_def)

definition main_task :: conn_task where
  "main_task = ExecTask the_query 0 [] (Some 1) (Some 2)"

definition told :: "('m, 'p) conn \<Rightarrow> user_call list" where
  "told c = filter about_statement (calls c)"

definition resting :: "conn_task list \<Rightarrow> user_call list \<Rightarrow> ('m, 'p) conn \<Rightarrow> bool" where
  "resting ts L c \<longleftrightarrow> filter is_exec (queued c) = ts \<and> \<not> isWorking c \<and> told c = L \<and> idleSet c"

definition working :: "('m, 'p) conn \<Rightarrow> bool" where
  "working c \<longleftrightarrow> filter is_exec (queued c) = [] \<and> isWorking c \<and> callback c = Some 1 \<and> exceptionCallback c = Some 2 \<and>
     list_all (result_of 1) (told c) \<and> idleSet c"

definition main_answer :: "user_call list \<Rightarrow> bool" where
  "main_answer L \<longleftrightarrow> (\<exists>rs. list_all (result_of 1) rs \<and>
     (rs \<noteq> [] \<and> L = rs @ [IdleCall] \<or> (\<exists>x. L = rs @ [ExceptCall 2 x] \<or> L = rs @ [ExceptCall 2 x, IdleCall])))"

definition answering :: "('m, 'p) conn \<Rightarrow> bool" where
  "answering c \<longleftrightarrow> working c \<or> (\<exists>L. resting [] L c \<and> (L = [] \<or> main_answer L))"

lemmas stage_defs = resting_def working_def told_def

lemma main_user_ok: "\<not> for_promise u \<Longrightarrow> main_user u s = skip s"
  by (simp add: main_user_def)

lemma for_promise_simps [simp]:
  "\<not> for_promise (ExceptCall e x)" "\<not> for_promise OkCall" "\<not> for_promise CloseCall" "\<not> for_promise IdleCall"
  "for_promise (ResultCall c r a i) \<longleftrightarrow> c = 1"
  by (simp_all add: for_promise_def)

lemma main_user_fst: "fst (recorded main_user u s) = s\<lparr>calls := calls s @ [u]\<rparr>"
  by (simp add: recorded_def main_user_def)

lemma resting_handlers:
  fixes env :: "('m, 'p) client"
  assumes env: "user env = recorded main_user"
  shows "conn_handlers (resting ts L) (\<lambda>_. False) (\<lambda>_. False) env"
  by unfold_locales (simp_all add: stage_defs env main_user_fst)

definition got_result :: "('m, 'p) conn \<Rightarrow> bool" where
  "got_result c \<longleftrightarrow> working c \<and> told c \<noteq> []"

definition got_error :: "('m, 'p) conn \<Rightarrow> bool" where
  "got_error c \<longleftrightarrow> filter is_exec (queued c) = [] \<and> idleSet c \<and>
     (\<exists>rs x. list_all (result_of 1) rs \<and> told c = rs @ [ExceptCall 2 x])"

lemma answering_handlers:
  fixes env :: "('m, 'p) client"
  assumes env: "user env = recorded main_user"
  shows "conn_handlers answering got_result got_error env"
proof unfold_locales
  fix s :: "('m, 'p) conn" and c e r a i ex
  let ?free = "\<lambda>s :: ('m, 'p) conn. s\<lparr>callback := None, exceptionCallback := None, isWorking := False\<rparr>"
  {
    assume "answering s" "isWorking s" "callback s = Some c"
    then have w: "working s" "c = 1" by (auto simp: answering_def stage_defs)
    then have "working (s\<lparr>calls := calls s @ [ResultCall c r a i]\<rparr>)" by (simp add: stage_defs result_of_def)
    then show "answering (fst (user env (ResultCall c r a i) s)) \<and>
        (snd (user env (ResultCall c r a i) s) = None \<longrightarrow> got_result (fst (user env (ResultCall c r a i) s)))"
      by (simp add: env main_user_fst answering_def got_result_def told_def)
  next
    assume "answering s" "isWorking s" "exceptionCallback s = Some e"
    then have w: "working s" "e = 2" by (auto simp: answering_def stage_defs)
    then have "got_error (s\<lparr>calls := calls s @ [ExceptCall e ex]\<rparr>)" by (auto simp: got_error_def stage_defs)
    then show "if snd (user env (ExceptCall e ex) s) = None then got_error (fst (user env (ExceptCall e ex) s))
        else answering (fst (user env (ExceptCall e ex) s))"
      by (simp add: env main_user_fst) (simp add: recorded_def main_user_ok)
  next
    assume "answering s" "got_result s"
    then have "resting [] (told s @ [IdleCall]) ((?free s)\<lparr>calls := calls s @ [IdleCall]\<rparr>)"
        "main_answer (told s @ [IdleCall])" "idleSet s"
      by (auto simp: got_result_def stage_defs main_answer_def)
    then show "answering (fst (call_idle env (?free s)))"
      by (auto simp: answering_def call_idle_def call_user_def env main_user_fst)
  next
    assume e: "got_error s"
    then have "resting [] (told s) (?free s)" "main_answer (told s)" "idleSet s"
        "resting [] (told s @ [IdleCall]) ((?free s)\<lparr>calls := calls s @ [IdleCall]\<rparr>)" "main_answer (told s @ [IdleCall])"
      by (auto simp: got_error_def stage_defs main_answer_def)
    then show "answering (?free s) \<and> answering (fst (call_idle env (?free s)))"
      by (auto simp: answering_def call_idle_def call_user_def env main_user_fst)
  }
qed (simp_all add: answering_def stage_defs env main_user_fst)

interpretation resting_stage: conn_handlers "resting ts L" "\<lambda>_. False" "\<lambda>_. False" "env\<lparr>user := recorded main_user\<rparr>" for ts L env
  by (rule resting_handlers) simp

interpretation answering_stage: conn_handlers answering got_result got_error "env\<lparr>user := recorded main_user\<rparr>" for env
  by (rule answering_handlers) simp

text \<open>What a step of the loop's thread makes of each stage.\<close>

context conn_handlers begin

lemma loop_kept:
  assumes P: "P c" and l: "loop_does env n c r"
    and pop: "\<And>t ts. queued c = t # ts \<Longrightarrow> \<not> is_exec t \<Longrightarrow> P (c\<lparr>queued := ts\<rparr>)"
    and exec: "\<And>t ts. queued c = t # ts \<Longrightarrow> is_exec t \<Longrightarrow> r = run_next_task env n c \<Longrightarrow> P (fst r)"
    and status: "\<And>s. InitTask \<in> set (queued c) \<Longrightarrow> P s \<Longrightarrow> P (s\<lparr>cstatus := Connecting\<rparr>)"
    and close: "\<And>s. P s \<Longrightarrow> P (fst (user env CloseCall s))"
  shows "P (fst r)"
proof -
  have "P (fst r)" if q: "queued c = t # ts" and r: "r = run_next_task env n c" for t ts
  proof (cases "is_exec t")
    case True
    then show ?thesis using exec q r by blast
  next
    case False
    note p = pop [OF q False]
    have "P (fst (init_in_loop env (c\<lparr>queued := ts\<rparr>)))" if "t = InitTask"
      by (rule init_in_loop_kept [OF p]) (use that q status close in simp_all)
    then have "P (fst (run_conn_task env n t (c\<lparr>queued := ts\<rparr>)))"
      using False kept_anyD [OF outputError_kept p] kept_anyD [OF getResult_kept p]
      by (cases t) (simp_all add: run_conn_task_def)
    then show ?thesis using q r by (simp add: run_next_task_def)
  qed
  then have "P (fst r)" if "r = run_next_task env n c" using P that by (cases "queued c") (simp_all add: run_next_task_def)
  then show ?thesis
    using l report_kept [OF P] kept_anyD [OF handleEvent_conn_kept P] kept_anyD [OF handleTimeout_kept P]
    by (auto simp: loop_does_def)
qed

end

lemma resting_loop:
  assumes env: "user env = recorded main_user" and "resting [] L c" "loop_does env n c r"
  shows "resting [] L (fst r)"
  by (rule conn_handlers.loop_kept [OF resting_handlers [OF env] assms(2,3)])
    (use assms(2) in \<open>auto simp: stage_defs env main_user_fst filter_empty_conv\<close>)

lemma answering_queue: "answering c \<Longrightarrow> filter is_exec (queued c) = []"
  by (auto simp: answering_def stage_defs)

lemma answering_loop:
  assumes env: "user env = recorded main_user" and "answering c" "loop_does env n c r"
  shows "answering (fst r)"
proof (rule conn_handlers.loop_kept [OF answering_handlers [OF env] assms(2,3)])
  fix t ts
  assume q: "queued c = t # ts" "is_exec t"
  then show "answering (fst r)" using answering_queue [OF assms(2)] by simp
next
  fix t ts
  assume "queued c = t # ts" "\<not> is_exec t"
  then show "answering (c\<lparr>queued := ts\<rparr>)" using assms(2) by (auto simp: answering_def stage_defs)
qed (simp_all add: answering_def stage_defs env main_user_fst)

lemma asked_loop:
  assumes env: "user env = recorded main_user" and a: "resting [main_task] [] c" and l: "loop_does env n c r"
  shows "resting [main_task] [] (fst r) \<or> answering (fst r)"
proof (cases "\<exists>t ts. queued c = t # ts \<and> is_exec t \<and> r = run_next_task env n c")
  case True
  then obtain t ts where q: "queued c = t # ts" "is_exec t" "r = run_next_task env n c" by blast
  then have t: "t = main_task" "filter is_exec ts = []" using a by (auto simp: stage_defs)
  let ?c = "c\<lparr>queued := ts\<rparr>"
  have "answering ?c" using a q(1,2) t by (auto simp: stage_defs answering_def)
  then have "answering (fst (execSqlInLoop env n the_query 0 [] (Some 1) (Some 2) ?c))"
    by (rule conn_handlers.taken_kept [OF answering_handlers [OF env]])
      (use a t(2) in \<open>auto simp: stage_defs answering_def\<close>)
  then show ?thesis using q(1,3) t(1) by (simp add: run_next_task_def run_conn_task_def main_task_def)
next
  case False
  have "resting [main_task] [] (fst r)"
    by (rule conn_handlers.loop_kept [OF resting_handlers [OF env] a l])
      (use a False in \<open>auto simp: stage_defs env main_user_fst\<close>)
  then show ?thesis ..
qed

section \<open>The whole program\<close>

text \<open>
  At any time main's statement is at one of these stages, and before main has asked for it
  nothing of it is there.
\<close>

definition before_exec :: "main_pc set" where
  "before_exec = {CallInit, CallSetOk, CallSetClose, CheckEstablished, CallExec}"

definition process_ok :: "('m, 'p) process \<Rightarrow> bool" where
  "process_ok s \<longleftrightarrow> (resting [main_task] [] (db s) \<or> answering (db s)) \<and>
     (mpc s \<in> before_exec \<longrightarrow> resting [] [] (db s))"

lemma resting_answering: "resting [] [] c \<Longrightarrow> answering c"
  by (auto simp: answering_def)

lemma loop_ok:
  assumes "user env = recorded main_user" and "process_ok s" and "loop_does env n (db s) r"
  shows "process_ok (after_loop r s)"
proof -
  have "resting [main_task] [] (fst r) \<or> answering (fst r)"
    using asked_loop [OF assms(1) _ assms(3)] answering_loop [OF assms(1) _ assms(3)] assms(2)
    by (auto simp: process_ok_def)
  moreover have "resting [] [] (fst r)" if "mpc s \<in> before_exec"
    using resting_loop [OF assms(1) _ assms(3)] assms(2) that by (simp add: process_ok_def)
  moreover have "db (after_loop r s) = fst r" "mpc (after_loop r s) \<in> before_exec \<longrightarrow> mpc s \<in> before_exec"
    by (auto simp: after_loop_def before_exec_def split: prod.split option.split)
  ultimately show ?thesis by (simp add: process_ok_def)
qed

lemma main_ok:
  assumes ok: "process_ok s" and step: "main_step env n lib obj s = Some s'"
  shows "process_ok s'"
proof (cases "mpc s \<in> {CallInit, CallSetOk, CallSetClose, CallExec}")
  case True
  then have r: "resting [] [] (db s)" using ok by (auto simp: process_ok_def before_exec_def)
  then have "resting [] [] (db s')" if "mpc s \<noteq> CallExec"
    using True that step
    by (auto simp: main_step_def main_call_def init_def enqueue_task_def setOkCallback_def setConnCloseCallback_def stage_defs)
  moreover have "resting [main_task] [] (db s')" "mpc s' = CheckException" if "mpc s = CallExec"
    using r that step
    by (auto simp: main_step_def main_call_def execSql_def enqueue_task_def main_task_def stage_defs)
  ultimately show ?thesis using resting_answering
    by (cases "mpc s = CallExec") (auto simp: process_ok_def before_exec_def)
next
  case False
  then have "db s' = db s"
    using step by (auto simp: main_step_def split: main_pc.splits if_splits option.splits prod.splits)
  moreover have "mpc s' \<in> before_exec \<longrightarrow> mpc s \<in> before_exec"
    using step by (auto simp: main_step_def before_exec_def split: main_pc.splits if_splits option.splits prod.splits)
  ultimately show ?thesis using ok by (simp add: process_ok_def)
qed

lemma steps_ok:
  assumes "user env = recorded main_user" and "process_steps env n lib obj s0 s" and "process_ok s0"
  shows "process_ok s"
  using assms(2,3)
proof induction
  case (leave s)
  then show ?case by (simp add: process_ok_def)
qed (blast intro: main_ok loop_ok [OF assms(1)])+

text \<open>The connection that main makes.\<close>

lemma apply_params_frame:
  "queued (fold apply_param kvs c) = queued c \<and> isWorking (fold apply_param kvs c) = isWorking c \<and>
   calls (fold apply_param kvs c) = calls c \<and> idleSet (fold apply_param kvs c) = idleSet c \<and>
   okSet (fold apply_param kvs c) = okSet c \<and> closeSet (fold apply_param kvs c) = closeSet c \<and>
   cstatus (fold apply_param kvs c) = cstatus c \<and> mysql (fold apply_param kvs c) = mysql c \<and>
   pl (fold apply_param kvs c) = pl c"
proof (induction kvs arbitrary: c)
  case (Cons kv kvs)
  show ?case using Cons [of "apply_param kv c"] by (simp add: apply_param_def Let_def)
qed simp

lemma mk_main_ok:
  assumes "mk_main m p = Inr s0"
  shows "process_ok s0" "mpc s0 = CallInit" "calls (db s0) = []" "queued (db s0) = []" "cstatus (db s0) = NotConnected"
    "mysql (db s0) = Some m" "pl (db s0) = p" "okSet (db s0)" "closeSet (db s0)" "printed s0 = []" "connectionHeld s0" "\<not> quitAsked s0"
  using assms
  by (auto simp: mk_main_def mk_MySQLConnector_def mk_DbConnection_def apply_params_frame process_ok_def answering_def
      stage_defs)

text \<open>Where that connection goes to.\<close>

lemma test_conn_info:
  "parseConnString TEST_CONN_INFO =
     [(''dbname'', ''test''), (''host'', ''47.97.210.72''), (''password'', ''123456''), (''port'', ''3306''), (''user'', ''test'')]"
proof -
  let ?kvs = "[(''host'', ''47.97.210.72''), (''user'', ''test''), (''password'', ''123456''), (''port'', ''3306'')]"
  have "TEST_CONN_INFO = conn_text ?kvs @ ''dbname'' @ CHR ''='' # esc_value ''test''"
    by (simp add: TEST_CONN_INFO_def conn_text_def esc_char_def backslash_def quote_char_def)
  moreover have "list_all plain_pair ?kvs" "plain_pair (''dbname'', ''test'')"
    by (simp_all add: plain_pair_def is_word_char_def is_blank_def less_eq_char_def)
  ultimately have "parseConnString TEST_CONN_INFO = map_put ''dbname'' ''test'' (fold (\<lambda>(k, v). map_put k v) ?kvs [])"
    unfolding parseConnString_def by (metis parseLoop_last)
  then show ?thesis by (simp add: less_char_def)
qed

theorem main_connects_to:
  "\<exists>s. mk_main m p = Inr s \<and> host (db s) = ''47.97.210.72'' \<and> user_name (db s) = ''test'' \<and>
     passwd (db s) = ''123456'' \<and> port (db s) = ''3306'' \<and> dbname (db s) = ''test'' \<and> characterSet (db s) = []"
  by (simp add: mk_main_def mk_MySQLConnector_def mk_DbConnection_def test_conn_info apply_param_def Let_def
      lower_char_def char_of_def bit_0)

section \<open>What is printed\<close>

text \<open>The calls of the connection only grow.\<close>

lemma growing_handlers:
  fixes env :: "('m, 'p) client"
  assumes env: "user env = recorded main_user"
  shows "conn_handlers (\<lambda>c. \<exists>zs. calls c = L @ zs) (\<lambda>_. True) (\<lambda>c. \<exists>zs. calls c = L @ zs) env"
  by unfold_locales (auto simp: env main_user_fst call_idle_def call_user_def)

lemma calls_grow:
  assumes env: "user env = recorded main_user" and l: "loop_does env n c r"
  shows "\<exists>zs. calls (fst r) = calls c @ zs"
proof (rule conn_handlers.loop_kept [OF growing_handlers [OF env] _ l])
  fix t ts
  assume q: "queued c = t # ts" "is_exec t" "r = run_next_task env n c"
  then obtain z k ps rcb ecb where "t = ExecTask z k ps rcb ecb" by (cases t) simp_all
  then have "r = execSqlInLoop env n z k ps rcb ecb (c\<lparr>queued := ts\<rparr>)"
    using q by (simp add: run_next_task_def run_conn_task_def)
  moreover have "\<exists>zs. calls (fst (execSqlInLoop env n z k ps rcb ecb (c\<lparr>queued := ts\<rparr>))) = calls c @ zs"
    by (rule conn_handlers.taken_kept [OF growing_handlers [OF env]]) simp_all
  ultimately show "\<exists>zs. calls (fst r) = calls c @ zs" by simp
qed (auto simp: env main_user_fst)

lemma promised_stable: "promised c = Some x \<Longrightarrow> calls c' = calls c @ zs \<Longrightarrow> promised c' = Some x"
  by (auto simp: promised_def split: list.splits user_call.splits)

lemma drop_grows: "u \<in> set (drop k xs) \<Longrightarrow> u \<in> set (drop k (xs @ zs))"
  by simp

text \<open>What main has seen when it is in a loop of rows or beyond, and what it has printed.\<close>

definition print_ok :: "'r res_lib \<Rightarrow> (nat \<Rightarrow> 'r) \<Rightarrow> ('m, 'p) process \<Rightarrow> bool" where
  "print_ok lib obj s \<longleftrightarrow>
     (mpc s \<in> {CallExec, CheckException, AwaitResult, PrintRows, CallQuit, Spin} \<longrightarrow> connectionEstablished s) \<and>
     (mpc s \<in> {CallQuit, Spin} \<longrightarrow>
        (\<exists>r a i res. promised (db s) = Some (r, a, i) \<and>
           makeResult lib (map_option obj r) (of_nat a) (of_nat i) = Some res \<and> \<not> Result_empty res \<and>
           print_result res = (printed s, None))) \<and>
     (mpc s \<in> {CallQuit, Spin} \<or> printed s = [] \<or> (\<exists>e. mpc s = Terminated e))"

lemma print_ok_main:
  assumes ok: "print_ok lib obj s" and step: "main_step env n lib obj s = Some s'"
  shows "print_ok lib obj s'"
proof -
  have same: "connectionEstablished (t\<lparr>mpc := x\<rparr>) = connectionEstablished t"
      "connectionEstablished (t\<lparr>printed := z\<rparr>) = connectionEstablished t"
      "connectionEstablished (t\<lparr>quitAsked := b\<rparr>) = connectionEstablished t" for t :: "('b, 'c) process" and x z b
    by (simp_all add: connectionEstablished_def split: option.split)
  have call: "connectionEstablished (t\<lparr>db := c\<rparr>) = connectionEstablished t" if "calls c = calls (db t)"
    for t :: "('b, 'c) process" and c
    using that by (simp add: connectionEstablished_def split: option.split)
  show ?thesis
    using ok step same
    by (cases "mpc s")
      (auto simp: print_ok_def main_step_def main_call_def init_def execSql_def enqueue_task_def call
        split: if_splits option.splits prod.splits)
qed

lemma print_ok_loop:
  assumes env: "user env = recorded main_user" and ok: "print_ok lib obj s" and l: "loop_does env n (db s) r"
  shows "print_ok lib obj (after_loop r s)"
proof -
  obtain zs where zs: "calls (fst r) = calls (db s) @ zs" using calls_grow [OF env l] by blast
  have f: "okFrom (after_loop r s) = okFrom s" "printed (after_loop r s) = printed s" "db (after_loop r s) = fst r"
      "mpc (after_loop r s) = mpc s \<or> (\<exists>e. mpc (after_loop r s) = Terminated e)"
    by (auto simp: after_loop_def split: prod.split option.split)
  have est: "connectionEstablished s \<Longrightarrow> connectionEstablished (after_loop r s)"
    using zs by (auto simp: connectionEstablished_def f split: option.splits)
  have prm: "promised (db s) = Some x \<Longrightarrow> promised (fst r) = Some x" for x
    using promised_stable zs by blast
  note okd = ok [unfolded print_ok_def]
  show ?thesis
  proof (cases "\<exists>e. mpc (after_loop r s) = Terminated e")
    case True
    then show ?thesis by (auto simp: print_ok_def)
  next
    case False
    then have m: "mpc (after_loop r s) = mpc s" using f(4) by blast
    from est prm okd show ?thesis unfolding print_ok_def m f(2,3) by meson
  qed
qed

lemma steps_print_ok:
  assumes "user env = recorded main_user" and "process_steps env n lib obj s0 s" and "print_ok lib obj s0"
  shows "print_ok lib obj s"
  using assms(2,3)
proof induction
  case (leave s)
  then show ?case by (simp add: print_ok_def)
qed (blast intro: print_ok_main print_ok_loop [OF assms(1)])+

text \<open>A table of persons as the server sends it, and the line that main is to print for each.\<close>

type_synonym person = "32 word \<times> string \<times> string"

definition person_names :: "string list" where
  "person_names = [''id'', ''name'', ''email'']"

fun person_row :: "person \<Rightarrow> cell list" where
  "person_row (k, name, email) = [Some (to_string (sint k)), Some name, Some email]"

fun person_line :: "person \<Rightarrow> string" where
  "person_line (k, name, email) = ''Row: '' @ to_string (sint k) @ '', '' @ name @ '', '' @ email"

fun person_pieces :: "person \<Rightarrow> string list" where
  "person_pieces (k, name, email) = [''Row: '', to_string (sint k), '', '', name, '', '', email]"

lemma print_pieces_all: "print_pieces (map Inr zs) = (concat zs, None)"
  by (induction zs) simp_all

lemma person_pieces_line: "concat (concat (map person_pieces people)) = concat (map person_line people)"
proof (induction people)
  case (Cons q people)
  then show ?case by (cases q) simp
qed simp

lemma person_column:
  "find (\<lambda>j. map lower_char (person_names ! j) = map lower_char ''id'') (rev [0..<length person_names]) = Some 0"
  "find (\<lambda>j. map lower_char (person_names ! j) = map lower_char ''name'') (rev [0..<length person_names]) = Some 1"
  "find (\<lambda>j. map lower_char (person_names ! j) = map lower_char ''email'') (rev [0..<length person_names]) = Some 2"
  by (simp_all add: person_names_def lower_char_def upt_rec char_of_def bit_0)

lemma person_result:
  assumes st: "stored lib o1 person_names (map person_row people)"
  shows "\<exists>res. makeResult lib (Some o1) aff ins = Some res \<and> Result_empty res = (people = []) \<and>
    print_result res = (concat (map person_line people), None)"
proof -
  obtain x where x: "mk_MySQLResultImpl lib (Some o1) aff ins = Some x" "wf_impl x" "impl_table x = map person_row people"
      "impl_cols x = person_names"
    using mk_impl_result [OF st] by blast
  define res where "res = \<lparr>vt = mysql_vt, impl = x\<rparr>"
  have res: "makeResult lib (Some o1) aff ins = Some res" by (simp add: makeResult_def x(1) res_def)
  have size: "Result_size res = of_nat (length people)" "length people < 2 ^ 64"
    using mysql.size [OF x(2)] x(3) by (simp_all add: Result_size_def res_def)
  then have n: "unat (Result_size res) = length people" by (simp add: unat_of_nat take_bit_nat_eq_self)
  have "row_pieces (mk_Row res (of_nat i)) = map Inr (person_pieces (people ! i))" if i: "i < length people" for i
  proof -
    obtain k name email where q: "people ! i = (k, name, email)" by (cases "people ! i")
    have ij: "i < length (impl_table x)" "0 < length (impl_cols x)" "1 < length (impl_cols x)" "2 < length (impl_cols x)"
      using i x(3,4) by (simp_all add: person_names_def)
    have cell: "impl_table x ! i = person_row (k, name, email)" using x(3) i q by simp
    have ne: "person_names \<noteq> []" by (simp add: person_names_def)
    note at = named_column [OF st ne, where aff = aff and ins = ins and i = i, unfolded res]
    have "Row_at_named (mk_Row res (of_nat i)) ''id'' = Inr (field_at res i 0)"
        "Row_at_named (mk_Row res (of_nat i)) ''name'' = Inr (field_at res i 1)"
        "Row_at_named (mk_Row res (of_nat i)) ''email'' = Inr (field_at res i 2)"
      using at [of "''id''"] at [of "''name''"] at [of "''email''"] unfolding person_column by auto
    moreover have "Field_as_int (field_at res i 0) = Inr k"
      using mysql.field_number [OF x(2) ij(1,2), of 0 stoi] cell
      by (simp add: Field_as_int_def res_def cstr_to_string stoi_to_string)
    moreover have "Field_as_string (field_at res i 1) = Inr name" "Field_as_string (field_at res i 2) = Inr email"
      using mysql.field_string [OF x(2) ij(1,3)] mysql.field_string [OF x(2) ij(1,4)] cell
      by (simp_all add: res_def cell_text_def numeral_2_eq_2)
    ultimately show ?thesis using q by (simp add: row_pieces_def)
  qed
  then have "concat (map (\<lambda>i. row_pieces (mk_Row res (of_nat i))) [0..<length people]) =
      concat (map (\<lambda>i. map Inr (person_pieces (people ! i))) [0..<length people])"
    by (intro arg_cong [where f = concat] map_cong) simp_all
  also have "\<dots> = map Inr (concat (map person_pieces (map (\<lambda>i. people ! i) [0..<length people])))"
    by (simp add: map_concat o_def)
  also have "map (\<lambda>i. people ! i) [0..<length people] = people" by (rule map_nth)
  finally have "print_result res = (concat (map person_line people), None)"
    by (simp add: print_result_def all_rows_eq n o_def print_pieces_all person_pieces_line)
  moreover have "Result_empty res = (people = [])"
    using n size(1) by (cases "people = []") (auto simp: Result_empty_def)
  ultimately show ?thesis using res by blast
qed

text \<open>
  C8: what the program prints.  Under every interleaving of the two threads and whatever the
  library answers: when main asks the loop to quit, or is in its last loop, the connection has told
  main that it is made, main's statement has a result, and when that result is a table of persons
  there is at least one and main has printed exactly their lines, in order; anywhere else before
  its end it has printed nothing.
\<close>

theorem main_prints_persons:
  assumes "user env = recorded main_user" and "mk_main m p = Inr s0" and "process_steps env n lib obj s0 s"
  shows "(mpc s \<in> {CallQuit, Spin} \<longrightarrow> connectionEstablished s \<and>
      (\<exists>r a i. promised (db s) = Some (r, a, i) \<and>
        (\<forall>o1 people. r = Some o1 \<and> stored lib (obj o1) person_names (map person_row people) \<longrightarrow>
           people \<noteq> [] \<and> printed s = concat (map person_line people)))) \<and>
    (mpc s \<notin> {CallQuit, Spin} \<longrightarrow> printed s = [] \<or> (\<exists>e. mpc s = Terminated e))"
proof -
  note s0 = mk_main_ok [OF assms(2)]
  have "print_ok lib obj s" by (rule steps_print_ok [OF assms(1,3)]) (simp add: print_ok_def s0(2,10))
  moreover have "people \<noteq> [] \<and> printed s = concat (map person_line people)"
    if "makeResult lib (Some (obj o1)) a i = Some res" "\<not> Result_empty res" "print_result res = (printed s, None)"
      "stored lib (obj o1) person_names (map person_row people)" for a i res o1 people
    using person_result [OF that(4), of a i] that(1-3) by auto
  ultimately show ?thesis by (fastforce simp: print_ok_def)
qed

section \<open>Errors\<close>

lemma told_promised: "filter for_promise (calls c) = filter for_promise (told c)"
  by (auto simp: told_def about_statement_def intro!: filter_cong)

text \<open>A statement that ended with its error and without a result.\<close>

definition failed_only :: "user_call list \<Rightarrow> bool" where
  "failed_only L \<longleftrightarrow> (\<exists>x T. L = ExceptCall 2 x # T) \<and> filter for_promise L = []"

lemma failed_stays:
  assumes env: "user env = recorded main_user" and "process_steps env n lib obj s s'"
    and "mpc s = AwaitResult" and "resting [] L (db s)" and "failed_only L"
  shows "(mpc s' = AwaitResult \<and> resting [] L (db s') \<or> (\<exists>f. mpc s' = Terminated f)) \<and> printed s' = printed s"
  using assms(2)
proof induction
  case start
  then show ?case using assms(3,4) by simp
next
  case (main s1 s2)
  have "promised (db s1) = None" if "resting [] L (db s1)"
    using that assms(5) by (simp add: promised_def told_promised resting_def failed_only_def)
  then show ?case using main by (auto simp: main_step_def)
next
  case (loop s1 r)
  then have "resting [] L (fst r)" using resting_loop [OF env _ loop(3)] loop by (auto simp: ended_def)
  then show ?case using loop by (auto simp: after_loop_def ended_def split: prod.splits option.splits)
next
  case (leave s1)
  then show ?case by simp
qed

text \<open>
  C38: main looks for an error of its statement once, right after it has queued it.  When the
  statement fails after that, main waits for a result for ever: it neither sees the error nor ends,
  unless the loop's thread takes the process down.
\<close>

theorem main_waits_forever_after_error:
  assumes "user env = recorded main_user" and "mk_main m p = Inr s0" and "process_steps env n lib obj s0 s"
    and "mpc s = AwaitResult" and "told (db s) = ExceptCall e x # T" and "process_steps env n lib obj s s'"
  shows "(mpc s' = AwaitResult \<or> (\<exists>f. mpc s' = Terminated f)) \<and> printed s' = []"
proof -
  note s0 = mk_main_ok [OF assms(2)]
  have "process_ok s" by (rule steps_ok [OF assms(1,3) s0(1)])
  then obtain L where L: "resting [] L (db s)" "main_answer L" "L = ExceptCall e x # T"
    using assms(5) by (auto simp: process_ok_def answering_def stage_defs result_of_def)
  then have "failed_only L"
    by (auto simp: main_answer_def failed_only_def Cons_eq_append_conv result_of_def)
  moreover have "printed s = []"
    using steps_print_ok [OF assms(1,3)] assms(4) s0(2,10) by (auto simp: print_ok_def)
  ultimately show ?thesis using failed_stays [OF assms(1,6,4) L(1)] by auto
qed

text \<open>Once made, a connection is not reported again.\<close>

definition made_with :: "user_call list \<Rightarrow> ('m, 'p) conn \<Rightarrow> bool" where
  "made_with L c \<longleftrightarrow> cstatus c \<in> {ConnOk, Bad} \<and> filter (\<lambda>u. u = OkCall) (calls c) = L \<and> InitTask \<notin> set (queued c)"

lemma made_handlers:
  fixes env :: "('m, 'p) client"
  assumes env: "user env = recorded main_user"
  shows "conn_handlers (made_with L) (\<lambda>_. True) (made_with L) env"
  by unfold_locales (auto simp: made_with_def env main_user_fst call_idle_def call_user_def)

lemma made_loop:
  assumes env: "user env = recorded main_user" and m: "made_with L c" "filter is_exec (queued c) = []"
    and l: "loop_does env n c r"
  shows "made_with L (fst r)"
  by (rule conn_handlers.loop_kept [OF made_handlers [OF env] m(1) l])
    (use m in \<open>auto simp: made_with_def env main_user_fst\<close>)

definition missed :: "user_call list \<Rightarrow> ('m, 'p) process \<Rightarrow> bool" where
  "missed L s \<longleftrightarrow> resting [] [] (db s) \<and> made_with L (db s) \<and>
     (mpc s = CallSetOk \<or> mpc s \<in> {CallSetClose, CheckEstablished, Returned (- 1)} \<and>
        (\<exists>k. okFrom s = Some k \<and> k \<le> length (calls (db s)) \<and> filter (\<lambda>u. u = OkCall) (take k (calls (db s))) = L))"

lemma missed_main:
  assumes "missed L s" and step: "main_step env n lib obj s = Some s'"
  shows "missed L s'"
proof -
  have "OkCall \<notin> set (drop k (calls c))" if "made_with L c" "filter (\<lambda>u. u = OkCall) (take k (calls c)) = L"
    for c :: "('a, 'b) conn" and k
  proof -
    have "filter (\<lambda>u. u = OkCall) (take k (calls c)) @ filter (\<lambda>u. u = OkCall) (drop k (calls c)) =
        filter (\<lambda>u. u = OkCall) (calls c)"
      by (simp flip: filter_append)
    then have "filter (\<lambda>u. u = OkCall) (drop k (calls c)) = []" using that by (simp add: made_with_def)
    then show ?thesis by (auto simp: filter_empty_conv)
  qed
  then have "\<not> connectionEstablished s" if "mpc s \<noteq> CallSetOk"
    using assms(1) that by (auto simp: missed_def connectionEstablished_def)
  note late = this
  consider "mpc s = CallSetOk" | "mpc s = CallSetClose" | "mpc s = CheckEstablished"
    using assms by (auto simp: missed_def main_step_def)
  then show ?thesis
  proof cases
    case 1
    then have "s' = s\<lparr>db := (db s)\<lparr>okSet := True\<rparr>, okFrom := Some (length (calls (db s))), mpc := CallSetClose\<rparr>"
      using step by (simp add: main_step_def setOkCallback_def)
    then show ?thesis using assms(1) by (simp add: missed_def stage_defs made_with_def)
  next
    case 2
    then have "s' = s\<lparr>db := (db s)\<lparr>closeSet := True\<rparr>, mpc := CheckEstablished\<rparr>"
      using step by (simp add: main_step_def setConnCloseCallback_def)
    then show ?thesis using assms(1) 2 by (simp add: missed_def stage_defs made_with_def)
  next
    case 3
    then have "s' = s\<lparr>mpc := Returned (- 1)\<rparr>" using step late by (simp add: main_step_def)
    then show ?thesis using assms(1) 3 by (simp add: missed_def)
  qed
qed

lemma missed_loop:
  assumes env: "user env = recorded main_user" and m: "missed L s" and l: "loop_does env n (db s) r"
  shows "missed L (after_loop r s) \<or> (\<exists>f. mpc (after_loop r s) = Terminated f)"
proof -
  have r: "resting [] [] (fst r)" using resting_loop [OF env _ l] m by (simp add: missed_def)
  have q: "filter is_exec (queued (db s)) = []" using m by (simp add: missed_def resting_def)
  have md: "made_with L (fst r)" using made_loop [OF env _ q l] m by (simp add: missed_def)
  obtain zs where zs: "calls (fst r) = calls (db s) @ zs" using calls_grow [OF env l] by blast
  show ?thesis
  proof (cases "snd r")
    case None
    then have "after_loop r s = s\<lparr>db := fst r\<rparr>" by (cases r) (simp add: after_loop_def)
    then show ?thesis using m r md zs by (auto simp: missed_def)
  next
    case (Some f)
    then show ?thesis by (cases r) (simp add: after_loop_def)
  qed
qed

text \<open>
  C39: main asks for the connection to be made before it sets the callback that is to tell it so.
  When the connection is made in between, main never learns it: it returns with -1 although it
  is connected, and never asks for its statement.
\<close>

theorem main_misses_connection:
  assumes "user env = recorded main_user" and "mk_main m p = Inr s0" and "process_steps env n lib obj s0 s"
    and "mpc s = CallSetOk" and "cstatus (db s) = ConnOk" and "InitTask \<notin> set (queued (db s))"
    and "process_steps env n lib obj s s'"
  shows "mpc s' \<in> {CallSetOk, CallSetClose, CheckEstablished, Returned (- 1)} \<or> (\<exists>f. mpc s' = Terminated f)"
proof -
  have "process_ok s" by (rule steps_ok [OF assms(1,3) mk_main_ok(1) [OF assms(2)]])
  then have "missed (filter (\<lambda>u. u = OkCall) (calls (db s))) s"
    using assms(4-6) by (auto simp: missed_def made_with_def process_ok_def before_exec_def)
  with assms(7) have "missed (filter (\<lambda>u. u = OkCall) (calls (db s))) s' \<or> (\<exists>f. mpc s' = Terminated f)"
  proof induction
    case (main s1 s2)
    then show ?case using missed_main by (auto simp: main_step_def)
  next
    case (loop s1 r)
    then show ?case using missed_loop [OF assms(1) _ loop.hyps(3)] by (auto simp: ended_def)
  next
    case (leave s1)
    then show ?case by (simp add: missed_def)
  qed simp
  then show ?thesis by (auto simp: missed_def)
qed

text \<open>The pointer to the connection is reset when main is in its endless loop, after its request to quit.\<close>

definition held_ok :: "('m, 'p) process \<Rightarrow> bool" where
  "held_ok s \<longleftrightarrow> (quitAsked s \<longrightarrow> mpc s = Spin \<or> (\<exists>e. mpc s = Terminated e)) \<and> (\<not> connectionHeld s \<longrightarrow> quitAsked s \<and> mpc s = Spin)"

lemma steps_held_ok:
  assumes "process_steps env n lib obj s0 s" and "held_ok s0"
  shows "held_ok s"
  using assms
proof induction
  case (main s s')
  then show ?case
    by (cases "mpc s")
      (auto simp: held_ok_def main_step_def main_call_def split: if_splits option.splits prod.splits)
next
  case (loop s r)
  then show ?case by (auto simp: held_ok_def after_loop_def split: prod.splits option.splits)
next
  case (leave s)
  then show ?case by (auto simp: held_ok_def ended_def)
qed simp

text \<open>
  The program lets its connection go only when main makes no further use of it: the rows are
  printed, the loop's thread is over, and nothing happens any more.  The process does not end,
  main keeps running in its endless loop.
\<close>

theorem connection_let_go_last:
  assumes "user env = recorded main_user" and "mk_main m p = Inr s0" and "process_steps env n lib obj s0 s"
    and "\<not> connectionHeld s"
  shows "promised (db s) \<noteq> None \<and> main_step env n lib obj s = Some s \<and>
    (process_steps env n lib obj s s' \<longrightarrow> s' = s)"
proof -
  note s0 = mk_main_ok [OF assms(2)]
  have "held_ok s0" using s0(11,12) by (simp add: held_ok_def)
  then have spin: "mpc s = Spin" using steps_held_ok [OF assms(3)] assms(4) by (simp add: held_ok_def)
  have "print_ok lib obj s" by (rule steps_print_ok [OF assms(1,3)]) (simp add: print_ok_def s0(2,10))
  then have "promised (db s) \<noteq> None" using spin by (auto simp: print_ok_def)
  moreover have "s' = s" if "process_steps env n lib obj s s'"
    using that
  proof induction
    case (main s1 s2)
    then show ?case using spin by (simp add: main_step_def)
  qed (use assms(4) in simp_all)
  ultimately show ?thesis using spin by (simp add: main_step_def)
qed

section \<open>Concrete runs\<close>

text \<open>
  A library that answers at once, whose statement succeeds or fails; the logger lets the process
  live when \<open>b\<close> is \<open>False\<close>.
\<close>

definition demo_main :: "bool \<Rightarrow> int \<Rightarrow> (nat, epoll_table poller) client" where
  "demo_main b err = (demo_client b)\<lparr>user := recorded main_user, real_query_start := (\<lambda>_ m. (0, err, m))\<rparr>"

definition demo_start :: "(nat, epoll_table poller) process" where
  "demo_start = projr (mk_main 0 (mk_EpollPoller Map.empty 0))"

lemma demo_start: "mk_main 0 (mk_EpollPoller Map.empty 0) = Inr demo_start"
  by (simp add: demo_start_def mk_main_def mk_MySQLConnector_def mk_DbConnection_def)

definition demo_lib_obj :: "nat \<Rightarrow> string list \<times> cell list list \<times> cell list" where
  "demo_lib_obj i = (person_names, [person_row (7, ''Ann'', ''a@b'')], [])"

lemma demo_lib_stored: "stored list_lib (demo_lib_obj i) person_names (map person_row [(7, ''Ann'', ''a@b'')])"
  by (simp add: stored_def list_lib_def demo_lib_obj_def person_names_def short_cells_def to_string_def
      dec_digits.simps [of "7"] )

lemmas demo_main_simps = demo_main_def demo_client_def recorded_def main_user_def Let_def with_mysql_def andThen_def set_timeouts_def
  setEventDispatcher_def on_disp_def enqueue_task_def

text \<open>The loop makes the connection, delivers the result of the statement, or reports its error.\<close>

lemma demo_connects:
  fixes c :: "(nat, epoll_table poller) conn"
  assumes "queued c = [InitTask]" "mysql c = Some 0" "okSet c"
  shows "\<exists>c1 c2 d. run_next_task (demo_main b err) 9 c = (c1, None) \<and> disp c1 \<noteq> None \<and>
    handleEvent_conn (demo_main b err) 9 c1 = (c2, None) \<and> queued c2 = [] \<and> mysql c2 = Some 0 \<and>
    calls c2 = calls c @ [OkCall] \<and> cstatus c2 = ConnOk \<and> isWorking c2 = isWorking c \<and> idleSet c2 = idleSet c \<and>
    pl c2 = pl c \<and> disp c2 = Some d \<and> d = setEventCallback (Some ()) (mk_EventDispatcher 0 5)"
proof -
  have nw: "\<not> isWriting (setEventCallback (Some ()) (mk_EventDispatcher 0 5))" "\<not> isWriting (mk_EventDispatcher 0 5)"
    by (simp_all add: setEventCallback_def mk_EventDispatcher_def isWriting_def event_bits)
  define c1 where "c1 = c\<lparr>queued := [], cstatus := Connecting, waitStatus := 0, mysql := Some 0,
    disp := Some (setEventCallback (Some ()) (mk_EventDispatcher 0 5))\<rparr>"
  have 1: "run_next_task (demo_main b err) 9 c = (c1, None)"
    using assms nw
    by (simp add: run_next_task_def run_conn_task_def init_in_loop_def demo_main_simps c1_def)
  define c2 where "c2 = c1\<lparr>cstatus := ConnOk, calls := calls c1 @ [OkCall]\<rparr>"
  have 2: "handleEvent_conn (demo_main b err) 9 c1 = (c2, None)"
    using assms(3) nw
    by (simp add: handleEvent_conn_def continueConnect_def startSetCharacterSet_def connected_def call_ok_def
        demo_main_simps c1_def c2_def)
  from 1 2 show ?thesis by (intro exI [of _ c1] exI [of _ c2]) (simp add: c1_def c2_def)
qed

abbreviation demo_d :: "unit dispatcher" where
  "demo_d \<equiv> setEventCallback (Some ()) (mk_EventDispatcher 0 5)"

lemma demo_delivers:
  fixes c :: "(nat, epoll_table poller) conn"
  assumes "queued c = [main_task]" "mysql c = Some 0" "\<not> isWorking c" "idleSet c" "disp c = Some demo_d"
    and "filter for_promise (calls c) = []"
  shows "\<exists>c1 c2. run_next_task (demo_main b 0) 9 c = (c1, None) \<and> queued c1 \<noteq> [] \<and>
    run_next_task (demo_main b 0) 9 c1 = (c2, None) \<and> calls c2 = calls c @ [ResultCall 1 (Some 0) 0 0, IdleCall]"
proof -
  have nw: "\<not> isWriting demo_d"
    by (simp add: setEventCallback_def mk_EventDispatcher_def isWriting_def event_bits)
  define c1 where "c1 = c\<lparr>queued := [GetResultTask (Some 0)], callback := Some 1, isWorking := True,
    exceptionCallback := Some 2, sql := the_query, waitStatus := 0, execStatus := NoExec, mysql := Some 0\<rparr>"
  have 1: "run_next_task (demo_main b 0) 9 c = (c1, None)"
    using assms nw
    by (simp add: run_next_task_def run_conn_task_def main_task_def execSqlInLoop_def the_query_def startQuery_def
        startStoreResult.simps demo_main_simps c1_def)
  define c2 where "c2 = c1\<lparr>queued := [], callback := None, exceptionCallback := None, isWorking := False,
    calls := calls c1 @ [ResultCall 1 (Some 0) 0 0, IdleCall]\<rparr>"
  have 2: "run_next_task (demo_main b 0) 9 c1 = (c2, None)"
    using assms(4,6) by (simp add: run_next_task_def run_conn_task_def getResult.simps call_user_def call_idle_def
        demo_main_simps c1_def c2_def)
  from 1 2 show ?thesis by (intro exI [of _ c1] exI [of _ c2]) (simp add: c1_def c2_def)
qed

lemma demo_fails:
  fixes c :: "(nat, epoll_table poller) conn"
  assumes "queued c = [main_task]" "mysql c = Some 0" "\<not> isWorking c" "idleSet c" "disp c = Some demo_d"
    and "pl c = mk_EpollPoller Map.empty 0"
  shows "\<exists>c1 c2 x. run_next_task (demo_main False 1) 9 c = (c1, None) \<and> queued c1 \<noteq> [] \<and>
    run_next_task (demo_main False 1) 9 c1 = (c2, None) \<and> calls c2 = calls c @ [ExceptCall 2 x, IdleCall]"
proof -
  have nw: "\<not> isWriting demo_d"
    by (simp add: setEventCallback_def mk_EventDispatcher_def isWriting_def event_bits)
  define c1 where "c1 = c\<lparr>queued := [OutputErrorTask], callback := Some 1, isWorking := True,
    exceptionCallback := Some 2, sql := the_query, waitStatus := 0, execStatus := RealQuery, mysql := Some 0\<rparr>"
  have 1: "run_next_task (demo_main False 1) 9 c = (c1, None)"
    using assms nw
    by (simp add: run_next_task_def run_conn_task_def main_task_def execSqlInLoop_def the_query_def startQuery_def
        log_fatal_def demo_main_simps c1_def)
  obtain d' p' where d: "disableAll (cupd (demo_main False 1)) demo_d (mk_EpollPoller Map.empty 0) = Inr (d', p')"
    by (simp add: demo_main_def demo_client_def disableAll_def loop_updateEventDispatcher_def registerEventDispatcher_def
        poller_assertInLoopThread_def updateEventDispatcher_def setEventCallback_def mk_EventDispatcher_def mk_EpollPoller_def poller_states
        setState_def)
  define c2 where "c2 = c1\<lparr>queued := [], disp := Some d', pl := p', callback := None, exceptionCallback := None, isWorking := False,
    calls := calls c1 @ [ExceptCall 2 (mk_SqlError ''no'' the_query None), IdleCall]\<rparr>"
  have 2: "run_next_task (demo_main False 1) 9 c1 = (c2, None)"
    using assms(4-6) d by (simp add: run_next_task_def run_conn_task_def outputError_def call_user_def call_idle_def
        demo_main_simps c1_def c2_def log_fatal_def CR_SERVER_GONE_ERROR_def CR_SERVER_LOST_def)
  from 1 2 show ?thesis by (intro exI [of _ c1] exI [of _ c2]) (simp add: c1_def c2_def)
qed

lemma loop_step:
  assumes "process_steps env n lib obj s0 s" and "\<not> ended s" and "loop_does env n (db s) (c, None)"
    and "connectionHeld s"
  shows "process_steps env n lib obj s0 (s\<lparr>db := c\<rparr>)"
  using process_steps.loop [OF assms] by (simp add: after_loop_def)

lemma demo_fields:
  "mpc demo_start = CallInit" "calls (db demo_start) = []" "queued (db demo_start) = []" "mysql (db demo_start) = Some 0"
  "okSet (db demo_start)" "pl (db demo_start) = mk_EpollPoller Map.empty 0" "\<not> isWorking (db demo_start)"
  "idleSet (db demo_start)" "printed demo_start = []" "connectionHeld demo_start"
  using mk_main_ok [OF demo_start] by (auto simp: process_ok_def before_exec_def resting_def)

text \<open>Main asks for the connection and the loop makes it, before or after main has set its callbacks.\<close>

lemma demo_asked:
  fixes lib :: "'r res_lib"
  obtains s where "process_steps (demo_main b err) 9 lib obj demo_start s" "mpc s = CallSetOk" "printed s = []"
    "queued (db s) = [InitTask]" "mysql (db s) = Some 0" "okSet (db s)" "calls (db s) = []"
    "pl (db s) = mk_EpollPoller Map.empty 0" "\<not> isWorking (db s)" "idleSet (db s)" "connectionHeld s"
proof -
  define s where "s = demo_start\<lparr>db := (db demo_start)\<lparr>queued := [InitTask]\<rparr>, mpc := CallSetOk\<rparr>"
  have "main_step (demo_main b err) 9 lib obj demo_start = Some s"
    by (simp add: main_step_def demo_fields main_call_def init_def enqueue_task_def s_def)
  then have "process_steps (demo_main b err) 9 lib obj demo_start s" by (rule process_steps.main [OF process_steps.start])
  then show ?thesis using that [of s] by (simp add: s_def demo_fields)
qed

lemma demo_made:
  fixes lib :: "'r res_lib" and s0 :: "(nat, epoll_table poller) process"
  assumes "process_steps (demo_main b err) 9 lib obj s0 s" "\<not> ended s"
    "queued (db s) = [InitTask]" "mysql (db s) = Some 0" "okSet (db s)" "calls (db s) = []"
    "pl (db s) = mk_EpollPoller Map.empty 0" "\<not> isWorking (db s)" "idleSet (db s)" "connectionHeld s"
  obtains c where "process_steps (demo_main b err) 9 lib obj s0 (s\<lparr>db := c\<rparr>)" "queued c = []" "mysql c = Some 0"
    "calls c = [OkCall]" "cstatus c = ConnOk" "\<not> isWorking c" "idleSet c" "pl c = mk_EpollPoller Map.empty 0"
    "disp c = Some demo_d"
proof -
  obtain c1 c2 where c: "run_next_task (demo_main b err) 9 (db s) = (c1, None)" "disp c1 \<noteq> None"
      "handleEvent_conn (demo_main b err) 9 c1 = (c2, None)" "queued c2 = []" "mysql c2 = Some 0"
      "calls c2 = calls (db s) @ [OkCall]" "cstatus c2 = ConnOk" "isWorking c2 = isWorking (db s)"
      "idleSet c2 = idleSet (db s)" "pl c2 = pl (db s)" "disp c2 = Some demo_d"
    using demo_connects [OF assms(3-5)] by blast
  have "process_steps (demo_main b err) 9 lib obj s0 (s\<lparr>db := c1\<rparr>)"
    by (rule loop_step [OF assms(1,2)]) (use c(1) assms(3,10) in \<open>simp_all add: loop_does_def\<close>)
  then have "process_steps (demo_main b err) 9 lib obj s0 (s\<lparr>db := c1\<rparr>\<lparr>db := c2\<rparr>)"
    by (rule loop_step) (use c(2,3) assms(2,10) in \<open>simp_all add: loop_does_def ended_def\<close>)
  then show ?thesis using that [of c2] c assms(6-9) by simp
qed

text \<open>Main has queued its statement and waits for the result.\<close>

lemma demo_awaits:
  fixes lib :: "'r res_lib"
  obtains s where "process_steps (demo_main b err) 9 lib obj demo_start s" "mpc s = AwaitResult"
    "queued (db s) = [main_task]" "mysql (db s) = Some 0" "\<not> isWorking (db s)" "idleSet (db s)"
    "disp (db s) = Some demo_d" "calls (db s) = [OkCall]" "pl (db s) = mk_EpollPoller Map.empty 0" "connectionHeld s"
proof -
  let ?steps = "process_steps (demo_main b err) 9 lib obj demo_start"
  obtain s where s: "?steps s" "mpc s = CallSetOk" "printed s = []"
    "queued (db s) = [InitTask]" "mysql (db s) = Some 0" "okSet (db s)" "calls (db s) = []"
    "pl (db s) = mk_EpollPoller Map.empty 0" "\<not> isWorking (db s)" "idleSet (db s)" "connectionHeld s"
    by (rule demo_asked)
  define s1 where "s1 = s\<lparr>db := setConnCloseCallback True (setOkCallback True (db s)), okFrom := Some 0, mpc := CheckEstablished\<rparr>"
  have "?steps (s\<lparr>db := setOkCallback True (db s), okFrom := Some 0, mpc := CallSetClose\<rparr>)"
    by (rule process_steps.main [OF s(1)]) (simp add: main_step_def s(2,7))
  then have s1: "?steps s1"
    by (rule process_steps.main) (simp add: main_step_def s1_def)
  have "\<not> ended s1" by (simp add: s1_def ended_def)
  then obtain c where c: "?steps (s1\<lparr>db := c\<rparr>)" "queued c = []" "mysql c = Some 0"
    "calls c = [OkCall]" "cstatus c = ConnOk" "\<not> isWorking c" "idleSet c" "pl c = mk_EpollPoller Map.empty 0"
    "disp c = Some demo_d"
    by (rule demo_made [OF s1])
      (use s in \<open>simp_all add: s1_def setOkCallback_def setConnCloseCallback_def\<close>)
  have "?steps (s1\<lparr>db := c, mpc := CallExec\<rparr>)"
    by (rule process_steps.main [OF c(1)])
      (simp add: main_step_def s1_def connectionEstablished_def c(4))
  then have "?steps (s1\<lparr>db := c\<lparr>queued := [main_task]\<rparr>, mpc := CheckException\<rparr>)"
    by (rule process_steps.main)
      (simp add: main_step_def main_call_def execSql_def enqueue_task_def main_task_def c(2))
  then have "?steps (s1\<lparr>db := c\<lparr>queued := [main_task]\<rparr>, mpc := AwaitResult\<rparr>)"
    by (rule process_steps.main) (simp add: main_step_def exceptionPtr_def c(4))
  then show ?thesis
    using that [of "s1\<lparr>db := c\<lparr>queued := [main_task]\<rparr>, mpc := AwaitResult\<rparr>"] c s(10,11) by (simp add: s1_def)
qed

lemma demo_main_user [simp]: "user (demo_main b err) = recorded main_user"
  by (simp add: demo_main_def)

lemma demo_printed:
  obtains s a i where "process_steps (demo_main True 0) 9 list_lib demo_lib_obj demo_start s" "mpc s = CallQuit"
    "promised (db s) = Some (Some 0, a, i)" "connectionHeld s"
proof -
  let ?steps = "process_steps (demo_main True 0) 9 list_lib demo_lib_obj demo_start"
  obtain s where s: "?steps s" "mpc s = AwaitResult"
    "queued (db s) = [main_task]" "mysql (db s) = Some 0" "\<not> isWorking (db s)" "idleSet (db s)"
    "disp (db s) = Some demo_d" "calls (db s) = [OkCall]" "pl (db s) = mk_EpollPoller Map.empty 0" "connectionHeld s"
    by (rule demo_awaits)
  obtain c1 c2 where c: "run_next_task (demo_main True 0) 9 (db s) = (c1, None)" "queued c1 \<noteq> []"
      "run_next_task (demo_main True 0) 9 c1 = (c2, None)" "calls c2 = calls (db s) @ [ResultCall 1 (Some 0) 0 0, IdleCall]"
    using demo_delivers [OF s(3-7), of True] s(8) by auto
  have "?steps (s\<lparr>db := c1\<rparr>)"
    by (rule loop_step [OF s(1)]) (use s(2,3,10) c(1) in \<open>simp_all add: ended_def loop_does_def\<close>)
  then have "?steps (s\<lparr>db := c1\<rparr>\<lparr>db := c2\<rparr>)"
    by (rule loop_step) (use s(2,10) c in \<open>simp_all add: ended_def loop_does_def\<close>)
  then have 3: "?steps (s\<lparr>db := c2\<rparr>)" by simp
  have pr: "promised c2 = Some (Some 0, 0, 0)" using c(4) s(8) by (simp add: promised_def)
  have 4: "?steps (s\<lparr>db := c2, mpc := PrintRows\<rparr>)"
    by (rule process_steps.main [OF 3]) (simp add: main_step_def s(2) pr)
  obtain res where res: "makeResult list_lib (Some (demo_lib_obj 0)) 0 0 = Some res" "\<not> Result_empty res"
      "print_result res = (concat (map person_line [(7, ''Ann'', ''a@b'')]), None)"
    using person_result [OF demo_lib_stored, of 0 0 0] by auto
  define s5 where "s5 = s\<lparr>db := c2, printed := concat (map person_line [(7, ''Ann'', ''a@b'')]), mpc := CallQuit\<rparr>"
  have 5: "?steps s5"
    by (rule process_steps.main [OF 4]) (simp add: main_step_def pr res s5_def del: person_line.simps)
  then show ?thesis using that [of s5 0 0] pr s(10) by (simp add: s5_def)
qed

theorem main_prints_persons_witness:
  "\<exists>s. process_steps (demo_main True 0) 9 list_lib demo_lib_obj demo_start s \<and> mpc s = CallQuit \<and>
     connectionEstablished s \<and> printed s = ''Row: 7, Ann, a@b''"
proof -
  obtain s a i where s: "process_steps (demo_main True 0) 9 list_lib demo_lib_obj demo_start s" "mpc s = CallQuit"
    "promised (db s) = Some (Some 0, a, i)" "connectionHeld s"
    by (rule demo_printed)
  have "connectionEstablished s \<and> printed s = concat (map person_line [(7, ''Ann'', ''a@b'')])"
    using main_prints_persons [OF _ demo_start s(1)] demo_lib_stored [of 0] s(2,3)
    by (auto simp del: person_row.simps person_line.simps list.map concat.simps)
  moreover have "concat (map person_line [(7, ''Ann'', ''a@b'')]) = ''Row: 7, Ann, a@b''"
    by (simp add: to_string_def dec_digits.simps [of 7] char_of_def bit_0)
  ultimately show ?thesis using s(1,2) by auto
qed

theorem connection_let_go_last_witness:
  "\<exists>s. process_steps (demo_main True 0) 9 list_lib demo_lib_obj demo_start s \<and> \<not> connectionHeld s \<and>
     promised (db s) \<noteq> None \<and> main_step (demo_main True 0) 9 list_lib demo_lib_obj s = Some s"
proof -
  let ?steps = "process_steps (demo_main True 0) 9 list_lib demo_lib_obj demo_start"
  obtain s a i where s: "?steps s" "mpc s = CallQuit" "promised (db s) = Some (Some 0, a, i)" "connectionHeld s"
    by (rule demo_printed)
  have "?steps (s\<lparr>quitAsked := True, mpc := Spin\<rparr>)"
    by (rule process_steps.main [OF s(1)]) (simp add: main_step_def s(2))
  then have l: "?steps (after_quit (s\<lparr>quitAsked := True, mpc := Spin\<rparr>))"
    by (rule process_steps.leave) (simp_all add: ended_def s(4))
  from connection_let_go_last [OF _ demo_start l] l show ?thesis by fastforce
qed

theorem main_waits_forever_after_error_witness:
  "\<exists>s x. process_steps (demo_main False 1) 9 list_lib demo_lib_obj demo_start s \<and> mpc s = AwaitResult \<and>
     told (db s) = [ExceptCall 2 x, IdleCall] \<and> printed s = []"
proof -
  let ?steps = "process_steps (demo_main False 1) 9 list_lib demo_lib_obj demo_start"
  obtain s where s: "?steps s" "mpc s = AwaitResult"
    "queued (db s) = [main_task]" "mysql (db s) = Some 0" "\<not> isWorking (db s)" "idleSet (db s)"
    "disp (db s) = Some demo_d" "calls (db s) = [OkCall]" "pl (db s) = mk_EpollPoller Map.empty 0" "connectionHeld s"
    by (rule demo_awaits)
  obtain c1 c2 x where c: "run_next_task (demo_main False 1) 9 (db s) = (c1, None)" "queued c1 \<noteq> []"
      "run_next_task (demo_main False 1) 9 c1 = (c2, None)" "calls c2 = calls (db s) @ [ExceptCall 2 x, IdleCall]"
    using demo_fails [OF s(3-7,9)] by blast
  have "?steps (s\<lparr>db := c1\<rparr>)"
    by (rule loop_step [OF s(1)]) (use s(2,3,10) c(1) in \<open>simp_all add: ended_def loop_does_def\<close>)
  then have "?steps (s\<lparr>db := c1\<rparr>\<lparr>db := c2\<rparr>)"
    by (rule loop_step) (use s(2,10) c in \<open>simp_all add: ended_def loop_does_def\<close>)
  then have 3: "?steps (s\<lparr>db := c2\<rparr>)" by simp
  have t: "told (db (s\<lparr>db := c2\<rparr>)) = [ExceptCall 2 x, IdleCall]" using c(4) s(8) by (simp add: told_def)
  have "printed (s\<lparr>db := c2\<rparr>) = []"
    using main_waits_forever_after_error [OF _ demo_start 3 _ t process_steps.start] s(2) by simp
  then show ?thesis using 3 s(2) t by (intro exI [of _ "s\<lparr>db := c2\<rparr>"] exI [of _ x]) simp
qed

theorem main_misses_connection_witness:
  "\<exists>s s'. process_steps (demo_main True 0) 9 list_lib demo_lib_obj demo_start s \<and> mpc s = CallSetOk \<and>
     cstatus (db s) = ConnOk \<and> process_steps (demo_main True 0) 9 list_lib demo_lib_obj s s' \<and> mpc s' = Returned (- 1)"
proof -
  let ?steps = "process_steps (demo_main True 0) 9 list_lib demo_lib_obj"
  obtain s where s: "?steps demo_start s" "mpc s = CallSetOk" "printed s = []"
    "queued (db s) = [InitTask]" "mysql (db s) = Some 0" "okSet (db s)" "calls (db s) = []"
    "pl (db s) = mk_EpollPoller Map.empty 0" "\<not> isWorking (db s)" "idleSet (db s)" "connectionHeld s"
    by (rule demo_asked)
  have "\<not> ended s" by (simp add: s(2) ended_def)
  then obtain c where c: "?steps demo_start (s\<lparr>db := c\<rparr>)" "queued c = []" "calls c = [OkCall]" "cstatus c = ConnOk"
    by (rule demo_made [OF s(1)]) (use s in simp_all)
  let ?s = "s\<lparr>db := c\<rparr>"
  define s1 where "s1 = ?s\<lparr>db := setConnCloseCallback True (setOkCallback True c), okFrom := Some 1, mpc := CheckEstablished\<rparr>"
  have "?steps ?s (?s\<lparr>db := setOkCallback True c, okFrom := Some 1, mpc := CallSetClose\<rparr>)"
    by (rule process_steps.main [OF process_steps.start]) (simp add: main_step_def s(2) c(3))
  then have "?steps ?s s1"
    by (rule process_steps.main) (simp add: main_step_def s1_def)
  moreover obtain s2 where s2: "main_step (demo_main True 0) 9 list_lib demo_lib_obj s1 = Some s2"
      "mpc s2 \<in> {CallExec, Returned (- 1)}"
    by (simp add: main_step_def s1_def)
  ultimately have 2: "?steps ?s s2" by (blast intro: process_steps.main)
  have "mpc s2 = Returned (- 1)"
    using main_misses_connection [OF _ demo_start c(1) _ _ _ 2] s(2) s2(2) c(2,4) by auto
  then show ?thesis using c 2 s(2) by (intro exI [of _ ?s] exI [of _ s2]) simp
qed

end
