(* ===== verification/DateTime.thy ===== *)
theory DateTime
  imports Decimal Utils "HOL-Library.Signed_Division"
begin

text \<open>
  The time points of \<^verbatim>\<open>time/DateTime.h\<close> and \<^verbatim>\<open>time/DateTime.cpp\<close>: microseconds since the epoch,
  their text in several layouts and the reader of the layout of databases.  Division of
  integers is that of C, which truncates.

  The calendar functions of the C library are the record \<open>clib\<close>; the time zone is in them.  A
  count of seconds given as a \<^verbatim>\<open>double\<close> is a whole number here: the program only shifts by the
  offset of the time zone, which is one, and sums below $2^{53}$ microseconds are exact.
\<close>

section \<open>The C library\<close>

record tm =
  tm_sec :: int
  tm_min :: int
  tm_hour :: int
  tm_mday :: int
  tm_mon :: int
  tm_year :: int
  tm_isdst :: int

record clib =
  gmtime :: "int \<Rightarrow> tm"
  localtime :: "int \<Rightarrow> tm"
  mktime :: "tm \<Rightarrow> int"
  strftime :: "nat \<Rightarrow> string \<Rightarrow> tm \<Rightarrow> string"

text \<open>The conversions \<^verbatim>\<open>%0nd\<close> and \<^verbatim>\<open>%nd\<close> of \<^verbatim>\<open>snprintf\<close>.\<close>

definition pad_zero :: "nat \<Rightarrow> int \<Rightarrow> string" where
  "pad_zero n i =
     (let ds = dec_digits (nat \<bar>i\<bar>) in
      if i < 0 then CHR ''-'' # replicate (n - 1 - length ds) CHR ''0'' @ ds
      else replicate (n - length ds) CHR ''0'' @ ds)"

definition pad_blank :: "nat \<Rightarrow> int \<Rightarrow> string" where
  "pad_blank n i = replicate (n - length (to_string i)) CHR '' '' @ to_string i"

section \<open>Time points\<close>

datatype datetime = Micros (microSecondsSinceEpoch: int)

definition MICRO_SECONDS_PRE_SEC :: int where
  "MICRO_SECONDS_PRE_SEC = 1000000"

definition mk_DateTime :: "int \<Rightarrow> datetime" where
  "mk_DateTime microSec = Micros microSec"

text \<open>The constructor from calendar fields: unsigned arithmetic into the signed fields of \<^verbatim>\<open>tm\<close>.\<close>

definition DateTime_of_fields ::
  "clib \<Rightarrow> 32 word \<Rightarrow> 32 word \<Rightarrow> 32 word \<Rightarrow> 32 word \<Rightarrow> 32 word \<Rightarrow> 32 word \<Rightarrow> 32 word \<Rightarrow> datetime" where
  "DateTime_of_fields lib year month day hour minute second microSecond =
     (let epoch = mktime lib \<lparr>tm_sec = sint second, tm_min = sint minute, tm_hour = sint hour,
                   tm_mday = sint day, tm_mon = sint (month - 1), tm_year = sint (year - 1900), tm_isdst = -1\<rparr>
      in mk_DateTime (epoch * MICRO_SECONDS_PRE_SEC + uint microSecond))"

definition date_now :: "int \<Rightarrow> int \<Rightarrow> datetime" where
  "date_now tv_sec tv_usec = mk_DateTime (tv_sec * MICRO_SECONDS_PRE_SEC + tv_usec)"

definition dt_after :: "int \<Rightarrow> datetime \<Rightarrow> datetime" where
  "dt_after second d = mk_DateTime (microSecondsSinceEpoch d + second * MICRO_SECONDS_PRE_SEC)"

definition roundSecond :: "datetime \<Rightarrow> datetime" where
  "roundSecond d =
     mk_DateTime (microSecondsSinceEpoch d - microSecondsSinceEpoch d smod MICRO_SECONDS_PRE_SEC)"

definition secondsSinceEpoch :: "datetime \<Rightarrow> int" where
  "secondsSinceEpoch d = microSecondsSinceEpoch d sdiv MICRO_SECONDS_PRE_SEC"

definition roundDay :: "clib \<Rightarrow> datetime \<Rightarrow> datetime" where
  "roundDay lib d =
     (let seconds = microSecondsSinceEpoch d sdiv MICRO_SECONDS_PRE_SEC;
          t = localtime lib seconds
      in mk_DateTime (mktime lib (t\<lparr>tm_hour := 0, tm_min := 0, tm_sec := 0\<rparr>) * MICRO_SECONDS_PRE_SEC))"

definition tmStruct :: "clib \<Rightarrow> datetime \<Rightarrow> tm" where
  "tmStruct lib d = gmtime lib (microSecondsSinceEpoch d sdiv MICRO_SECONDS_PRE_SEC)"

definition dt_eq :: "datetime \<Rightarrow> datetime \<Rightarrow> bool" where
  "dt_eq d date \<longleftrightarrow> microSecondsSinceEpoch d = microSecondsSinceEpoch date"

definition dt_less :: "datetime \<Rightarrow> datetime \<Rightarrow> bool" where
  "dt_less d date \<longleftrightarrow> microSecondsSinceEpoch d < microSecondsSinceEpoch date"

definition dt_leq :: "datetime \<Rightarrow> datetime \<Rightarrow> bool" where
  "dt_leq d date \<longleftrightarrow> microSecondsSinceEpoch d \<le> microSecondsSinceEpoch date"

definition isSameSecond :: "datetime \<Rightarrow> datetime \<Rightarrow> bool" where
  "isSameSecond d date \<longleftrightarrow>
     microSecondsSinceEpoch d sdiv MICRO_SECONDS_PRE_SEC = microSecondsSinceEpoch date sdiv MICRO_SECONDS_PRE_SEC"

definition dt_swap :: "datetime \<Rightarrow> datetime \<Rightarrow> datetime \<times> datetime" where
  "dt_swap d that =
     (mk_DateTime (microSecondsSinceEpoch that), mk_DateTime (microSecondsSinceEpoch d))"

text \<open>The six comparison operators of the class are a linear order.\<close>

instantiation datetime :: linorder
begin

definition less_eq_datetime :: "datetime \<Rightarrow> datetime \<Rightarrow> bool" where
  "less_eq_datetime d date \<longleftrightarrow> dt_leq d date"

definition less_datetime :: "datetime \<Rightarrow> datetime \<Rightarrow> bool" where
  "less_datetime d date \<longleftrightarrow> dt_less d date"

instance
  by standard (auto simp: less_eq_datetime_def less_datetime_def dt_leq_def dt_less_def datetime.expand)

end

lemma dt_compare: "dt_eq d e \<longleftrightarrow> d = e" "dt_less d e \<longleftrightarrow> d < e" "dt_leq d e \<longleftrightarrow> d \<le> e"
  by (auto simp: dt_eq_def less_eq_datetime_def less_datetime_def datetime.expand)

section \<open>Text\<close>

definition clock_text :: "tm \<Rightarrow> string" where
  "clock_text t = pad_zero 2 (tm_hour t) @ '':'' @ pad_zero 2 (tm_min t) @ '':'' @ pad_zero 2 (tm_sec t)"

definition compact_text :: "tm \<Rightarrow> string" where
  "compact_text t =
     pad_blank 4 (tm_year t + 1900) @ pad_zero 2 (tm_mon t + 1) @ pad_zero 2 (tm_mday t) @ '' '' @ clock_text t"

definition micros_text :: "datetime \<Rightarrow> string" where
  "micros_text d = ''.'' @ pad_zero 6 (microSecondsSinceEpoch d smod MICRO_SECONDS_PRE_SEC)"

definition toFormattedString :: "clib \<Rightarrow> datetime \<Rightarrow> bool \<Rightarrow> string" where
  "toFormattedString lib d showMicroseconds =
     (let t = gmtime lib (microSecondsSinceEpoch d sdiv MICRO_SECONDS_PRE_SEC) in
      if showMicroseconds then compact_text t @ micros_text d else compact_text t)"

definition toFormattedStringLocal :: "clib \<Rightarrow> datetime \<Rightarrow> bool \<Rightarrow> string" where
  "toFormattedStringLocal lib d showMicroseconds =
     (let t = localtime lib (microSecondsSinceEpoch d sdiv MICRO_SECONDS_PRE_SEC) in
      if showMicroseconds then compact_text t @ micros_text d else compact_text t)"

definition toCustomFormattedString :: "clib \<Rightarrow> datetime \<Rightarrow> string \<Rightarrow> bool \<Rightarrow> string" where
  "toCustomFormattedString lib d fmtStr showMicroseconds =
     (let buf = strftime lib 256 fmtStr (gmtime lib (microSecondsSinceEpoch d sdiv MICRO_SECONDS_PRE_SEC)) in
      if \<not> showMicroseconds then buf else buf @ micros_text d)"

definition toCustomFormattedString_buf :: "clib \<Rightarrow> datetime \<Rightarrow> string \<Rightarrow> nat \<Rightarrow> string" where
  "toCustomFormattedString_buf lib d fmtStr len =
     strftime lib len fmtStr (gmtime lib (microSecondsSinceEpoch d sdiv MICRO_SECONDS_PRE_SEC))"

definition toCustomFormattedStringLocal :: "clib \<Rightarrow> datetime \<Rightarrow> string \<Rightarrow> bool \<Rightarrow> string" where
  "toCustomFormattedStringLocal lib d fmtStr showMicroseconds =
     (let buf = strftime lib 256 fmtStr (localtime lib (microSecondsSinceEpoch d sdiv MICRO_SECONDS_PRE_SEC)) in
      if \<not> showMicroseconds then buf else buf @ micros_text d)"

definition date_text :: "tm \<Rightarrow> string" where
  "date_text t =
     pad_blank 4 (tm_year t + 1900) @ ''-'' @ pad_zero 2 (tm_mon t + 1) @ ''-'' @ pad_zero 2 (tm_mday t)"

definition toDbStringLocal :: "clib \<Rightarrow> datetime \<Rightarrow> string" where
  "toDbStringLocal lib d =
     (let t = localtime lib (microSecondsSinceEpoch d sdiv MICRO_SECONDS_PRE_SEC);
          showMicroseconds = (microSecondsSinceEpoch d smod MICRO_SECONDS_PRE_SEC \<noteq> 0)
      in if showMicroseconds then date_text t @ '' '' @ clock_text t @ micros_text d
         else if dt_eq d (roundDay lib d) then date_text t
         else date_text t @ '' '' @ clock_text t)"

text \<open>\<^verbatim>\<open>std::stol\<close> into an \<^verbatim>\<open>unsigned int\<close>.\<close>

definition stol32 :: "string \<Rightarrow> fault + 32 word" where
  "stol32 z = obind (stol z) (\<lambda>n. Inr (ucast n))"

definition six_digits :: "string \<Rightarrow> string" where
  "six_digits z = (if length z > 6 then take 6 z else z @ replicate (6 - length z) CHR ''0'')"

definition read_seconds :: "string \<Rightarrow> fault + 32 word \<times> 32 word" where
  "read_seconds z =
     (case splitString z ''.'' False of
        [] \<Rightarrow> Inl OutOfBounds
      | [x] \<Rightarrow> obind (stol32 x) (\<lambda>second. Inr (second, 0))
      | x # y # _ \<Rightarrow> obind (stol32 x) (\<lambda>second. obind (stol32 (six_digits y)) (\<lambda>us. Inr (second, us))))"

definition read_clock :: "string \<Rightarrow> fault + 32 word \<times> 32 word \<times> 32 word \<times> 32 word" where
  "read_clock z =
     (case splitString z '':'' False of
        h # m # x # _ \<Rightarrow>
          obind (stol32 h) (\<lambda>hour. obind (stol32 m) (\<lambda>minute. obind (read_seconds x) (\<lambda>(second, us).
            Inr (hour, minute, second, us))))
      | _ \<Rightarrow> Inr (0, 0, 0, 0))"

definition fromDbStringLocal :: "clib \<Rightarrow> string \<Rightarrow> fault + datetime" where
  "fromDbStringLocal lib z =
     (case splitString z '' '' False of
        [d, t] \<Rightarrow>
          (case splitString d ''-'' False of
             [y, m, dd] \<Rightarrow>
               obind (stol32 y) (\<lambda>year. obind (stol32 m) (\<lambda>month. obind (stol32 dd) (\<lambda>day.
                 obind (read_clock t) (\<lambda>(hour, minute, second, us).
                   Inr (DateTime_of_fields lib year month day hour minute second us)))))
           | _ \<Rightarrow> Inr (DateTime_of_fields lib 0 0 0 0 0 0 0))
      | _ \<Rightarrow> Inr (DateTime_of_fields lib 0 0 0 0 0 0 0))"

definition timezoneOffset :: "clib \<Rightarrow> fault + int" where
  "timezoneOffset lib =
     obind (fromDbStringLocal lib ''1970-01-03 00:00:00'') (\<lambda>d. Inr (- (secondsSinceEpoch d - 2 * 3600 * 24)))"

definition toDbString :: "clib \<Rightarrow> datetime \<Rightarrow> fault + string" where
  "toDbString lib d = obind (timezoneOffset lib) (\<lambda>off. Inr (toDbStringLocal lib (dt_after (- off) d)))"

definition fromDbString :: "clib \<Rightarrow> string \<Rightarrow> fault + datetime" where
  "fromDbString lib z =
     obind (fromDbStringLocal lib z) (\<lambda>d. obind (timezoneOffset lib) (\<lambda>off. Inr (dt_after off d)))"

section \<open>Reading what was printed\<close>

lemma sdiv_nonneg: "0 \<le> a \<Longrightarrow> a sdiv MICRO_SECONDS_PRE_SEC = a div 1000000"
  and smod_nonneg: "0 \<le> a \<Longrightarrow> a smod MICRO_SECONDS_PRE_SEC = a mod 1000000"
  by (cases "a = 0"; simp add: signed_divide_int_def signed_modulo_int_def MICRO_SECONDS_PRE_SEC_def)+

text \<open>A text of digits, at least one.\<close>

definition numeric :: "string \<Rightarrow> bool" where
  "numeric z \<longleftrightarrow> z \<noteq> [] \<and> list_all is_digit z"

lemma numeric_pad_zero: "0 \<le> i \<Longrightarrow> numeric (pad_zero n i)"
  using dec_digits_starts [of "nat i"] dec_digits_all [of "nat i"]
  by (auto simp: numeric_def pad_zero_def Let_def list_all_iff is_digit_def)

lemma numeric_to_string: "0 \<le> i \<Longrightarrow> numeric (to_string i)"
  using dec_digits_starts [of "nat i"] dec_digits_all [of "nat i"]
  by (auto simp: numeric_def to_string_def)

lemma numeric_no: "numeric z \<Longrightarrow> \<not> is_digit c \<Longrightarrow> c \<notin> set z"
  by (auto simp: numeric_def list_all_iff)

lemma number_pad_zero: "0 \<le> i \<Longrightarrow> number (pad_zero n i) = Some i"
  by (simp add: pad_zero_def Let_def number_zeros)

lemma stol32_number:
  assumes "number z = Some i" and "0 \<le> i" and "i < 2 ^ 32"
  shows "stol32 z = Inr (word_of_int i)"
proof -
  have "ucast (word_of_int i :: 64 word) = (word_of_int i :: 32 word)"
    by (rule ucast_down_wi) (simp add: is_down)
  then show ?thesis using assms by (simp add: stol32_def stol_def checked_def)
qed

lemma stol32_pad_zero: "0 \<le> i \<Longrightarrow> i < 2 ^ 32 \<Longrightarrow> stol32 (pad_zero n i) = Inr (word_of_int i)"
  by (rule stol32_number [OF number_pad_zero])

lemma stol32_to_string: "0 \<le> i \<Longrightarrow> i < 2 ^ 32 \<Longrightarrow> stol32 (to_string i) = Inr (word_of_int i)"
  by (rule stol32_number [OF number_to_string])

lemma separators: "\<not> is_digit CHR '' ''" "\<not> is_digit CHR ''-''" "\<not> is_digit CHR '':''" "\<not> is_digit CHR ''.''"
  by (simp_all add: is_digit_def)

lemma split3:
  assumes "numeric a" "numeric b" "c \<notin> set z" "z \<noteq> []" "\<not> is_digit c"
  shows "splitString (a @ [c] @ b @ [c] @ z) [c] False = [a, b, z]"
  using split_join_default [of "[a, b, z]" c] assms numeric_no [of _ c] by (auto simp: numeric_def)

lemma split2:
  assumes "c \<notin> set a" "a \<noteq> []" "c \<notin> set z" "z \<noteq> []"
  shows "splitString (a @ [c] @ z) [c] False = [a, z]"
  using split_join_default [of "[a, z]" c] assms by auto

lemma split1:
  assumes "c \<notin> set a" "a \<noteq> []"
  shows "splitString a [c] False = [a]"
  using split_join_default [of "[a]" c] assms by auto

text \<open>Leading separators add empty pieces, which are dropped.\<close>

lemma split_leading: "splitString (replicate k c @ z) [c] False = splitString z [c] False"
proof (induction k)
  case (Suc k)
  let ?z = "replicate k c @ z"
  have j: "c # ?z = join [c] ([] # splitString ?z [c] True)" "?z = join [c] (splitString ?z [c] True)"
    using join_pieces [of 0 ?z "[c]"] pieces_nonempty [of "[c]" ?z 0]
    by (simp_all add: splitString_pieces kept_pieces_def join_Cons)
  have no: "\<forall>x \<in> set (splitString ?z [c] True). c \<notin> set x"
    using split_pieces_no_delimiter [of "[c]" _ ?z True] by (fastforce simp: occurs_at_single in_set_conv_nth)
  have ne: "splitString ?z [c] True \<noteq> []"
    using pieces_nonempty [of "[c]" ?z 0] by (simp add: splitString_pieces kept_pieces_def)
  have "splitString (c # ?z) [c] False = filter (\<lambda>p. p \<noteq> []) (splitString ?z [c] True)"
    using split_join_default [of "[] # splitString ?z [c] True" c] no j(1) by simp
  also have "\<dots> = splitString ?z [c] False"
    using split_join_default [OF ne no] j(2) by simp
  finally show ?case using Suc.IH by simp
qed simp

lemma read_seconds_plain: "numeric x \<Longrightarrow> read_seconds x = obind (stol32 x) (\<lambda>second. Inr (second, 0))"
  using split1 [of "CHR ''.''" x] numeric_no [of x "CHR ''.''"] separators
  by (simp add: read_seconds_def numeric_def)

lemma read_seconds_micros:
  assumes "numeric x" "numeric y" "length y = 6"
  shows "read_seconds (x @ ''.'' @ y) = obind (stol32 x) (\<lambda>second. obind (stol32 y) (\<lambda>us. Inr (second, us)))"
  using split2 [of "CHR ''.''" x y] numeric_no [of _ "CHR ''.''"] separators assms
  by (simp add: read_seconds_def numeric_def six_digits_def)

text \<open>The fields of a valid local time.\<close>

definition tm_ok :: "tm \<Rightarrow> bool" where
  "tm_ok t \<longleftrightarrow> 0 \<le> tm_year t + 1900 \<and> tm_year t + 1900 < 2 ^ 31 \<and> 0 \<le> tm_mon t \<and> tm_mon t < 12 \<and>
     1 \<le> tm_mday t \<and> tm_mday t \<le> 31 \<and> 0 \<le> tm_hour t \<and> tm_hour t < 24 \<and>
     0 \<le> tm_min t \<and> tm_min t < 60 \<and> 0 \<le> tm_sec t \<and> tm_sec t \<le> 60"

lemma read_clock_text:
  assumes "tm_ok t"
  shows "read_clock (clock_text t) =
      Inr (word_of_int (tm_hour t), word_of_int (tm_min t), word_of_int (tm_sec t), 0)"
    and "0 \<le> u \<Longrightarrow> u < 1000000 \<Longrightarrow> read_clock (clock_text t @ ''.'' @ pad_zero 6 u) =
      Inr (word_of_int (tm_hour t), word_of_int (tm_min t), word_of_int (tm_sec t), word_of_int u)"
proof -
  have n: "numeric (pad_zero 2 (tm_hour t))" "numeric (pad_zero 2 (tm_min t))" "numeric (pad_zero 2 (tm_sec t))"
    using assms by (simp_all add: numeric_pad_zero tm_ok_def)
  have r: "stol32 (pad_zero 2 (tm_hour t)) = Inr (word_of_int (tm_hour t))"
    "stol32 (pad_zero 2 (tm_min t)) = Inr (word_of_int (tm_min t))"
    "stol32 (pad_zero 2 (tm_sec t)) = Inr (word_of_int (tm_sec t))"
    using assms by (simp_all add: stol32_pad_zero tm_ok_def)
  have c: "clock_text t @ z = pad_zero 2 (tm_hour t) @ '':'' @ pad_zero 2 (tm_min t) @ '':'' @ (pad_zero 2 (tm_sec t) @ z)"
    for z by (simp add: clock_text_def)
  show "read_clock (clock_text t) =
      Inr (word_of_int (tm_hour t), word_of_int (tm_min t), word_of_int (tm_sec t), 0)"
    using split3 [OF n(1,2), of "CHR '':''" "pad_zero 2 (tm_sec t)"] numeric_no [OF n(3) separators(3)] n(3)
      separators(3) c [of "[]"]
    by (simp add: read_clock_def r read_seconds_plain numeric_def)
  assume u: "0 \<le> u" "u < 1000000"
  have nu: "numeric (pad_zero 6 u)" using u by (simp add: numeric_pad_zero)
  have "length (dec_digits (nat u)) \<le> 6"
    using dec_digits_length [of "nat u" 6] u by simp
  then have len: "length (pad_zero 6 u) = 6" using u by (simp add: pad_zero_def Let_def)
  have us: "stol32 (pad_zero 6 u) = Inr (word_of_int u)" using u by (simp add: stol32_pad_zero)
  have "CHR '':'' \<notin> set (pad_zero 2 (tm_sec t) @ ''.'' @ pad_zero 6 u)"
    using numeric_no [OF n(3) separators(3)] numeric_no [OF nu separators(3)] by simp
  then show "read_clock (clock_text t @ ''.'' @ pad_zero 6 u) =
      Inr (word_of_int (tm_hour t), word_of_int (tm_min t), word_of_int (tm_sec t), word_of_int u)"
    using split3 [OF n(1,2), of "CHR '':''" "pad_zero 2 (tm_sec t) @ ''.'' @ pad_zero 6 u"] separators(3)
      c [of "''.'' @ pad_zero 6 u"] read_seconds_micros [OF n(3) nu len]
    by (simp add: read_clock_def r us)
qed

text \<open>A date and a clock part, separated by a blank, read back as the fields they were printed from.\<close>

lemma read_date_clock:
  assumes "tm_ok t" and "CHR '' '' \<notin> set z" and "z \<noteq> []"
  shows "fromDbStringLocal lib (date_text t @ '' '' @ z) =
    obind (read_clock z) (\<lambda>(h, m, x, u).
      Inr (DateTime_of_fields lib (word_of_int (tm_year t + 1900)) (word_of_int (tm_mon t + 1))
            (word_of_int (tm_mday t)) h m x u))"
proof -
  let ?y = "to_string (tm_year t + 1900)" and ?m = "pad_zero 2 (tm_mon t + 1)" and ?d = "pad_zero 2 (tm_mday t)"
  have n: "numeric ?y" "numeric ?m" "numeric ?d"
    using assms(1) by (simp_all add: numeric_pad_zero numeric_to_string tm_ok_def)
  have r: "stol32 ?y = Inr (word_of_int (tm_year t + 1900))" "stol32 ?m = Inr (word_of_int (tm_mon t + 1))"
      "stol32 ?d = Inr (word_of_int (tm_mday t))"
    using assms(1) by (simp_all add: stol32_pad_zero stol32_to_string tm_ok_def)
  have date: "splitString (?y @ ''-'' @ ?m @ ''-'' @ ?d) ''-'' False = [?y, ?m, ?d]"
    using split3 [OF n(1,2) numeric_no [OF n(3) separators(2)] _ separators(2)] n(3) by (simp add: numeric_def)
  have "CHR '' '' \<notin> set (?y @ ''-'' @ ?m @ ''-'' @ ?d)"
    using n [THEN numeric_no, OF separators(1)] by simp
  then have "splitString ((?y @ ''-'' @ ?m @ ''-'' @ ?d) @ '' '' @ z) '' '' False = [?y @ ''-'' @ ?m @ ''-'' @ ?d, z]"
    using split2 [of "CHR '' ''" "?y @ ''-'' @ ?m @ ''-'' @ ?d" z] assms(2,3) by simp
  moreover have "date_text t @ '' '' @ z =
      replicate (4 - length ?y) CHR '' '' @ (?y @ ''-'' @ ?m @ ''-'' @ ?d) @ '' '' @ z"
    by (simp add: date_text_def pad_blank_def)
  ultimately have "splitString (date_text t @ '' '' @ z) '' '' False = [?y @ ''-'' @ ?m @ ''-'' @ ?d, z]"
    by (simp only: split_leading)
  then show ?thesis using date r by (simp add: fromDbStringLocal_def)
qed


section \<open>Time zones\<close>

text \<open>
  What the C library promises of the local time of the seconds in \<open>valid\<close>: fields in their
  ranges, and \<^verbatim>\<open>mktime\<close> as the inverse of \<^verbatim>\<open>localtime\<close> when it is left to find out whether
  daylight saving time was in effect.  The hour that a clock change repeats is not valid.
\<close>

locale time_zone =
  fixes lib :: clib and valid :: "int \<Rightarrow> bool"
  assumes fields_ok: "valid t \<Longrightarrow> tm_ok (localtime lib t)"
    and mktime_localtime: "valid t \<Longrightarrow> mktime lib ((localtime lib t)\<lparr>tm_isdst := -1\<rparr>) = t"
begin

lemma fields_back:
  assumes "valid t"
  shows "DateTime_of_fields lib (word_of_int (tm_year (localtime lib t) + 1900)) (word_of_int (tm_mon (localtime lib t) + 1))
      (word_of_int (tm_mday (localtime lib t))) (word_of_int (tm_hour (localtime lib t)))
      (word_of_int (tm_min (localtime lib t))) (word_of_int (tm_sec (localtime lib t))) us =
    mk_DateTime (t * MICRO_SECONDS_PRE_SEC + uint us)"
proof -
  let ?t = "localtime lib t"
  have ok: "tm_ok ?t" using assms by (rule fields_ok)
  have s: "sint (word_of_int i :: 32 word) = i" if "- (2 ^ 31) \<le> i" "i < 2 ^ 31" for i
    using that by (simp add: sint_sbintrunc' signed_take_bit_int_eq_self)
  have y: "sint (word_of_int (tm_year ?t + 1900) - 1900 :: 32 word) = tm_year ?t"
    using s [of "tm_year ?t"] ok by (simp add: tm_ok_def)
  have m: "sint (word_of_int (tm_mon ?t + 1) - 1 :: 32 word) = tm_mon ?t"
    using s [of "tm_mon ?t"] ok by (simp add: tm_ok_def)
  have fields: "\<lparr>tm_sec = tm_sec ?t, tm_min = tm_min ?t, tm_hour = tm_hour ?t, tm_mday = tm_mday ?t,
      tm_mon = tm_mon ?t, tm_year = tm_year ?t, tm_isdst = -1\<rparr> = ?t\<lparr>tm_isdst := -1\<rparr>"
    by simp
  show ?thesis
    using mktime_localtime [OF assms] y m s [of "tm_mday ?t"] s [of "tm_hour ?t"] s [of "tm_min ?t"] s [of "tm_sec ?t"] ok
    by (simp add: DateTime_of_fields_def tm_ok_def fields)
qed

text \<open>A time point that is not printed as a bare date reads back as itself.\<close>

lemma read_print:
  assumes m: "0 \<le> m" "valid (m div 1000000)"
    and clock: "m mod 1000000 \<noteq> 0 \<or> roundDay lib (mk_DateTime m) \<noteq> mk_DateTime m"
  shows "fromDbStringLocal lib (toDbStringLocal lib (mk_DateTime m)) = Inr (mk_DateTime m)"
proof -
  let ?t = "localtime lib (m div 1000000)"
  have ok: "tm_ok ?t" using m(2) by (rule fields_ok)
  have n: "numeric (pad_zero 2 (tm_hour ?t))" "numeric (pad_zero 2 (tm_min ?t))"
      "numeric (pad_zero 2 (tm_sec ?t))" "numeric (pad_zero 6 (m mod 1000000))"
    using ok by (simp_all add: tm_ok_def numeric_pad_zero)
  have blank: "CHR '' '' \<notin> set (clock_text ?t)" "CHR '' '' \<notin> set (clock_text ?t @ ''.'' @ pad_zero 6 (m mod 1000000))"
    using n [THEN numeric_no, OF separators(1)] by (simp_all add: clock_text_def)
  have ne: "clock_text ?t \<noteq> []" by (simp add: clock_text_def)
  have total: "m div 1000000 * MICRO_SECONDS_PRE_SEC + m mod 1000000 = m"
    by (simp add: MICRO_SECONDS_PRE_SEC_def)
  have us: "uint (word_of_int (m mod 1000000) :: 32 word) = m mod 1000000"
    by (simp add: uint_word_of_int_eq take_bit_int_eq_self)
  show ?thesis
  proof (cases "m mod 1000000 = 0")
    case True
    then have "toDbStringLocal lib (mk_DateTime m) = date_text ?t @ '' '' @ clock_text ?t"
      using m clock by (auto simp: toDbStringLocal_def dt_compare(1) Let_def mk_DateTime_def sdiv_nonneg smod_nonneg)
    moreover have "read_clock (clock_text ?t) =
        Inr (word_of_int (tm_hour ?t), word_of_int (tm_min ?t), word_of_int (tm_sec ?t), 0)"
      using ok by (rule read_clock_text)
    ultimately show ?thesis
      using read_date_clock [OF ok blank(1) ne] fields_back [OF m(2), of 0] total True by simp
  next
    case False
    then have "toDbStringLocal lib (mk_DateTime m) =
        date_text ?t @ '' '' @ (clock_text ?t @ ''.'' @ pad_zero 6 (m mod 1000000))"
      using m by (simp add: toDbStringLocal_def micros_text_def Let_def mk_DateTime_def sdiv_nonneg smod_nonneg)
    moreover have "read_clock (clock_text ?t @ ''.'' @ pad_zero 6 (m mod 1000000)) =
        Inr (word_of_int (tm_hour ?t), word_of_int (tm_min ?t), word_of_int (tm_sec ?t), word_of_int (m mod 1000000))"
      using ok by (rule read_clock_text) simp_all
    ultimately show ?thesis
      using read_date_clock [OF ok blank(2)] ne fields_back [OF m(2), of "word_of_int (m mod 1000000)"] total us
      by simp
  qed
qed

end


section \<open>Coordinated universal time\<close>

text \<open>
  The C library in the zone UTC: the Gregorian calendar from 1970 on, days counted over
  the lengths of years and months.
\<close>

definition leap :: "nat \<Rightarrow> bool" where
  "leap y \<longleftrightarrow> y mod 4 = 0 \<and> (y mod 100 \<noteq> 0 \<or> y mod 400 = 0)"

definition month_lengths :: "nat \<Rightarrow> nat list" where
  "month_lengths y = [31, if leap y then 29 else 28, 31, 30, 31, 30, 31, 31, 30, 31, 30, 31]"

definition year_length :: "nat \<Rightarrow> nat" where
  "year_length y = (if leap y then 366 else 365)"

lemma year_length_pos [simp]: "0 < year_length y"
  by (simp add: year_length_def)

lemma sum_month_lengths: "sum_list (month_lengths y) = year_length y"
  by (simp add: month_lengths_def year_length_def)

function year_split :: "nat \<Rightarrow> nat \<Rightarrow> nat \<times> nat" where
  "year_split y d = (if d < year_length y then (y, d) else year_split (Suc y) (d - year_length y))"
  by pat_completeness auto
termination
proof (relation "measure snd")
  fix y d :: nat
  assume "\<not> d < year_length y"
  then show "((Suc y, d - year_length y), (y, d)) \<in> measure snd"
    using year_length_pos [of y] by (simp, linarith)
qed simp

declare year_split.simps [simp del]

lemma year_split_sound:
  "year_split y d = (y', d') \<Longrightarrow>
     y \<le> y' \<and> d' < year_length y' \<and> y' \<le> y + d \<and> sum_list (map year_length [y..<y']) + d' = d"
proof (induction y d rule: year_split.induct)
  case (1 y d)
  show ?case
  proof (cases "d < year_length y")
    case True then show ?thesis using 1 by (simp add: year_split.simps)
  next
    case False
    then have "Suc y \<le> y' \<and> d' < year_length y' \<and> y' \<le> Suc y + (d - year_length y) \<and>
        sum_list (map year_length [Suc y..<y']) + d' = d - year_length y"
      using 1 by (simp add: year_split.simps)
    then show ?thesis using False year_length_pos [of y] by (auto simp: upt_conv_Cons simp del: year_length_pos)
  qed
qed

primrec month_split :: "nat list \<Rightarrow> nat \<Rightarrow> nat \<times> nat" where
  "month_split [] d = (0, d)"
| "month_split (l # ls) d = (if d < l then (0, d) else let (m, r) = month_split ls (d - l) in (Suc m, r))"

lemma month_split_sound:
  "month_split ls d = (m, r) \<Longrightarrow> d < sum_list ls \<Longrightarrow>
     m < length ls \<and> r < ls ! m \<and> sum_list (take m ls) + r = d"
proof (induction ls arbitrary: d m r)
  case (Cons l ls)
  show ?case
  proof (cases "d < l")
    case True then show ?thesis using Cons.prems by auto
  next
    case False
    then obtain m' where "month_split ls (d - l) = (m', r)" "m = Suc m'"
      using Cons.prems by (auto split: prod.splits)
    moreover from this have "m' < length ls \<and> r < ls ! m' \<and> sum_list (take m' ls) + r = d - l"
      using Cons.IH [of "d - l" m' r] Cons.prems False by simp
    ultimately show ?thesis using False by auto
  qed
qed simp

definition utc_tm :: "int \<Rightarrow> tm" where
  "utc_tm t =
     (let days = nat (t div 86400); s = t mod 86400;
          (y, d) = year_split 1970 days;
          (m, r) = month_split (month_lengths y) d
      in \<lparr>tm_sec = s mod 60, tm_min = s div 60 mod 60, tm_hour = s div 3600, tm_mday = int r + 1,
          tm_mon = int m, tm_year = int y - 1900, tm_isdst = 0\<rparr>)"

definition utc_seconds :: "tm \<Rightarrow> int" where
  "utc_seconds t =
     (let y = nat (tm_year t + 1900);
          days = int (sum_list (map year_length [1970..<y]) + sum_list (take (nat (tm_mon t)) (month_lengths y)))
      in (days + tm_mday t - 1) * 86400 + tm_hour t * 3600 + tm_min t * 60 + tm_sec t)"

definition utc_lib :: clib where
  "utc_lib = \<lparr>gmtime = utc_tm, localtime = utc_tm, mktime = utc_seconds, strftime = (\<lambda>n fmt t. take (n - 1) fmt)\<rparr>"

definition utc_valid :: "int \<Rightarrow> bool" where
  "utc_valid t \<longleftrightarrow> 0 \<le> t \<and> t \<le> 9223372036854"

lemma month_lengths_bounds: "l \<in> set (month_lengths y) \<Longrightarrow> l \<le> 31" "length (month_lengths y) = 12"
  by (auto simp: month_lengths_def)

lemma zdiv_less_24: "(t :: int) mod 86400 div 3600 < 24"
  using div_mult_mod_eq [of "t mod 86400" 3600] pos_mod_sign [of 3600 "t mod 86400"] pos_mod_bound [of 86400 t]
  by linarith

lemma clock_parts: "(s :: int) div 3600 * 3600 + s div 60 mod 60 * 60 + s mod 60 = s"
proof -
  have "s div 3600 = s div 60 div 60" using zdiv_zmult2_eq [of 60 s 60] by simp
  then show ?thesis using div_mult_mod_eq [of s 60] div_mult_mod_eq [of "s div 60" 60] by linarith
qed

lemma utc_tm_eq:
  "year_split 1970 (nat (t div 86400)) = (y, d) \<Longrightarrow> month_split (month_lengths y) d = (m, r) \<Longrightarrow>
   utc_tm t = \<lparr>tm_sec = t mod 86400 mod 60, tm_min = t mod 86400 div 60 mod 60, tm_hour = t mod 86400 div 3600,
     tm_mday = int r + 1, tm_mon = int m, tm_year = int y - 1900, tm_isdst = 0\<rparr>"
  by (simp add: utc_tm_def Let_def)

lemma utc_tm_ok:
  assumes "utc_valid t"
  shows "tm_ok (utc_tm t)"
proof -
  obtain y d where yd: "year_split 1970 (nat (t div 86400)) = (y, d)" by fastforce
  obtain m r where mr: "month_split (month_lengths y) d = (m, r)" by fastforce
  have y: "1970 \<le> y" "d < year_length y" "y \<le> 1970 + nat (t div 86400)"
    using year_split_sound [OF yd] by auto
  have m: "m < 12" "r < month_lengths y ! m"
    using month_split_sound [OF mr] y(2) by (auto simp: sum_month_lengths month_lengths_bounds)
  have "r < 31" using m month_lengths_bounds(1) [of "month_lengths y ! m" y] by (simp add: month_lengths_bounds)
  moreover have "int y < 2 ^ 31"
  proof -
    have "t div 86400 \<le> 106751991" "0 \<le> t div 86400" using assms by (auto simp: utc_valid_def)
    then show ?thesis using y(3) by simp
  qed
  moreover obtain h mi x where clock: "t mod 86400 div 3600 = h" "t mod 86400 div 60 mod 60 = mi" "t mod 86400 mod 60 = x"
    by simp
  moreover have "0 \<le> h" "h < 24" "0 \<le> mi" "mi < 60" "0 \<le> x" "x \<le> 60"
    using zdiv_less_24 [of t] pos_mod_bound [of 60 "t mod 86400"] by (simp_all add: clock [symmetric] pos_imp_zdiv_nonneg_iff)
  ultimately show ?thesis using m(1) y(1) unfolding utc_tm_eq [OF yd mr] tm_ok_def clock by simp
qed

lemma utc_seconds_tm:
  assumes "utc_valid t"
  shows "utc_seconds ((utc_tm t)\<lparr>tm_isdst := -1\<rparr>) = t"
proof -
  obtain y d where yd: "year_split 1970 (nat (t div 86400)) = (y, d)" by fastforce
  obtain m r where mr: "month_split (month_lengths y) d = (m, r)" by fastforce
  have y: "1970 \<le> y" "d < year_length y" "sum_list (map year_length [1970..<y]) + d = nat (t div 86400)"
    using year_split_sound [OF yd] by auto
  have m: "sum_list (take m (month_lengths y)) + r = d"
    using month_split_sound [OF mr] y(2) by (auto simp: sum_month_lengths)
  have "0 \<le> t div 86400" using assms by (auto simp: utc_valid_def)
  then have days: "int (sum_list (map year_length [1970..<y]) + sum_list (take m (month_lengths y))) + int r = t div 86400"
    using y(3) m by linarith
  have "utc_seconds ((utc_tm t)\<lparr>tm_isdst := -1\<rparr>) =
      (int (sum_list (map year_length [1970..<y]) + sum_list (take m (month_lengths y))) + int r) * 86400 +
      (t mod 86400 div 3600 * 3600 + t mod 86400 div 60 mod 60 * 60 + t mod 86400 mod 60)"
    unfolding utc_tm_eq [OF yd mr] utc_seconds_def Let_def by simp
  also have "\<dots> = t div 86400 * 86400 + t mod 86400"
    unfolding days clock_parts ..
  also have "\<dots> = t" by (rule div_mult_mod_eq)
  finally show ?thesis .
qed

interpretation utc: time_zone utc_lib utc_valid
  by unfold_locales (simp_all add: utc_lib_def utc_tm_ok utc_seconds_tm)


section \<open>Properties\<close>



lemma local_midnight:
  assumes "time_zone lib valid" and "0 \<le> m" and "valid (m div 1000000)"
    and "m mod 1000000 = 0" and "roundDay lib (mk_DateTime m) = mk_DateTime m"
  shows "toDbStringLocal lib (mk_DateTime m) = date_text (localtime lib (m div 1000000)) \<and>
    fromDbStringLocal lib (toDbStringLocal lib (mk_DateTime m)) = Inr (DateTime_of_fields lib 0 0 0 0 0 0 0)"
proof -
  let ?t = "localtime lib (m div 1000000)"
  have ok: "tm_ok ?t" using assms(1,3) by (simp add: time_zone.fields_ok)
  let ?d = "to_string (tm_year ?t + 1900) @ ''-'' @ pad_zero 2 (tm_mon ?t + 1) @ ''-'' @ pad_zero 2 (tm_mday ?t)"
  have printed: "toDbStringLocal lib (mk_DateTime m) = date_text ?t"
    using assms(2,4,5) by (simp add: toDbStringLocal_def dt_compare(1) Let_def mk_DateTime_def sdiv_nonneg smod_nonneg)
  have n: "numeric (to_string (tm_year ?t + 1900))" "numeric (pad_zero 2 (tm_mon ?t + 1))" "numeric (pad_zero 2 (tm_mday ?t))"
    using ok by (simp_all add: tm_ok_def numeric_pad_zero numeric_to_string)
  have "splitString ?d '' '' False = [?d]"
    using split1 [of "CHR '' ''" ?d] n [THEN numeric_no, OF separators(1)] by simp
  then have "splitString (date_text ?t) '' '' False = [?d]"
    using split_leading [of _ "CHR '' ''" ?d] by (simp add: date_text_def pad_blank_def)
  then show ?thesis using printed by (simp add: fromDbStringLocal_def)
qed

text \<open>
  A midnight of the local time zone is printed as its date alone, and the reader, which wants
  a date and a clock part, takes none of it: every midnight reads as the time point of the fields
  zero, whatever its date.
\<close>

theorem db_string_midnight_lost:
  assumes "time_zone lib valid" and "0 \<le> m" and "valid (m div 1000000)"
    and "m mod 1000000 = 0" and "roundDay lib (mk_DateTime m) = mk_DateTime m"
  shows "toDbStringLocal lib (mk_DateTime m) = date_text (localtime lib (m div 1000000)) \<and>
    fromDbStringLocal lib (toDbStringLocal lib (mk_DateTime m)) = Inr (DateTime_of_fields lib 0 0 0 0 0 0 0)"
  using assms by (rule local_midnight)

theorem db_string_midnight_lost_witness:
  "fromDbStringLocal utc_lib (toDbStringLocal utc_lib (mk_DateTime 86400000000)) =
     Inr (DateTime_of_fields utc_lib 0 0 0 0 0 0 0)"
proof -
  have "roundDay utc_lib (mk_DateTime 86400000000) = mk_DateTime 86400000000" by code_simp
  then show ?thesis
    by (rule db_string_midnight_lost [OF utc.time_zone_axioms, THEN conjunct2, rotated 3]) (simp_all add: utc_valid_def)
qed

text \<open>
  A clock part whose seconds are nothing but dots makes the reader take the first piece of an
  empty list: an access out of bounds, where a malformed number is an exception.
\<close>

theorem dotted_seconds_fault:
  assumes "tm_ok t"
  shows "fromDbStringLocal lib (date_text t @ '' '' @ pad_zero 2 (tm_hour t) @ '':'' @ pad_zero 2 (tm_min t) @ '':'' @
      replicate (Suc k) CHR ''.'') = Inl OutOfBounds"
proof -
  let ?dots = "replicate (Suc k) CHR ''.''"
  let ?clock = "pad_zero 2 (tm_hour t) @ '':'' @ pad_zero 2 (tm_min t) @ '':'' @ ?dots"
  have n: "numeric (pad_zero 2 (tm_hour t))" "numeric (pad_zero 2 (tm_min t))"
    using assms by (simp_all add: numeric_pad_zero tm_ok_def)
  have r: "stol32 (pad_zero 2 (tm_hour t)) = Inr (word_of_int (tm_hour t))"
    "stol32 (pad_zero 2 (tm_min t)) = Inr (word_of_int (tm_min t))"
    using assms by (simp_all add: stol32_pad_zero tm_ok_def)
  have "splitString ?dots ''.'' False = []"
    using split_leading [of "Suc k" "CHR ''.''" "[]"] split_join_default [of "[[]]" "CHR ''.''"] by simp
  then have "read_seconds ?dots = Inl OutOfBounds" by (simp add: read_seconds_def)
  moreover have "splitString ?clock '':'' False = [pad_zero 2 (tm_hour t), pad_zero 2 (tm_min t), ?dots]"
    by (rule split3 [OF n]) (use separators(3) in auto)
  ultimately have "read_clock ?clock = Inl OutOfBounds" by (simp add: read_clock_def r)
  moreover have "CHR '' '' \<notin> set ?clock" using n [THEN numeric_no, OF separators(1)] by simp
  ultimately show ?thesis using read_date_clock [OF assms, of ?clock] by simp
qed

definition demo_tm :: tm where
  "demo_tm = \<lparr>tm_sec = 5, tm_min = 20, tm_hour = 10, tm_mday = 12, tm_mon = 5, tm_year = 125, tm_isdst = 0\<rparr>"

theorem dotted_seconds_fault_witness:
  "tm_ok demo_tm \<and> fromDbStringLocal utc_lib (date_text demo_tm @ '' '' @ pad_zero 2 (tm_hour demo_tm) @ '':'' @
     pad_zero 2 (tm_min demo_tm) @ '':'' @ replicate (Suc 0) CHR ''.'') = Inl OutOfBounds"
proof -
  have "tm_ok demo_tm" by (simp add: demo_tm_def tm_ok_def)
  then show ?thesis using dotted_seconds_fault by blast
qed

text \<open>
  Two time points are in the same second exactly when they round to the same one; since
  division truncates, the second of the epoch is two seconds wide.
\<close>

theorem same_second_rounds:
  "(isSameSecond d e \<longleftrightarrow> dt_eq (roundSecond d) (roundSecond e)) \<and>
   (isSameSecond (mk_DateTime i) (mk_DateTime 0) \<longleftrightarrow> \<bar>i\<bar> < 1000000)"
proof -
  have "roundSecond x = mk_DateTime (microSecondsSinceEpoch x sdiv 1000000 * 1000000)" for x
    by (simp add: roundSecond_def MICRO_SECONDS_PRE_SEC_def minus_smod_eq_sdiv_mult)
  moreover have "i sdiv 1000000 = 0 \<longleftrightarrow> \<bar>i\<bar> < 1000000"
    by (auto simp: signed_divide_int_def sgn_0_0 zdiv_eq_0_iff)
  ultimately show ?thesis
    by (simp add: isSameSecond_def dt_eq_def mk_DateTime_def MICRO_SECONDS_PRE_SEC_def)
qed

text \<open>Rounding to the second keeps the order, and from the epoch on goes down by less than a second.\<close>

lemma roundSecond_order:
  "d \<le> e \<Longrightarrow> roundSecond d \<le> roundSecond e"
  "0 \<le> microSecondsSinceEpoch d \<Longrightarrow> roundSecond d \<le> d \<and> d < dt_after 1 (roundSecond d)"
proof -
  have r: "roundSecond x = mk_DateTime (microSecondsSinceEpoch x sdiv 1000000 * 1000000)" for x
    by (simp add: roundSecond_def MICRO_SECONDS_PRE_SEC_def minus_smod_eq_sdiv_mult)
  have mono: "a sdiv 1000000 \<le> b sdiv 1000000" if "a \<le> b" for a b :: int
    using that zdiv_mono1 [of a b 1000000] zdiv_mono1 [of "- b" "- a" 1000000]
    by (cases "a < 0"; cases "b < 0")
      (auto simp: signed_divide_int_def sgn_if pos_imp_zdiv_nonneg_iff intro: order_trans [of _ 0])
  show "d \<le> e \<Longrightarrow> roundSecond d \<le> roundSecond e"
    by (simp add: r less_eq_datetime_def dt_leq_def mk_DateTime_def mono)
  show "0 \<le> microSecondsSinceEpoch d \<Longrightarrow> roundSecond d \<le> d \<and> d < dt_after 1 (roundSecond d)"
  proof -
    assume "0 \<le> microSecondsSinceEpoch d"
    then have "microSecondsSinceEpoch d sdiv 1000000 = microSecondsSinceEpoch d div 1000000"
      using sdiv_nonneg by (simp add: MICRO_SECONDS_PRE_SEC_def)
    moreover have "m div 1000000 * 1000000 \<le> m \<and> m < m div 1000000 * 1000000 + 1000000" for m :: int
      using div_mult_mod_eq [of m 1000000] pos_mod_sign [of 1000000 m] pos_mod_bound [of 1000000 m] by linarith
    ultimately show ?thesis
      by (simp add: r less_eq_datetime_def less_datetime_def dt_leq_def dt_less_def dt_after_def mk_DateTime_def
          MICRO_SECONDS_PRE_SEC_def)
  qed
qed

lemma utc_offset: "timezoneOffset utc_lib = Inr 0"
  by code_simp

text \<open>
  In a zone whose offset \<^verbatim>\<open>timezoneOffset\<close> found, the strings in coordinated universal time
  read back to the microsecond, under the conditions of the local strings at the shifted time.
\<close>

theorem utc_string_roundtrip:
  assumes "time_zone lib valid" and "timezoneOffset lib = Inr off"
    and "0 \<le> m - off * 1000000" and "valid ((m - off * 1000000) div 1000000)"
    and "(m - off * 1000000) mod 1000000 \<noteq> 0 \<or>
      roundDay lib (mk_DateTime (m - off * 1000000)) \<noteq> mk_DateTime (m - off * 1000000)"
  shows "obind (toDbString lib (mk_DateTime m)) (fromDbString lib) = Inr (mk_DateTime m)"
  using time_zone.read_print [OF assms(1,3,4,5)] assms(2)
  by (simp add: toDbString_def fromDbString_def dt_after_def mk_DateTime_def MICRO_SECONDS_PRE_SEC_def)

theorem utc_string_roundtrip_witness:
  "obind (toDbString utc_lib (mk_DateTime 1000000042)) (fromDbString utc_lib) = Inr (mk_DateTime 1000000042)"
  by (rule utc_string_roundtrip [OF utc.time_zone_axioms utc_offset]) (simp_all add: utc_valid_def)

end
