(* ===== verification/Spec2Isabelle.thy ===== *)
theory Spec2Isabelle
  imports Prelude DbException Utils ArrayParser MPSCQueue MemoryOrder EventDispatcher EpollPoller TimerQueue
    EventLoop TimedLoop Scheduler LoopRefinement LoopTests EventLoopThread LoopHandshake ConnString
    Decimal MySQLConnector Statements DbResult Program DateTime
begin

text \<open>
  A model of MysqlConnectPool: an event loop for sockets, timers and closures, and on top of it
  a connection to a MySQL server that speaks through the non-blocking interface of the MariaDB
  client library, with the classes that hand out the results.

  \<^bold>\<open>Parts and theories.\<close>  Every theory is translated from the files under \<^verbatim>\<open>src/\<close> it names; a class
  is a \<^verbatim>\<open>record\<close> of its data members, a member function a definition of its name.

  \<^item> \<open>Prelude\<close>: the result monad \<open>obind\<close> (an operation returns a fault or a value), steps that keep
    the state in which they fail (\<open>act\<close>, \<open>andThen\<close>, \<open>kept\<close>), lemmas on lists and bits.
  \<^item> \<open>DbException\<close> (\<^verbatim>\<open>db/Exception.h\<close>, \<^verbatim>\<open>db/Exception.cpp\<close>): the exception classes, their base
    subobjects, constructors and handlers; and \<open>fault\<close>, the ways an operation can fail: a thrown
    exception, a failed assertion (the build never defines \<^verbatim>\<open>NDEBUG\<close>), an access that C++ leaves
    undefined, the end of the process, not returning.  \<open>scopeExit\<close> (\<^verbatim>\<open>utils/ScopeExit.h\<close>) is the guard that
    runs a function where a scope ends, also by an exception.
  \<^item> \<open>MPSCQueue\<close> (\<^verbatim>\<open>utils/MPSCQueue.h\<close>): the lock-free queue of closures, as the atomic steps of
    producers and consumer on a heap of nodes; refined to a list through the locale \<open>fifo_queue\<close>.
  \<^item> \<open>MemoryOrder\<close> (\<^verbatim>\<open>utils/MPSCQueue.h\<close>): the same steps on a memory that promises only what the code's
    memory orders say, with what each thread has seen (\<open>wsys\<close>): no data races, and every order is needed.
  \<^item> \<open>EventDispatcher\<close>, \<open>EpollPoller\<close> (\<^verbatim>\<open>event/EventDispatcher.*\<close>, \<^verbatim>\<open>poll/EpollPoller.*\<close>, and the
    three forwarding functions of \<^verbatim>\<open>event/EventLoop.cpp\<close>): the mask of a descriptor, its callbacks, and
    the kernel table behind \<^verbatim>\<open>epoll_ctl\<close>.  The locale \<open>event_registry\<close> is what a dispatcher relies
    on, \<open>epoll_kernel\<close> the documented kernel, and a \<^verbatim>\<open>sublocale\<close> derives the first from the second.
  \<^item> \<open>TimerQueue\<close> (\<^verbatim>\<open>time/Timer.*\<close>, \<^verbatim>\<open>time/TimerQueue.*\<close>): the heap of timers (locale \<open>min_queue\<close>),
    the identifiers, the timer descriptor, expiry.
  \<^item> \<open>EventLoop\<close> (\<^verbatim>\<open>event/EventLoop.*\<close>): extends the record of the timer queue by the closure queues,
    the flags, the wake-up counter and the slots of the threads; \<open>loop\<close> composes polling,
    dispatching and running closures as the code does.
  \<^item> \<open>TimedLoop\<close> (\<^verbatim>\<open>event/EventLoop.*\<close>, \<^verbatim>\<open>time/TimerQueue.cpp\<close>): the parts of the loop together, the way of
    a timer from another thread to its callback, and the destruction of a loop with its members.
  \<^item> \<open>Scheduler\<close>, \<open>LoopRefinement\<close>: what a loop is for, without descriptors, poller, heap or wake-ups: a
    multiset of alarms, a list of things to do, a counter and a flag (\<open>sched\<close>).  \<open>sched_of\<close> reads it off
    a loop, and every round of a loop whose closures are plain calls is a turn of it; what a round
    runs, in which order, and that no timer is overdue follow.
  \<^item> \<open>LoopTests\<close> (\<^verbatim>\<open>test/test_eventloop.cpp\<close>): the loop's unit tests as programs, with their outcomes.
  \<^item> \<open>EventLoopThread\<close> (\<^verbatim>\<open>event/EventLoopThread.*\<close>, \<^verbatim>\<open>event/EventLoopThreadPool.*\<close>): the handshake
    between a thread's owner and its loop as a step relation, and the pool.
  \<^item> \<open>LoopHandshake\<close>: the handshake's three flags are an abstraction of the event loop's state.
  \<^item> \<open>ConnString\<close> (\<^verbatim>\<open>db/DbConnection.cpp\<close>): the parser of connection strings over a backtracking
    matcher for its regular expression.
  \<^item> \<open>Decimal\<close>: the decimal conversions of the standard library that the program calls.
  \<^item> \<open>MySQLConnector\<close> (\<^verbatim>\<open>MySQLImpl/MySQLConnector.cpp\<close>, \<^verbatim>\<open>db/DbConnection.h\<close>, \<^verbatim>\<open>db/DbTypes.h\<close>): the
    connection's handlers, which the dispatcher of its socket and the closures of the loop call.
  \<^item> \<open>Statements\<close>: the protocol of statements over the life of a connection, an instance of the
    locale \<open>conn_invariant\<close> through which every invariant of the connection is proved; it extends
    \<open>conn_handlers\<close>, which the single statement of \<open>Program\<close> uses.
  \<^item> \<open>DbResult\<close> (\<^verbatim>\<open>MySQLImpl/MySQLResultImpl.*\<close>, \<^verbatim>\<open>db/ResultImpl.h\<close>, \<^verbatim>\<open>db/Result.*\<close>, \<^verbatim>\<open>db/Row.*\<close>,
    \<^verbatim>\<open>db/Field.*\<close>, \<^verbatim>\<open>db/ResultIterator.h\<close>, \<^verbatim>\<open>db/RowIterator.h\<close>): results behind the record of virtual
    functions \<open>result_vt\<close>, whose contract is the locale \<open>result_source\<close>; the four iterator classes
    share the loops of \<open>iterator_up\<close> and \<open>iterator_down\<close>.
  \<^item> \<open>Program\<close> (\<^verbatim>\<open>main.cpp\<close>): the main thread, call by call, interleaved with the loop's thread that runs
    the connection; its variables are read off the calls of the connection.
  \<^item> \<open>ArrayParser\<close> (\<^verbatim>\<open>db/ArrayParser.*\<close>, \<^verbatim>\<open>Field::asArray\<close>), \<open>Utils\<close> (\<^verbatim>\<open>utils/utils.cpp\<close>) and \<open>DateTime\<close>
    (\<^verbatim>\<open>time/DateTime.*\<close>): the text formats of arrays, hexadecimal bytes, separated lists and times.

  \<^bold>\<open>What is a parameter.\<close>  The kernel (\<^verbatim>\<open>epoll_ctl\<close>, the answer of \<^verbatim>\<open>epoll_wait\<close>, the clocks, readings
  of the timer descriptor), the client library (\<open>client\<close>, \<open>res_lib\<close>), the C library's calendar
  (\<open>clib\<close>), the logger's treatment of fatal messages, and the closures and callbacks of users,
  which are programs of calls on the loop or steps on the connection; the calls of other threads
  come with the times at which they are made.  What the code relies on in
  them is a locale, with an instance: \<open>epoll_kernel\<close> on a table of descriptors, \<open>time_zone\<close> on the
  Gregorian calendar in UTC, and the predicate \<open>stored\<close> for a result on a list of rows.

  \<^bold>\<open>Fuel.\<close>  User code can call back without end, so the functions that run it have fuel: in
  \<open>EventLoop\<close>, \<open>n\<close> for the depth of closures that run closures and \<open>k\<close> for the closures of one call,
  in \<open>MySQLConnector\<close>, \<open>n\<close> for the results of one statement that are there at once.  Running out is
  the fault \<open>NotReturned\<close>, never a result.  Where a property says that code returns, it states how
  much fuel is enough (the weight of the queued closures, the number of result sets) or, for a
  self-queueing closure, that none is.

  \<^bold>\<open>What the lemmas show.\<close>  For each component: its invariant and that every operation keeps it
  (\<open>mpsc_reachable\<close>, \<open>pq_sorted\<close>, \<open>tq_armed\<close>, \<open>timers_ok\<close>, \<open>wf_queues\<close>, \<open>conn_inv\<close>, \<open>stmt_inv\<close>,
  \<open>wf_impl\<close>, the
  invariants of the handshake); what each operation does on each branch; the refinements of the
  queue, the timer heap and the result to lists and of the whole loop to the scheduler; the round trips of every text format; and the
  places where the code does not do what its interface says, each with a theorem.

  \<^bold>\<open>Interaction.\<close>  \<open>MySQLConnector\<close> drives \<open>EventDispatcher\<close> through the registry, is configured by
  \<open>ConnString\<close>, and hands the library's result to \<open>DbResult\<close>; \<open>EventLoop\<close> owns the poller, the timer
  queue and the closure queues; \<open>EventLoopThread\<close> owns a loop.  The property of this theory follows a
  statement from the event on its socket to the tables its client reads; those of \<open>TimedLoop\<close> follow a
  timer through poller, dispatcher, closure queue and timer queue.

  \<^bold>\<open>Not modelled.\<close>  The vendored headers under \<^verbatim>\<open>src/third/\<close>; the class \<^verbatim>\<open>DatabaseManager\<close> without members and the
  empty file \<^verbatim>\<open>test/test_field.cpp\<close>; log output; floating-point conversions of fields and the
  generic extraction through a string stream, whose result is a parameter; weak memory outside the
  lock-free queue (\<open>MemoryOrder\<close> has its orders; the accesses to the loop's flags and
  promises are sequentially consistent steps); the allocation of strings and vectors; signed
  overflow of times.  The header of \<^verbatim>\<open>MySQLConnector\<close> is missing from the repository: its members are
  those the \<^verbatim>\<open>.cpp\<close> file uses.
\<close>

section \<open>From a statement to its tables\<close>

text \<open>
  What a client reads from the argument of its result callback: \<open>obj\<close> is the object of the library
  behind a pointer.
\<close>

definition table_of_call :: "'r res_lib \<Rightarrow> (nat \<Rightarrow> 'r) \<Rightarrow> user_call \<Rightarrow> (fault + string list list) option" where
  "table_of_call lib obj u =
     (case u of
        ResultCall c (Some p) aff ins \<Rightarrow> map_option read_table (makeResult lib (Some (obj p)) (of_nat aff) (of_nat ins))
      | _ \<Rightarrow> None)"

definition points_to :: "'r res_lib \<Rightarrow> (nat \<Rightarrow> 'r) \<Rightarrow> nat option \<Rightarrow> cell list list \<Rightarrow> bool" where
  "points_to lib obj r rows \<longleftrightarrow> (\<exists>p names. r = Some p \<and> stored lib (obj p) names rows)"

lemma table_of_result:
  assumes "points_to lib obj r rows"
  shows "table_of_call lib obj (ResultCall c r aff ins) = Some (Inr (map (map cell_text) rows))"
proof -
  obtain p names where r: "r = Some p" "stored lib (obj p) names rows" using assms by (auto simp: points_to_def)
  obtain x where x: "mk_MySQLResultImpl lib (Some (obj p)) (of_nat aff) (of_nat ins) = Some x" "wf_impl x"
      "impl_table x = rows"
    using mk_impl_result [OF r(2)] by blast
  then show ?thesis using mysql.read_all [OF x(2)] r(1) by (simp add: table_of_call_def makeResult_def)
qed

lemma tables_of_results:
  "list_all2 (points_to lib obj) (r # rs) tables \<Longrightarrow>
   map (table_of_call lib obj) (result_calls env c m r rs) = map (\<lambda>rows. Some (Inr (map (map cell_text) rows))) tables"
proof (induction rs arbitrary: m r tables)
  case Nil
  then show ?case by (auto simp: list_all2_Cons1 table_of_result)
next
  case (Cons r' rs)
  then obtain rows ts where "tables = rows # ts" "points_to lib obj r rows" "list_all2 (points_to lib obj) (r' # rs) ts"
    by (auto simp: list_all2_Cons1)
  then show ?case using Cons.IH by (simp add: table_of_result)
qed

text \<open>
  C26: from the socket's event to the client's tables.  When a statement has been sent and the
  library has its result sets ready, one event delivers them: the statement's callback is called
  once for each, in order, and looping over the result it is given yields exactly the table the
  server sent; then the connection is idle, once.
\<close>

theorem statement_delivers_tables:
  assumes "user env = recorded (\<lambda>_. skip)" and "execStatus s = RealQuery"
    and "isWorking s" and "callback s = Some c" and "idleSet s" and "mysql s = Some m"
    and "real_query_cont env status m = (0, 0, m0)" and "store_result_start env m0 = (0, r, m1)"
    and "served env m1 rs m2" and "2 * length rs < n" and "list_all2 (points_to lib obj) (r # rs) tables"
  shows "\<exists>s' cs. handleCmd env n status s = setEventDispatcher env s' \<and> calls s' = calls s @ cs @ [IdleCall] \<and>
    map (table_of_call lib obj) cs = map (\<lambda>rows. Some (Inr (map (map cell_text) rows))) tables \<and>
    \<not> isWorking s'"
proof -
  have "r \<noteq> None" using assms(11) by (auto simp: list_all2_Cons1 points_to_def)
  then have "r \<noteq> None \<or> client_errno env m1 = 0" ..
  from handleCmd_delivers [OF assms(1-8) this assms(9,10)] obtain s' where
    "handleCmd env n status s = setEventDispatcher env s'"
      "calls s' = calls s @ result_calls env c m1 r rs @ [IdleCall]" "\<not> isWorking s'"
    by blast
  then show ?thesis using tables_of_results [OF assms(11)]
    by (intro exI [of _ s'] exI [of _ "result_calls env c m1 r rs"]) simp
qed

text \<open>Two result sets, the second with no rows.\<close>

definition demo_object :: "nat \<Rightarrow> string list \<times> cell list list \<times> cell list" where
  "demo_object p = (demo_names, if p = 1 then demo_rows else [], [])"

theorem statement_delivers_tables_witness:
  "\<exists>s' cs. handleCmd (demo_client True) 3 0 ((demo_conn ConnOk RealQuery 1)\<lparr>isWorking := True, callback := Some 4\<rparr>) =
       setEventDispatcher (demo_client True) s' \<and> calls s' = cs @ [IdleCall] \<and>
     map (table_of_call list_lib demo_object) cs = [Some (Inr [[''7'', [], ''-1''], [''8'', ''x'', ''abc'']]), Some (Inr [])]"
proof -
  have "stored list_lib (demo_object 0) demo_names []"
    by (simp add: stored_def list_lib_def demo_object_def demo_names_def)
  then have "points_to list_lib demo_object (Some 0) []"
    unfolding points_to_def by blast
  moreover have "stored list_lib (demo_object 1) demo_names demo_rows"
    using demo_stored by (simp add: demo_object_def)
  then have "points_to list_lib demo_object (Some 1) demo_rows"
    unfolding points_to_def by blast
  ultimately have "list_all2 (points_to list_lib demo_object) [Some 1, Some 0] [demo_rows, []]" by simp
  then show ?thesis
    using statement_delivers_tables [where env = "demo_client True" and n = 3 and status = 0 and c = 4
      and m = 1 and ?m0.0 = 1 and ?m1.0 = 1 and ?m2.0 = 0 and r = "Some 1" and rs = "[Some 0]"
      and s = "(demo_conn ConnOk RealQuery 1)\<lparr>isWorking := True, callback := Some 4\<rparr>"
      and lib = list_lib and obj = demo_object and tables = "[demo_rows, []]"]
    by (fastforce simp: demo_client_def demo_rows_def cell_text_def)
qed

end
